(* ===== verification/Prelude.thy ===== *)
theory Prelude
  imports Main "HOL-Library.Word" "HOL-Library.Multiset"
begin

text \<open>
  Shared vocabulary of the development: the machine integer types of the x86 build, the
  kernel's panic codes and error numbers, the result type of kernel operations that may
  panic, and the generic lemmas on pointer chains, list updates and words that the
  component theories use.

  Conventions.  A kernel operation that may call \<^verbatim>\<open>Panic\<close> or fail an
  \<^verbatim>\<open>assert\<close> returns a value of type \<open>'a kres\<close>: \<open>Inl c\<close> is the panic with
  code \<open>c\<close> and \<open>Inr x\<close> the normal return.  Assertions are those of the debug build (the
  macro of libc/common/include/assert.h without NDEBUG), where a failed assertion panics with
  \<open>PANIC_ASSERTION_FAILURE\<close>.  Logging calls have no effect on the modelled state and are left
  out.  A C \<^verbatim>\<open>int\<close> error code is a value of \<open>errno\<close>, with \<open>ESUCCESS\<close> for 0.
\<close>

type_synonym u8 = "8 word"
type_synonym u32 = "32 word"
type_synonym u64 = "64 word"

text \<open>A C string: its bytes before the terminating zero.\<close>

type_synonym cstring = "u8 list"

text \<open>The panic codes of kernel/include/panic.h that modelled code raises.\<close>

datatype panic_code =
    PANIC_UNKNOWN
  | PANIC_IMPOSSIBLE_RETURN
  | PANIC_OUT_OF_HEAP
  | PANIC_HEAP_REQUEST_TOO_LARGE
  | PANIC_ASSERTION_FAILURE
  | PANIC_NOT_IMPLEMENTED
  | PANIC_INVALID_IRQL
  | PANIC_OUT_OF_PHYS
  | PANIC_PRIORITY_QUEUE
  | PANIC_LINKED_LIST
  | PANIC_SEM_BLOCK_WITHOUT_THREAD
  | PANIC_THREAD_LIST
  | PANIC_CANNOT_MALLOC_WITHOUT_FAULTING
  | PANIC_NEGATIVE_SEMAPHORE
  | PANIC_UNHANDLED_KERNEL_EXCEPTION
  | PANIC_OUT_OF_SWAPFILE
  | PANIC_SPINLOCK_DOUBLE_ACQUISITION
  | PANIC_SPINLOCK_RELEASED_BEFORE_ACQUIRED
  | PANIC_CANNOT_LOCK_MEMORY
  | PANIC_DISK_FAILURE_ON_SWAPFILE
  | PANIC_NO_FILESYSTEM

text \<open>The error numbers of libc/common/include/errno.h; \<open>ESUCCESS\<close> is the return value 0.\<close>

datatype errno =
    ESUCCESS | ENOSYS | ENOMEM | ENODEV | EALREADY | ENOTSUP | EDOM | EINVAL | EEXIST
  | ENOENT | EIO | EACCES | ENOSPC | ENAMETOOLONG | ENOTDIR | EISDIR | ELOOP | EROFS
  | EAGAIN | EFAULT | EBADF | ENOTTY | ERANGE | EILSEQ | EMFILE | ENFILE | EPIPE | ESPIPE
  | ETIMEDOUT | ENOBUFS | EBUSY | ENOEXEC | ENOTRECOVERABLE | EINTR | ECANCELED | EOVERFLOW

type_synonym 'a kres = "panic_code + 'a"

definition kbind :: "'e + 'a \<Rightarrow> ('a \<Rightarrow> 'e + 'b) \<Rightarrow> 'e + 'b" where
  "kbind m f = (case m of Inl e \<Rightarrow> Inl e | Inr x \<Rightarrow> f x)"

text \<open>\<open>kassert b m\<close> is \<^verbatim>\<open>assert(b); m\<close>.\<close>

definition kassert :: "bool \<Rightarrow> 'a kres \<Rightarrow> 'a kres" where
  "kassert b m = (if b then m else Inl PANIC_ASSERTION_FAILURE)"

text \<open>Operations that contain a loop which may not end have type \<open>'a kres option\<close>, with
  \<open>None\<close> for not returning.\<close>

definition obind :: "('e + 'a) option \<Rightarrow> ('a \<Rightarrow> ('e + 'b) option) \<Rightarrow> ('e + 'b) option" where
  "obind m f = (case m of None \<Rightarrow> None | Some (Inl e) \<Rightarrow> Some (Inl e) | Some (Inr x) \<Rightarrow> f x)"

text \<open>A sequence of calls of one state-changing operation.\<close>

fun kfold :: "('s \<Rightarrow> 'a \<Rightarrow> 'e + 's) \<Rightarrow> 's \<Rightarrow> 'a list \<Rightarrow> 'e + 's" where
  "kfold f s [] = Inr s"
| "kfold f s (x # xs) = kbind (f s x) (\<lambda>s. kfold f s xs)"

text \<open>
  \<open>chain nx p xs q\<close>: following the link function \<open>nx\<close> from pointer \<open>p\<close> visits exactly the
  cells \<open>xs\<close> and arrives at \<open>q\<close>.  \<open>None\<close> is the null pointer.
\<close>

fun chain :: "('p \<Rightarrow> 'p option) \<Rightarrow> 'p option \<Rightarrow> 'p list \<Rightarrow> 'p option \<Rightarrow> bool" where
  "chain nx p [] q \<longleftrightarrow> p = q"
| "chain nx p (c # cs) q \<longleftrightarrow> p = Some c \<and> chain nx (nx c) cs q"

text \<open>The last cell of a chain as a pointer: what a tail pointer holds.\<close>

definition tail_of :: "'p list \<Rightarrow> 'p option" where
  "tail_of cs = (if cs = [] then None else Some (last cs))"

text \<open>Removing the element at one position of a list.\<close>

definition remove_nth :: "nat \<Rightarrow> 'a list \<Rightarrow> 'a list" where
  "remove_nth n xs = take n xs @ drop (Suc n) xs"

text \<open>The position of the first occurrence of a value, as the search loops of the kernel
  return it: the index, or -1.\<close>

fun index_of :: "'a \<Rightarrow> 'a list \<Rightarrow> int" where
  "index_of x [] = -1"
| "index_of x (y # ys) =
     (if y = x then 0 else let i = index_of x ys in if i = -1 then -1 else i + 1)"

named_theorems kernel_simps \<open>unfolding rules for the result type\<close>

lemma kbind_simps [simp, kernel_simps]:
  "kbind (Inl e) f = Inl e" "kbind (Inr x) f = f x"
  by (simp_all add: kbind_def)

lemma kassert_simps [simp, kernel_simps]:
  "kassert True m = m" "kassert False m = Inl PANIC_ASSERTION_FAILURE"
  by (simp_all add: kassert_def)

lemma obind_simps [simp, kernel_simps]:
  "obind None g = None" "obind (Some (Inl e)) g = Some (Inl e)" "obind (Some (Inr x)) g = g x"
  by (simp_all add: obind_def)

lemma kbind_eq_Inr [simp]: "kbind m f = Inr y \<longleftrightarrow> (\<exists>x. m = Inr x \<and> f x = Inr y)"
  by (cases m) auto

lemma kassert_eq_Inr [simp]: "kassert b m = Inr y \<longleftrightarrow> b \<and> m = Inr y"
  by (cases b) auto

subsection \<open>Chains\<close>

lemma chain_append:
  "chain nx p (xs @ ys) q \<longleftrightarrow> (\<exists>m. chain nx p xs m \<and> chain nx m ys q)"
  by (induction xs arbitrary: p) auto

lemma chain_cong:
  "(\<And>c. c \<in> set cs \<Longrightarrow> nx c = nx' c) \<Longrightarrow> chain nx p cs q = chain nx' p cs q"
  by (induction cs arbitrary: p) auto

lemma chain_fun_upd [simp]:
  "a \<notin> set cs \<Longrightarrow> chain (nx(a := v)) p cs q = chain nx p cs q"
  by (rule chain_cong) auto

lemma chain_None_nil [simp]: "chain nx None cs None \<longleftrightarrow> cs = []"
  by (cases cs) auto

lemma chain_Some_None:
  "chain nx (Some c) cs None \<longleftrightarrow> (\<exists>ds. cs = c # ds \<and> chain nx (nx c) ds None)"
  by (cases cs) auto

lemma chain_to_null_unique: "chain nx p cs None \<Longrightarrow> chain nx p ds None \<Longrightarrow> cs = ds"
proof (induction cs arbitrary: p ds)
  case Nil
  then show ?case by (cases ds) auto
next
  case (Cons c cs)
  then show ?case by (cases ds) auto
qed

lemma chain_to_null_distinct: "chain nx p cs None \<Longrightarrow> distinct cs"
proof (induction cs arbitrary: p)
  case (Cons c cs)
  have "c \<notin> set cs"
  proof
    assume "c \<in> set cs"
    then obtain as bs where cs: "cs = as @ c # bs" by (meson split_list)
    with Cons.prems have "chain nx (nx c) cs None" "chain nx (nx c) bs None"
      by (auto simp: chain_append)
    then have "cs = bs" by (rule chain_to_null_unique)
    with cs show False by simp
  qed
  moreover have "distinct cs" using Cons by auto
  ultimately show ?case by simp
qed simp

lemma tail_of_simps [simp]:
  "tail_of [] = None" "tail_of (xs @ [x]) = Some x" "tail_of cs = None \<longleftrightarrow> cs = []"
  by (auto simp: tail_of_def)

lemma tail_of_Some: "tail_of cs = Some c \<longleftrightarrow> (\<exists>ds. cs = ds @ [c])"
  by (cases cs rule: rev_cases) (auto simp: tail_of_def)

lemma chain_snoc:
  assumes "chain nx p cs None" and "c \<notin> set cs"
  shows "chain ((case tail_of cs of None \<Rightarrow> nx | Some t \<Rightarrow> nx(t := Some c))(c := None))
           (if cs = [] then Some c else p) (cs @ [c]) None"
proof (cases cs rule: rev_cases)
  case Nil
  then show ?thesis by simp
next
  case (snoc ds t)
  with assms have "distinct cs" by (blast intro: chain_to_null_distinct)
  with snoc assms have "t \<notin> set ds" "c \<noteq> t" "c \<notin> set ds" "chain nx p ds (Some t)"
    by (auto simp: chain_append)
  then show ?thesis using snoc by (auto simp: chain_append)
qed

text \<open>Unlinking the cell after \<open>ds\<close>: the predecessor's link skips it.\<close>

lemma chain_unlink:
  assumes "chain nx p (ds @ c # es) None"
  shows "chain (case tail_of ds of None \<Rightarrow> nx | Some t \<Rightarrow> nx(t := nx c))
           (if ds = [] then nx c else p) (ds @ es) None"
proof (cases ds rule: rev_cases)
  case Nil
  with assms show ?thesis by simp
next
  case (snoc as t)
  from assms have "distinct (ds @ c # es)" by (rule chain_to_null_distinct)
  with snoc assms show ?thesis by (auto simp: chain_append)
qed

subsection \<open>Lists\<close>

lemma length_remove_nth [simp]: "n < length xs \<Longrightarrow> length (remove_nth n xs) = length xs - 1"
  by (simp add: remove_nth_def)

lemma remove_nth_Cons [simp]:
  "remove_nth 0 (x # xs) = xs" "remove_nth (Suc n) (x # xs) = x # remove_nth n xs"
  by (simp_all add: remove_nth_def)

lemma remove_nth_append: "length ds = n \<Longrightarrow> remove_nth n (ds @ c # es) = ds @ es"
  by (simp add: remove_nth_def)

lemma index_of_ge: "index_of x xs \<ge> -1"
  by (induction xs) (auto simp: Let_def)

lemma index_of_eq_minus1: "index_of x xs = -1 \<longleftrightarrow> x \<notin> set xs"
proof (induction xs)
  case (Cons y ys)
  then show ?case using index_of_ge [of x ys] by (auto simp: Let_def)
qed simp

lemma index_of_notin [simp]: "x \<notin> set xs \<Longrightarrow> index_of x xs = -1"
  by (simp add: index_of_eq_minus1)

lemma index_of_append:
  "x \<notin> set ds \<Longrightarrow> index_of x (ds @ x # es) = int (length ds)"
  by (induction ds) (auto simp: Let_def)

lemma nth_remove_index:
  "x \<in> set xs \<Longrightarrow> \<exists>ds es. xs = ds @ x # es \<and> x \<notin> set ds"
  by (rule split_list_first)

end
