(* ===== verification/LinkedList.thy ===== *)
theory LinkedList
  imports Prelude
begin

text \<open>
  The generic linked list of kernel/adt/linkedlist.c and the stack of kernel/adt/stack.c, at
  the level of nodes and pointers.  The kernel heap's nodes are a finite store from addresses
  to nodes; \<^verbatim>\<open>AllocHeap\<close> hands out an address that was never used and
  \<^verbatim>\<open>FreeHeap\<close> removes the node.  Reading through a pointer that is not in the store has
  no C meaning; the walks give \<open>None\<close> there, which is also the value of a walk that does not
  end.  \<open>ll_rep\<close> relates a list header and store to the HOL list it represents, and the lemmas
  show that every operation implements the corresponding HOL list operation, except
  \<^verbatim>\<open>ListInsertStart\<close>, whose new node links to the tail and not to the head.
\<close>

record 'a linked_list_node =
  ln_data :: 'a
  ln_next :: "nat option"

record linked_list =
  ll_size :: int
  ll_head :: "nat option"
  ll_tail :: "nat option"

record 'a node_store =
  ns_nodes :: "nat \<rightharpoonup> 'a linked_list_node"
  ns_fresh :: nat

type_synonym 'a list_state = "'a node_store \<times> linked_list"

definition empty_store :: "'a node_store" where
  "empty_store = \<lparr>ns_nodes = Map.empty, ns_fresh = 0\<rparr>"

definition next_of :: "'a node_store \<Rightarrow> nat \<Rightarrow> nat option" where
  "next_of st p = Option.bind (ns_nodes st p) ln_next"

definition set_next :: "nat \<Rightarrow> nat option \<Rightarrow> 'a node_store \<Rightarrow> 'a node_store" where
  "set_next p q st = st\<lparr>ns_nodes := (ns_nodes st)(p := map_option (ln_next_update (\<lambda>_. q)) (ns_nodes st p))\<rparr>"

text \<open>Allocation followed by the two assignments to the new node's fields.\<close>

definition new_node :: "'a \<Rightarrow> nat option \<Rightarrow> 'a node_store \<Rightarrow> nat \<times> 'a node_store" where
  "new_node d q st =
     (ns_fresh st,
      st\<lparr>ns_nodes := (ns_nodes st)(ns_fresh st \<mapsto> \<lparr>ln_data = d, ln_next = q\<rparr>),
         ns_fresh := Suc (ns_fresh st)\<rparr>)"

definition free_node :: "nat \<Rightarrow> 'a node_store \<Rightarrow> 'a node_store" where
  "free_node p st = st\<lparr>ns_nodes := (ns_nodes st)(p := None)\<rparr>"

definition ListCreate :: linked_list where
  "ListCreate = \<lparr>ll_size = 0, ll_head = None, ll_tail = None\<rparr>"

definition ListInsertStart :: "'a list_state \<Rightarrow> 'a \<Rightarrow> 'a list_state kres" where
  "ListInsertStart s data = (let (st, l) = s; (node, st) = new_node data (ll_tail l) st in
     kbind (if ll_head l = None then kassert (ll_tail l = None) (Inr (l\<lparr>ll_tail := Some node\<rparr>))
            else Inr l)
       (\<lambda>l. Inr (st, l\<lparr>ll_head := Some node, ll_size := ll_size l + 1\<rparr>)))"

definition ListInsertEnd :: "'a list_state \<Rightarrow> 'a \<Rightarrow> 'a list_state kres" where
  "ListInsertEnd s data = (let (st, l) = s; (node, st) = new_node data None st in
     kbind (case ll_tail l of
              None \<Rightarrow> kassert (ll_head l = None)
                        (Inr (st, l\<lparr>ll_tail := Some node, ll_head := Some node\<rparr>))
            | Some t \<Rightarrow> Inr (set_next t (Some node) st, l\<lparr>ll_tail := Some node\<rparr>))
       (\<lambda>(st, l). Inr (st, l\<lparr>ll_size := ll_size l + 1\<rparr>)))"

partial_function (option) index_loop ::
  "'a node_store \<Rightarrow> 'a \<Rightarrow> nat option \<Rightarrow> int \<Rightarrow> int option" where
  "index_loop st data iter i =
     (case iter of
        None \<Rightarrow> Some (-1)
      | Some p \<Rightarrow> (case ns_nodes st p of
            None \<Rightarrow> None
          | Some n \<Rightarrow> if ln_data n = data then Some i else index_loop st data (ln_next n) (i + 1)))"

definition ListGetIndex :: "'a list_state \<Rightarrow> 'a \<Rightarrow> int option" where
  "ListGetIndex s data = index_loop (fst s) data (ll_head (snd s)) 0"

definition ListContains :: "'a list_state \<Rightarrow> 'a \<Rightarrow> bool option" where
  "ListContains s data = map_option (\<lambda>i. i \<noteq> -1) (ListGetIndex s data)"

partial_function (option) data_loop ::
  "'a node_store \<Rightarrow> int \<Rightarrow> nat option \<Rightarrow> int \<Rightarrow> 'a kres option" where
  "data_loop st index iter i =
     (case iter of
        None \<Rightarrow> Some (Inl PANIC_LINKED_LIST)
      | Some p \<Rightarrow> (case ns_nodes st p of
            None \<Rightarrow> None
          | Some n \<Rightarrow> if i = index then Some (Inr (ln_data n)) else data_loop st index (ln_next n) (i + 1)))"

definition ListGetData :: "'a list_state \<Rightarrow> int \<Rightarrow> 'a kres option" where
  "ListGetData s index = data_loop (fst s) index (ll_head (snd s)) 0"

definition ProperDelete :: "'a list_state \<Rightarrow> nat \<Rightarrow> nat option \<Rightarrow> 'a list_state" where
  "ProperDelete s iter prev = (let (st, l) = s;
     (st, l) = (if Some iter = ll_head l then (st, l\<lparr>ll_head := next_of st iter\<rparr>)
                else (case prev of None \<Rightarrow> st | Some p \<Rightarrow> set_next p (next_of st iter) st, l));
     l = (if Some iter = ll_tail l then l\<lparr>ll_tail := prev\<rparr> else l)
     in (free_node iter st, l\<lparr>ll_size := ll_size l - 1\<rparr>))"

partial_function (option) delete_loop ::
  "'a list_state \<Rightarrow> int \<Rightarrow> int \<Rightarrow> nat option \<Rightarrow> nat option \<Rightarrow> ('a list_state \<times> bool) option" where
  "delete_loop s index i prev iter =
     (case iter of
        None \<Rightarrow> Some (s, False)
      | Some p \<Rightarrow> (case ns_nodes (fst s) p of
            None \<Rightarrow> None
          | Some n \<Rightarrow> if i = index then Some (ProperDelete s p prev, True)
                      else delete_loop s index (i + 1) (Some p) (ln_next n)))"

definition ListDeleteIndex :: "'a list_state \<Rightarrow> int \<Rightarrow> ('a list_state \<times> bool) option" where
  "ListDeleteIndex s index =
     (if index \<ge> ll_size (snd s) \<or> index < 0 then Some (s, False)
      else delete_loop s index 0 None (ll_head (snd s)))"

definition ListDeleteData :: "'a list_state \<Rightarrow> 'a \<Rightarrow> ('a list_state \<times> bool) option" where
  "ListDeleteData s data = Option.bind (ListGetIndex s data) (ListDeleteIndex s)"

definition ListSize :: "'a list_state \<Rightarrow> int" where
  "ListSize s = ll_size (snd s)"

text \<open>\<open>ListDestroy\<close> gives the store left when the header has been freed as well.\<close>

partial_function (option) ListDestroy :: "'a list_state \<Rightarrow> 'a node_store option" where
  "ListDestroy s =
     (if ll_size (snd s) > 0
      then Option.bind (ListDeleteIndex s 0) (\<lambda>r. ListDestroy (fst r))
      else Some (fst s))"

definition ListGetFirstNode :: "'a list_state option \<Rightarrow> nat option kres" where
  "ListGetFirstNode ls = (case ls of None \<Rightarrow> Inl PANIC_LINKED_LIST | Some s \<Rightarrow> Inr (ll_head (snd s)))"

definition ListGetNextNode :: "'a node_store \<Rightarrow> nat option \<Rightarrow> nat option kres" where
  "ListGetNextNode st prev_node =
     (case prev_node of None \<Rightarrow> Inl PANIC_LINKED_LIST | Some p \<Rightarrow> Inr (next_of st p))"

definition ListGetDataFromNode :: "'a node_store \<Rightarrow> nat option \<Rightarrow> 'a option kres" where
  "ListGetDataFromNode st node =
     (case node of None \<Rightarrow> Inl PANIC_LINKED_LIST | Some p \<Rightarrow> Inr (map_option ln_data (ns_nodes st p)))"

fun data_at_index_loop :: "'a node_store \<Rightarrow> nat \<Rightarrow> nat option \<Rightarrow> 'a option" where
  "data_at_index_loop st 0 iter = Option.bind iter (\<lambda>p. map_option ln_data (ns_nodes st p))"
| "data_at_index_loop st (Suc n) iter =
     (case iter of None \<Rightarrow> None | Some p \<Rightarrow> data_at_index_loop st n (next_of st p))"

definition ListGetDataAtIndex :: "'a list_state \<Rightarrow> int \<Rightarrow> 'a option" where
  "ListGetDataAtIndex s index = data_at_index_loop (fst s) (nat index) (ll_head (snd s))"

text \<open>The stack of kernel/adt/stack.c: a list whose front is the top.\<close>

definition StackAdtPush :: "'a list_state \<Rightarrow> 'a \<Rightarrow> 'a list_state kres" where
  "StackAdtPush s data = ListInsertStart s data"

definition StackAdtPeek :: "'a list_state \<Rightarrow> 'a option kres" where
  "StackAdtPeek s = kbind (ListGetFirstNode (Some s)) (ListGetDataFromNode (fst s))"

definition StackAdtPop :: "'a list_state \<Rightarrow> ('a list_state \<times> 'a option) kres option" where
  "StackAdtPop s =
     (case StackAdtPeek s of
        Inl e \<Rightarrow> Some (Inl e)
      | Inr data \<Rightarrow> map_option (\<lambda>r. Inr (fst r, data)) (ListDeleteIndex s 0))"

definition StackAdtSize :: "'a list_state \<Rightarrow> int" where
  "StackAdtSize s = ListSize s"

text \<open>
  The abstraction: \<open>ll_rep s ps xs\<close> holds when the header's head pointer starts the chain of
  nodes \<open>ps\<close> whose data are \<open>xs\<close>, the tail pointer and the size agree with it, and the
  allocator's next address is above every node in use.
\<close>

definition cells :: "'a node_store \<Rightarrow> nat option \<Rightarrow> nat list \<Rightarrow> 'a list \<Rightarrow> bool" where
  "cells st p ps xs \<longleftrightarrow> chain (next_of st) p ps None \<and>
     map (\<lambda>p. map_option ln_data (ns_nodes st p)) ps = map Some xs"

definition ll_rep :: "'a list_state \<Rightarrow> nat list \<Rightarrow> 'a list \<Rightarrow> bool" where
  "ll_rep s ps xs \<longleftrightarrow>
     cells (fst s) (ll_head (snd s)) ps xs \<and>
     ll_tail (snd s) = tail_of ps \<and> ll_size (snd s) = int (length ps) \<and>
     (\<forall>p. ns_nodes (fst s) p \<noteq> None \<longrightarrow> p < ns_fresh (fst s))"

definition ll_repr :: "'a list_state \<Rightarrow> 'a list \<Rightarrow> bool" where
  "ll_repr s xs \<longleftrightarrow> (\<exists>ps. ll_rep s ps xs)"

subsection \<open>Node stores\<close>

lemma ns_nodes_simps [simp]:
  "ns_nodes (set_next p q st) =
     (ns_nodes st)(p := map_option (ln_next_update (\<lambda>_. q)) (ns_nodes st p))"
  "ns_nodes (free_node p st) = (ns_nodes st)(p := None)"
  "ns_fresh (set_next p q st) = ns_fresh st" "ns_fresh (free_node p st) = ns_fresh st"
  by (simp_all add: set_next_def free_node_def)

lemma next_of_set_next [simp]:
  "ns_nodes st p \<noteq> None \<Longrightarrow> next_of (set_next p q st) = (next_of st)(p := q)"
  by (auto simp: next_of_def fun_eq_iff)

lemma next_of_free_node [simp]: "next_of (free_node p st) = (next_of st)(p := None)"
  by (auto simp: next_of_def fun_eq_iff)

lemma map_option_ln_data [simp]:
  "map_option ln_data (map_option (ln_next_update f) n) = map_option ln_data n"
  by (cases n) auto

subsection \<open>The representation relation\<close>

lemma cells_Nil [simp]: "cells st p [] xs \<longleftrightarrow> p = None \<and> xs = []"
  by (auto simp: cells_def)

lemma cells_Cons:
  "cells st p (c # cs) xs \<longleftrightarrow>
     p = Some c \<and> (\<exists>n ys. ns_nodes st c = Some n \<and> xs = ln_data n # ys \<and> cells st (ln_next n) cs ys)"
  by (cases xs; cases "ns_nodes st c") (auto simp: cells_def next_of_def [of st c])

lemma cells_length: "cells st p ps xs \<Longrightarrow> length ps = length xs"
  unfolding cells_def by (metis map_eq_imp_length_eq)

lemma cells_nodes: "cells st p ps xs \<Longrightarrow> c \<in> set ps \<Longrightarrow> ns_nodes st c \<noteq> None"
  by (induction ps arbitrary: p xs) (auto simp: cells_Cons)

lemma cells_distinct: "cells st p ps xs \<Longrightarrow> distinct ps"
  unfolding cells_def by (blast intro: chain_to_null_distinct)

lemma cells_append:
  "cells st p (ps @ qs) zs \<longleftrightarrow>
     (\<exists>m xs ys. zs = xs @ ys \<and> chain (next_of st) p ps m \<and> cells st m qs ys \<and>
        map (\<lambda>p. map_option ln_data (ns_nodes st p)) ps = map Some xs)"
  by (auto simp: cells_def chain_append map_eq_append_conv append_eq_map_conv)

lemma ll_rep_Create: "ll_rep (st, ListCreate) [] [] \<longleftrightarrow> (\<forall>p. ns_nodes st p \<noteq> None \<longrightarrow> p < ns_fresh st)"
  by (simp add: ll_rep_def ListCreate_def)

lemma ListInsertEnd_rep:
  assumes "ll_rep s ps xs"
  shows "\<exists>s' p. ListInsertEnd s d = Inr s' \<and> ll_rep s' (ps @ [p]) (xs @ [d])"
proof -
  obtain st l where s: "s = (st, l)" by (cases s)
  let ?c = "ns_fresh st"
  have fresh: "\<forall>p. ns_nodes st p \<noteq> None \<longrightarrow> p < ?c" using assms by (simp add: ll_rep_def s)
  then have c_none: "ns_nodes st ?c = None" by auto
  have cl: "cells st (ll_head l) ps xs" using assms by (simp add: ll_rep_def s)
  have c: "?c \<notin> set ps" using cells_nodes [OF cl, of ?c] c_none by blast
  define st1 where "st1 = snd (new_node d None st)"
  define st2 where "st2 = (case tail_of ps of None \<Rightarrow> st1 | Some t \<Rightarrow> set_next t (Some ?c) st1)"
  have nodes: "ns_nodes st1 = (ns_nodes st)(?c \<mapsto> \<lparr>ln_data = d, ln_next = None\<rparr>)"
    "ns_fresh st2 = Suc ?c"
    by (simp_all add: st1_def st2_def new_node_def split: option.split)
  have tl: "t \<noteq> ?c \<and> ns_nodes st t \<noteq> None" if "tail_of ps = Some t" for t
    using that c cells_nodes [OF cl, of t] by (auto simp: tail_of_Some)
  have next2: "next_of st2 =
    (case tail_of ps of None \<Rightarrow> next_of st | Some t \<Rightarrow> (next_of st)(t := Some ?c))(?c := None)"
    using tl by (auto simp: st2_def next_of_def nodes fun_eq_iff split: option.split)
  let ?l = "l\<lparr>ll_tail := Some ?c, ll_head := if ps = [] then Some ?c else ll_head l,
              ll_size := ll_size l + 1\<rparr>"
  have eq: "ListInsertEnd s d = Inr (st2, ?l)"
    using assms by (auto simp: s ListInsertEnd_def Let_def new_node_def st2_def st1_def ll_rep_def
        split: option.splits)
  have data: "map_option ln_data (ns_nodes st2 p) = map_option ln_data (ns_nodes st p)"
    if "p \<noteq> ?c" for p
    using that by (auto simp: st2_def nodes split: option.split)
  have datac: "map_option ln_data (ns_nodes st2 ?c) = Some d"
    using tl by (auto simp: st2_def nodes split: option.split)
  have "map (\<lambda>p. map_option ln_data (ns_nodes st2 p)) ps = map (\<lambda>p. map_option ln_data (ns_nodes st p)) ps"
    by (rule map_cong [OF refl]) (metis data c)
  then have "map (\<lambda>p. map_option ln_data (ns_nodes st2 p)) ps = map Some xs"
    using cl by (simp only: cells_def)
  moreover have "p < Suc ?c" if "ns_nodes st2 p \<noteq> None" for p
    using that data [of p] fresh by (cases "p = ?c"; cases "ns_nodes st p") (auto simp: less_Suc_eq)
  ultimately have "ll_rep (st2, ?l) (ps @ [?c]) (xs @ [d])"
    using assms chain_snoc [of "next_of st" "ll_head l" ps ?c] c
    by (auto simp: ll_rep_def s next2 datac nodes cells_def)
  with eq show ?thesis by blast
qed

lemma index_loop_cells:
  "cells st iter ps xs \<Longrightarrow> index_loop st d iter i = Some (if d \<in> set xs then i + index_of d xs else -1)"
proof (induction ps arbitrary: iter xs i)
  case Nil
  then show ?case by (subst index_loop.simps) simp
next
  case (Cons p ps)
  then show ?case by (subst index_loop.simps) (auto simp: cells_Cons Let_def index_of_eq_minus1)
qed

lemma ListGetIndex_rep: "ll_rep s ps xs \<Longrightarrow> ListGetIndex s d = Some (index_of d xs)"
  by (auto simp: ListGetIndex_def ll_rep_def index_loop_cells)

lemma ListContains_rep: "ll_rep s ps xs \<Longrightarrow> ListContains s d = Some (d \<in> set xs)"
  by (simp add: ListContains_def ListGetIndex_rep index_of_eq_minus1)

lemma data_loop_cells:
  "cells st iter ps xs \<Longrightarrow> data_loop st (i + k) iter i =
     Some (if 0 \<le> k \<and> k < int (length xs) then Inr (xs ! nat k) else Inl PANIC_LINKED_LIST)"
proof (induction ps arbitrary: iter xs i k)
  case Nil
  then show ?case by (subst data_loop.simps) simp
next
  case (Cons p ps)
  then obtain n ys where n: "iter = Some p" "ns_nodes st p = Some n" "xs = ln_data n # ys"
    and rest: "cells st (ln_next n) ps ys"
    by (auto simp: cells_Cons)
  from Cons.IH [OF rest, of "i + 1" "k - 1"] n show ?case
    by (subst data_loop.simps) (auto simp: nth_Cons' nat_diff_distrib)
qed

lemma ListGetData_rep:
  "ll_rep s ps xs \<Longrightarrow> ListGetData s k =
     Some (if 0 \<le> k \<and> k < int (length xs) then Inr (xs ! nat k) else Inl PANIC_LINKED_LIST)"
  using data_loop_cells [of "fst s" "ll_head (snd s)" ps xs 0 k]
  by (simp add: ListGetData_def ll_rep_def)

lemma data_at_index_loop_cells:
  "cells st iter ps xs \<Longrightarrow>
   data_at_index_loop st n iter = (if n < length xs then Some (xs ! n) else None)"
proof (induction n arbitrary: iter ps xs)
  case 0
  then show ?case by (cases ps) (auto simp: cells_Cons)
next
  case (Suc n)
  then show ?case by (cases ps) (auto simp: cells_Cons next_of_def)
qed

lemma ListGetDataAtIndex_rep:
  "ll_rep s ps xs \<Longrightarrow>
   ListGetDataAtIndex s k = (if nat k < length xs then Some (xs ! nat k) else None)"
  using data_at_index_loop_cells [of "fst s" "ll_head (snd s)" ps xs "nat k"]
  by (simp add: ListGetDataAtIndex_def ll_rep_def)

text \<open>Unlinking and freeing the node after the first \<open>length ds\<close> nodes removes its datum.\<close>

lemma ProperDelete_rep:
  assumes rep: "ll_rep s (ds @ c # es) xs"
  shows "ll_rep (ProperDelete s c (tail_of ds)) (ds @ es) (remove_nth (length ds) xs)"
proof -
  obtain st l where s: "s = (st, l)" by (cases s)
  have cl: "cells st (ll_head l) (ds @ c # es) xs" using rep by (simp add: ll_rep_def s)
  have dist: "distinct (ds @ c # es)" by (rule cells_distinct [OF cl])
  have in_st: "ns_nodes st p \<noteq> None" if "p \<in> set (ds @ c # es)" for p
    using cells_nodes [OF cl that] .
  let ?st = "case tail_of ds of None \<Rightarrow> st | Some t \<Rightarrow> set_next t (next_of st c) st"
  have head: "Some c = ll_head l \<longleftrightarrow> ds = []"
    using cl dist by (cases ds) (auto simp: cells_def)
  have tl: "Some c = ll_tail l \<longleftrightarrow> es = []"
    using rep dist by (cases es rule: rev_cases) (auto simp: ll_rep_def s tail_of_def)
  have eq: "ProperDelete s c (tail_of ds) =
    (free_node c ?st, l\<lparr>ll_head := if ds = [] then next_of st c else ll_head l,
       ll_tail := if es = [] then tail_of ds else ll_tail l, ll_size := ll_size l - 1\<rparr>)"
    using head tl by (auto simp: ProperDelete_def s Let_def)
  have nx: "next_of ?st = (case tail_of ds of None \<Rightarrow> next_of st | Some t \<Rightarrow> (next_of st)(t := next_of st c))"
    using in_st by (auto simp: tail_of_def)
  have ch: "chain (next_of ?st) (if ds = [] then next_of st c else ll_head l) (ds @ es) None"
    unfolding nx by (rule chain_unlink) (use cl in \<open>simp add: cells_def\<close>)
  have data: "map_option ln_data (ns_nodes ?st p) = map_option ln_data (ns_nodes st p)" for p
    by (auto split: option.split)
  have keep: "map (\<lambda>p. map_option ln_data (ns_nodes (free_node c ?st) p)) (ds @ es)
            = map (\<lambda>p. map_option ln_data (ns_nodes st p)) (ds @ es)"
    by (rule map_cong [OF refl]) (use dist data in auto)
  have "cells (free_node c ?st) (if ds = [] then next_of st c else ll_head l) (ds @ es)
          (remove_nth (length ds) xs)"
  proof -
    have "map (\<lambda>p. map_option ln_data (ns_nodes st p)) (ds @ es) = map Some (remove_nth (length ds) xs)"
      using arg_cong [of _ _ "remove_nth (length ds)", OF cl [unfolded cells_def, THEN conjunct2]]
      by (simp add: remove_nth_def take_map drop_map)
    then have "map (\<lambda>p. map_option ln_data (ns_nodes (free_node c ?st) p)) (ds @ es) =
        map Some (remove_nth (length ds) xs)"
      by (rule trans [OF keep])
    moreover have "chain (next_of (free_node c ?st)) (if ds = [] then next_of st c else ll_head l)
        (ds @ es) None"
      using ch dist by simp
    ultimately show ?thesis unfolding cells_def by (rule conjI [rotated])
  qed
  moreover have "p < ns_fresh st" if "ns_nodes ?st p \<noteq> None" for p
    using that data [of p] rep by (cases "ns_nodes st p") (auto simp: ll_rep_def s)
  moreover have "(if es = [] then tail_of ds else ll_tail l) = tail_of (ds @ es)"
    using rep by (auto simp: ll_rep_def s tail_of_def)
  moreover have "ns_fresh ?st = ns_fresh st" by (simp split: option.split)
  ultimately show ?thesis
    using rep unfolding eq by (auto simp: ll_rep_def s)
qed

lemma delete_loop_cells:
  assumes "ll_rep s (ds @ cs) xs" "cells (fst s) iter cs ys" "0 \<le> k"
  shows "delete_loop s (i + k) i (tail_of ds) iter =
     Some (if k < int (length cs)
           then (ProperDelete s (cs ! nat k) (tail_of (ds @ take (nat k) cs)), True)
           else (s, False))"
  using assms
proof (induction cs arbitrary: iter ys ds i k)
  case Nil
  then show ?case by (subst delete_loop.simps) simp
next
  case (Cons c cs)
  then obtain n zs where n: "iter = Some c" "ns_nodes (fst s) c = Some n"
    and rest: "cells (fst s) (ln_next n) cs zs"
    by (auto simp: cells_Cons)
  show ?case
  proof (cases "k = 0")
    case True
    with n show ?thesis by (subst delete_loop.simps) simp
  next
    case False
    with Cons.prems(3) have j: "nat k = Suc (nat (k - 1))" "0 \<le> k - 1" by arith+
    from Cons.IH [of "ds @ [c]" "ln_next n" zs "k - 1" "i + 1"] Cons.prems rest False n j show ?thesis
      by (subst delete_loop.simps) auto
  qed
qed

lemma ListDeleteIndex_rep:
  assumes rep: "ll_rep s ps xs"
  shows "if 0 \<le> k \<and> k < int (length xs)
         then \<exists>s'. ListDeleteIndex s k = Some (s', True) \<and>
                   ll_rep s' (remove_nth (nat k) ps) (remove_nth (nat k) xs)
         else ListDeleteIndex s k = Some (s, False)"
proof -
  have cl: "cells (fst s) (ll_head (snd s)) ps xs" and sz: "ll_size (snd s) = int (length ps)"
    using rep by (simp_all add: ll_rep_def)
  have len: "length ps = length xs" using cl by (rule cells_length)
  show ?thesis
  proof (cases "0 \<le> k \<and> k < int (length xs)")
    case True
    then have k: "nat k < length ps" using len by auto
    have "ListDeleteIndex s k = Some (ProperDelete s (ps ! nat k) (tail_of (take (nat k) ps)), True)"
      using delete_loop_cells [of s "[]" ps xs _ xs k 0] rep cl True sz len
      by (simp add: ListDeleteIndex_def)
    moreover have "ps = take (nat k) ps @ ps ! nat k # drop (Suc (nat k)) ps"
      using k by (simp add: id_take_nth_drop)
    ultimately show ?thesis
      using ProperDelete_rep [of s "take (nat k) ps" "ps ! nat k" "drop (Suc (nat k)) ps" xs] rep True k
      by (simp add: remove_nth_def)
  next
    case False
    then show ?thesis using sz len by (auto simp: ListDeleteIndex_def)
  qed
qed

lemma ListDestroy_rep: "ll_rep s ps xs \<Longrightarrow> \<exists>st. ListDestroy s = Some st"
proof (induction "length xs" arbitrary: s ps xs)
  case 0
  then have "\<not> ll_size (snd s) > 0" by (auto simp: ll_rep_def dest: cells_length)
  then show ?case by (subst ListDestroy.simps) simp
next
  case (Suc n)
  have "length ps = length xs" "ll_size (snd s) = int (length ps)"
    using Suc.prems by (auto simp: ll_rep_def dest: cells_length)
  then have sz: "ll_size (snd s) > 0" using Suc.hyps(2) by linarith
  obtain s' where s': "ListDeleteIndex s 0 = Some (s', True)" "ll_rep s' (remove_nth 0 ps) (remove_nth 0 xs)"
    using ListDeleteIndex_rep [OF Suc.prems, of 0] Suc.hyps(2) by (auto split: if_splits)
  have "n = length (remove_nth 0 xs)" using Suc.hyps(2) by (cases xs) auto
  from Suc.hyps(1) [OF this s'(2)] s' sz show ?case by (subst ListDestroy.simps) simp
qed

subsection \<open>The list interface\<close>

text \<open>
  What the clients of linkedlist.h rely on: a list header represents a HOL list, insertion at
  the end appends, deletion by index removes that element, and the lookups read the list.
\<close>

locale list_adt =
  fixes repr :: "'s \<Rightarrow> 'a list \<Rightarrow> bool"
    and insert_end :: "'s \<Rightarrow> 'a \<Rightarrow> 's kres"
    and delete_index :: "'s \<Rightarrow> int \<Rightarrow> ('s \<times> bool) option"
    and get_index :: "'s \<Rightarrow> 'a \<Rightarrow> int option"
    and get_data :: "'s \<Rightarrow> int \<Rightarrow> 'a kres option"
    and size_fn :: "'s \<Rightarrow> int"
  assumes insert_end: "repr s xs \<Longrightarrow> \<exists>s'. insert_end s d = Inr s' \<and> repr s' (xs @ [d])"
    and delete_index: "repr s xs \<Longrightarrow> 0 \<le> k \<Longrightarrow> k < int (length xs) \<Longrightarrow>
           \<exists>s'. delete_index s k = Some (s', True) \<and> repr s' (remove_nth (nat k) xs)"
    and delete_index_out: "repr s xs \<Longrightarrow> k < 0 \<or> int (length xs) \<le> k \<Longrightarrow> delete_index s k = Some (s, False)"
    and get_index: "repr s xs \<Longrightarrow> get_index s d = Some (index_of d xs)"
    and get_data: "repr s xs \<Longrightarrow> get_data s k =
           Some (if 0 \<le> k \<and> k < int (length xs) then Inr (xs ! nat k) else Inl PANIC_LINKED_LIST)"
    and size_fn: "repr s xs \<Longrightarrow> size_fn s = int (length xs)"
begin

lemma insert_all: "repr s xs \<Longrightarrow> \<exists>s'. kfold insert_end s ys = Inr s' \<and> repr s' (xs @ ys)"
proof (induction ys arbitrary: s xs)
  case (Cons y ys)
  obtain s1 where s1: "insert_end s y = Inr s1" "repr s1 (xs @ [y])"
    using insert_end [OF Cons.prems] by blast
  from Cons.IH [OF s1(2)] s1(1) show ?case by auto
qed simp

text \<open>Deleting by value removes the first element equal to it, and fails when there is none.\<close>

lemma delete_data:
  assumes "repr s xs"
  shows "\<exists>s'. Option.bind (get_index s d) (delete_index s) = Some (s', d \<in> set xs) \<and>
              repr s' (remove1 d xs)"
proof (cases "d \<in> set xs")
  case True
  then obtain ds es where xs: "xs = ds @ d # es" "d \<notin> set ds" by (meson split_list_first)
  then show ?thesis
    using delete_index [OF assms, of "int (length ds)"] get_index [OF assms]
    by (auto simp: index_of_append remove_nth_append remove1_append)
next
  case False
  then show ?thesis
    using delete_index_out [OF assms, of "-1"] get_index [OF assms] assms
    by (auto simp: remove1_idem)
qed

text \<open>The list used as a queue: taking the first element and deleting index 0 leaves the rest.\<close>

lemma take_front:
  assumes "repr s (x # xs)"
  shows "get_data s 0 = Some (Inr x) \<and> (\<exists>s'. delete_index s 0 = Some (s', True) \<and> repr s' xs)"
  using get_data [OF assms, of 0] delete_index [OF assms, of 0] by simp

end

interpretation ll: list_adt ll_repr ListInsertEnd ListDeleteIndex ListGetIndex ListGetData ListSize
proof (unfold_locales, goal_cases)
  case (1 s xs d)
  then show ?case unfolding ll_repr_def by (meson ListInsertEnd_rep)
next
  case (2 s xs k)
  then obtain ps where "ll_rep s ps xs" by (auto simp: ll_repr_def)
  from ListDeleteIndex_rep [OF this, of k] 2(2,3) show ?case unfolding ll_repr_def by auto
next
  case (3 s xs k)
  then obtain ps where "ll_rep s ps xs" by (auto simp: ll_repr_def)
  from ListDeleteIndex_rep [OF this, of k] 3(2) show ?case by (auto split: if_splits)
next
  case (4 s xs d)
  then show ?case by (auto simp: ll_repr_def ListGetIndex_rep)
next
  case (5 s xs k)
  then show ?case by (auto simp: ll_repr_def ListGetData_rep)
next
  case (6 s xs)
  then show ?case by (auto simp: ll_repr_def ListSize_def ll_rep_def dest: cells_length)
qed

lemma ll_repr_empty [simp]: "ll_repr (empty_store, ListCreate) []"
  unfolding ll_repr_def by (rule exI [of _ "[]"]) (simp add: ll_rep_Create empty_store_def)

lemma ListDestroy_step:
  "ll_size (snd s) > 0 \<Longrightarrow> ListDeleteIndex s 0 = Some (s', r) \<Longrightarrow> ListDestroy s = ListDestroy s'"
  by (subst ListDestroy.simps) simp

lemma ListDestroy_stuck:
  assumes "ll_size (snd s) > 0" "ll_head (snd s) = None"
  shows "ListDestroy s = None"
proof (rule ccontr)
  assume "ListDestroy s \<noteq> None"
  then obtain r where "ListDestroy s = Some r" by auto
  then have "ll_size (snd s) > 0 \<longrightarrow> ll_head (snd s) \<noteq> None"
  proof (rule ListDestroy.raw_induct [rotated])
    fix f :: "'a list_state \<Rightarrow> 'a node_store option" and t :: "'a list_state" and r
    assume IH: "\<And>t r. f t = Some r \<Longrightarrow> ll_size (snd t) > 0 \<longrightarrow> ll_head (snd t) \<noteq> None"
      and run: "(if ll_size (snd t) > 0 then Option.bind (ListDeleteIndex t 0) (\<lambda>r. f (fst r))
                 else Some (fst t)) = Some r"
    show "ll_size (snd t) > 0 \<longrightarrow> ll_head (snd t) \<noteq> None"
    proof (intro impI notI)
      assume *: "ll_size (snd t) > 0" "ll_head (snd t) = None"
      then have "ListDeleteIndex t 0 = Some (t, False)"
        by (simp add: ListDeleteIndex_def delete_loop.simps)
      with run * IH [of t r] show False by simp
    qed
  qed
  with assms show False by simp
qed

subsection \<open>Properties\<close>

text \<open>C1.  The linked list built by inserting any sequence at the end of a fresh list behaves
  as that sequence: no assertion fails, the size is its length, a search gives the first index
  of the value or -1, reading an index gives the element or panics outside the bounds, and
  destroying the list ends.\<close>

theorem linked_list_implements_list:
  "\<exists>s. kfold ListInsertEnd (empty_store, ListCreate) xs = Inr s \<and>
       ListSize s = int (length xs) \<and>
       (\<forall>d. ListGetIndex s d = Some (index_of d xs) \<and> ListContains s d = Some (d \<in> set xs)) \<and>
       (\<forall>k. ListGetData s k =
          Some (if 0 \<le> k \<and> k < int (length xs) then Inr (xs ! nat k) else Inl PANIC_LINKED_LIST)) \<and>
       (\<forall>k. ListGetDataAtIndex s k = (if nat k < length xs then Some (xs ! nat k) else None)) \<and>
       (\<exists>st. ListDestroy s = Some st)"
proof -
  obtain s where s: "kfold ListInsertEnd (empty_store, ListCreate) xs = Inr s" "ll_repr s xs"
    using ll.insert_all [OF ll_repr_empty, of xs] by (metis append_Nil)
  then obtain ps where rep: "ll_rep s ps xs" by (auto simp: ll_repr_def)
  show ?thesis
    by (intro exI [of _ s])
      (simp add: s ll.size_fn [OF s(2)] ll.get_index [OF s(2)] ll.get_data [OF s(2)]
        ListContains_rep [OF rep] ListGetDataAtIndex_rep [OF rep] ListDestroy_rep [OF rep])
qed

text \<open>C2.  Deleting by index removes exactly the element at that index and reports true, or
  changes nothing and reports false when the index is out of bounds; deleting by value removes
  the first equal element.  This holds for every list header that represents a list.\<close>

theorem linked_list_delete:
  assumes "ll_repr s xs"
  shows "(if 0 \<le> k \<and> k < int (length xs)
          then \<exists>s'. ListDeleteIndex s k = Some (s', True) \<and> ll_repr s' (remove_nth (nat k) xs)
          else ListDeleteIndex s k = Some (s, False)) \<and>
         (\<exists>s'. ListDeleteData s d = Some (s', d \<in> set xs) \<and> ll_repr s' (remove1 d xs))"
  using ll.delete_index [OF assms, of k] ll.delete_index_out [OF assms, of k]
    ll.delete_data [OF assms, of d]
  by (auto simp: ListDeleteData_def)

theorem linked_list_delete_witness:
  "\<exists>s s'. kfold ListInsertEnd (empty_store, ListCreate) [5, 6, 7 :: nat] = Inr s \<and>
          ListDeleteIndex s 1 = Some (s', True) \<and> ll_repr s' [5, 7]"
proof -
  obtain s where s: "kfold ListInsertEnd (empty_store, ListCreate) [5, 6, 7 :: nat] = Inr s"
    "ll_repr s [5, 6, 7]"
    using ll.insert_all [OF ll_repr_empty, of "[5, 6, 7 :: nat]"] by (metis append_Nil)
  from s(1) linked_list_delete [OF s(2), of 1] show ?thesis by (auto simp: remove_nth_def)
qed

text \<open>\<^verbatim>\<open>ListInsertStart\<close> links the new node to the old tail instead of the old head.
  After three insertions at the start the size is 3, but only the last and the first value
  inserted are still reachable, and \<^verbatim>\<open>ListDestroy\<close> then never returns.\<close>

lemma list_insert_start_drops_middle:
  "\<exists>s. kfold ListInsertStart (empty_store, ListCreate) [a, b, c] = Inr s \<and> ListSize s = 3 \<and>
       cells (fst s) (ll_head (snd s)) [2, 0] [c, a] \<and> ListDestroy s = None"
proof -
  define st where "st = \<lparr>ns_nodes = [0 \<mapsto> \<lparr>ln_data = a, ln_next = None\<rparr>,
    1 \<mapsto> \<lparr>ln_data = b, ln_next = Some 0\<rparr>, 2 \<mapsto> \<lparr>ln_data = c, ln_next = Some 0\<rparr>], ns_fresh = 3\<rparr>"
  define s where "s = (st, \<lparr>ll_size = 3, ll_head = Some 2, ll_tail = Some 0\<rparr>)"
  have "kfold ListInsertStart (empty_store, ListCreate) [a, b, c] = Inr s"
    by (simp add: ListInsertStart_def new_node_def empty_store_def ListCreate_def s_def st_def
        eval_nat_numeral)
  moreover have "ListDestroy s = None"
  proof -
    define s1 where "s1 = (free_node 2 st, \<lparr>ll_size = 2, ll_head = Some 0, ll_tail = Some 0\<rparr>)"
    define s2 where "s2 = (free_node 0 (free_node 2 st), \<lparr>ll_size = 1, ll_head = None, ll_tail = None\<rparr>)"
    have "ListDeleteIndex s 0 = Some (s1, True)" "ListDeleteIndex s1 0 = Some (s2, True)"
      by (simp_all add: s_def s1_def s2_def st_def ListDeleteIndex_def delete_loop.simps
          ProperDelete_def next_of_def)
    then have "ListDestroy s = ListDestroy s2"
      using ListDestroy_step [of s s1] ListDestroy_step [of s1 s2] by (simp add: s_def s1_def)
    also have "\<dots> = None" by (rule ListDestroy_stuck) (simp_all add: s2_def)
    finally show ?thesis .
  qed
  ultimately show ?thesis by (auto simp: s_def st_def ListSize_def cells_Cons)
qed

end
