(* ===== verification/AvlTree.thy ===== *)
theory AvlTree
  imports Prelude
begin

text \<open>
  The generic self-balancing tree of kernel/adt/tree.c.  The nodes of a tree are reached from
  one parent only, so a tree of nodes is a value of the datatype \<open>tree_node\<close> and the in-place
  pointer updates are functions on it.  The comparator is the function stored in the tree, with
  the C convention on the sign of its result.  Rotating a node without the child that rises
  would read through a null pointer; the rotations give the tree back unchanged there, and the
  balancing lemma shows the case is never reached.

  The lemmas show that insertion and deletion keep the tree balanced and its in-order sequence
  sorted, that no assertion fails, the contents after each operation, and the height bound.
\<close>

datatype 'a tree_node = TNull | TNode (tn_left: "'a tree_node") (tn_data: 'a) (tn_right: "'a tree_node")

record 'a tree =
  t_size :: int
  t_root :: "'a tree_node"
  t_comparator :: "'a \<Rightarrow> 'a \<Rightarrow> int"

fun AvlGetHeight :: "'a tree_node \<Rightarrow> int" where
  "AvlGetHeight TNull = 0"
| "AvlGetHeight (TNode l a r) = 1 + max (AvlGetHeight l) (AvlGetHeight r)"

fun AvlGetBalance :: "'a tree_node \<Rightarrow> int" where
  "AvlGetBalance TNull = 0"
| "AvlGetBalance (TNode l a r) = AvlGetHeight l - AvlGetHeight r"

fun AvlRotateLeft :: "'a tree_node \<Rightarrow> 'a tree_node" where
  "AvlRotateLeft (TNode l a (TNode rl b rr)) = TNode (TNode l a rl) b rr"
| "AvlRotateLeft t = t"

fun AvlRotateRight :: "'a tree_node \<Rightarrow> 'a tree_node" where
  "AvlRotateRight (TNode (TNode ll b lr) a r) = TNode ll b (TNode lr a r)"
| "AvlRotateRight t = t"

fun AvlBalance :: "'a tree_node \<Rightarrow> 'a tree_node kres" where
  "AvlBalance TNull = Inr TNull"
| "AvlBalance (TNode l a r) =
     (let bf = AvlGetBalance (TNode l a r)
      in kassert (bf \<ge> -2 \<and> bf \<le> 2)
        (if bf = -2
         then Inr (AvlRotateLeft (TNode l a (if AvlGetBalance r = 1 then AvlRotateRight r else r)))
         else if bf = 2
         then Inr (AvlRotateRight (TNode (if AvlGetBalance l = -1 then AvlRotateLeft l else l) a r))
         else Inr (TNode l a r)))"

fun AvlInsert :: "('a \<Rightarrow> 'a \<Rightarrow> int) \<Rightarrow> 'a tree_node \<Rightarrow> 'a \<Rightarrow> 'a tree_node kres" where
  "AvlInsert cmp TNull data = Inl PANIC_ASSERTION_FAILURE"
| "AvlInsert cmp (TNode l a r) data =
     (if cmp data a < 0
      then kbind (if l = TNull then Inr (TNode TNull data TNull) else AvlInsert cmp l data)
             (\<lambda>l. AvlBalance (TNode l a r))
      else kbind (if r = TNull then Inr (TNode TNull data TNull) else AvlInsert cmp r data)
             (\<lambda>r. AvlBalance (TNode l a r)))"

text \<open>The datum of the leftmost node, the end of the walk in \<^verbatim>\<open>AvlDelete\<close>.\<close>

fun leftmost :: "'a tree_node \<Rightarrow> 'a \<Rightarrow> 'a" where
  "leftmost TNull d = d"
| "leftmost (TNode l a r) d = leftmost l a"

fun AvlDelete :: "('a \<Rightarrow> 'a \<Rightarrow> int) \<Rightarrow> 'a tree_node \<Rightarrow> 'a \<Rightarrow> 'a tree_node kres" where
  "AvlDelete cmp TNull data = Inr TNull"
| "AvlDelete cmp (TNode l a r) data =
     (if cmp data a < 0 then kbind (AvlDelete cmp l data) (\<lambda>l. AvlBalance (TNode l a r))
      else if cmp data a > 0 then kbind (AvlDelete cmp r data) (\<lambda>r. AvlBalance (TNode l a r))
      else if l = TNull then AvlBalance r
      else if r = TNull then AvlBalance l
      else let d = leftmost r a
           in kbind (AvlDelete cmp r d) (\<lambda>r. AvlBalance (TNode l d r)))"

fun AvlGet :: "('a \<Rightarrow> 'a \<Rightarrow> int) \<Rightarrow> 'a tree_node \<Rightarrow> 'a \<Rightarrow> 'a option" where
  "AvlGet cmp TNull data = None"
| "AvlGet cmp (TNode l a r) data =
     (if cmp a data = 0 then Some a
      else case AvlGet cmp l data of Some x \<Rightarrow> Some x | None \<Rightarrow> AvlGet cmp r data)"

fun AvlContains :: "('a \<Rightarrow> 'a \<Rightarrow> int) \<Rightarrow> 'a tree_node \<Rightarrow> 'a \<Rightarrow> bool" where
  "AvlContains cmp TNull data = False"
| "AvlContains cmp (TNode l a r) data =
     (if cmp a data = 0 then True else AvlContains cmp l data \<or> AvlContains cmp r data)"

text \<open>The order in which \<^verbatim>\<open>AvlDestroy\<close> passes the data to the deletion handler.\<close>

fun AvlDestroy :: "'a tree_node \<Rightarrow> 'a list" where
  "AvlDestroy TNull = []"
| "AvlDestroy (TNode l a r) = AvlDestroy l @ AvlDestroy r @ [a]"

text \<open>The order in which \<^verbatim>\<open>AvlPrint\<close> passes the data to the printer.\<close>

fun AvlPrint :: "'a tree_node \<Rightarrow> 'a list" where
  "AvlPrint TNull = []"
| "AvlPrint (TNode l a r) = AvlPrint l @ a # AvlPrint r"

text \<open>Pointers are compared as addresses.\<close>

definition AvlDefaultComparator :: "nat \<Rightarrow> nat \<Rightarrow> int" where
  "AvlDefaultComparator a b = (if a = b then 0 else if a < b then -1 else 1)"

definition TreeCreate :: "nat tree" where
  "TreeCreate = \<lparr>t_size = 0, t_root = TNull, t_comparator = AvlDefaultComparator\<rparr>"

definition TreeSetComparator :: "'a tree \<Rightarrow> ('a \<Rightarrow> 'a \<Rightarrow> int) \<Rightarrow> 'a tree" where
  "TreeSetComparator tree handler = tree\<lparr>t_comparator := handler\<rparr>"

definition TreeInsert :: "'a tree \<Rightarrow> 'a \<Rightarrow> 'a tree kres" where
  "TreeInsert tree data =
     kbind (if t_root tree = TNull then Inr (TNode TNull data TNull)
            else AvlInsert (t_comparator tree) (t_root tree) data)
       (\<lambda>root. Inr (tree\<lparr>t_root := root, t_size := t_size tree + 1\<rparr>))"

definition TreeDelete :: "'a tree \<Rightarrow> 'a \<Rightarrow> 'a tree kres" where
  "TreeDelete tree data =
     kbind (AvlDelete (t_comparator tree) (t_root tree) data)
       (\<lambda>root. Inr (tree\<lparr>t_root := root, t_size := t_size tree - 1\<rparr>))"

definition TreeContains :: "'a tree \<Rightarrow> 'a \<Rightarrow> bool" where
  "TreeContains tree data = AvlContains (t_comparator tree) (t_root tree) data"

definition TreeGet :: "'a tree \<Rightarrow> 'a \<Rightarrow> 'a option" where
  "TreeGet tree data = AvlGet (t_comparator tree) (t_root tree) data"

definition TreeSize :: "'a tree \<Rightarrow> int" where
  "TreeSize tree = t_size tree"

definition TreeDestroy :: "'a tree \<Rightarrow> 'a list" where
  "TreeDestroy tree = AvlDestroy (t_root tree)"

text \<open>The specification: the in-order sequence is the one \<^verbatim>\<open>AvlPrint\<close> visits; a tree is
  balanced when every node's balance is between -1 and 1, and the in-order sequence is sorted
  by the comparator.  \<open>tree_ok\<close> adds that no two stored objects compare equal and that the
  recorded size is the number of objects.\<close>

fun balanced :: "'a tree_node \<Rightarrow> bool" where
  "balanced TNull \<longleftrightarrow> True"
| "balanced (TNode l a r) \<longleftrightarrow> \<bar>AvlGetHeight l - AvlGetHeight r\<bar> \<le> 1 \<and> balanced l \<and> balanced r"

definition cmp_sorted :: "('a \<Rightarrow> 'a \<Rightarrow> int) \<Rightarrow> 'a list \<Rightarrow> bool" where
  "cmp_sorted cmp xs \<longleftrightarrow> sorted_wrt (\<lambda>a b. cmp a b \<le> 0) xs"

definition cmp_strict :: "('a \<Rightarrow> 'a \<Rightarrow> int) \<Rightarrow> 'a list \<Rightarrow> bool" where
  "cmp_strict cmp xs \<longleftrightarrow> sorted_wrt (\<lambda>a b. cmp a b < 0) xs"


definition tree_ok :: "'a tree \<Rightarrow> bool" where
  "tree_ok tree \<longleftrightarrow> balanced (t_root tree) \<and> cmp_strict (t_comparator tree) (AvlPrint (t_root tree)) \<and>
     t_size tree = int (length (AvlPrint (t_root tree)))"

subsection \<open>Balancing\<close>

lemma AvlGetHeight_nonneg: "0 \<le> AvlGetHeight t"
  by (induction t) auto

lemma AvlGetHeight_zero: "AvlGetHeight t = 0 \<longleftrightarrow> t = TNull"
proof (cases t)
  case (TNode l a r)
  have "0 \<le> max (AvlGetHeight l) (AvlGetHeight r)" by (simp add: le_max_iff_disj AvlGetHeight_nonneg)
  then show ?thesis using TNode by simp
qed simp

lemma height_pos: "0 < AvlGetHeight t \<Longrightarrow> \<exists>l a r. t = TNode l a r"
  by (cases t) auto

lemma AvlPrint_rotate [simp]:
  "AvlPrint (AvlRotateLeft t) = AvlPrint t" "AvlPrint (AvlRotateRight t) = AvlPrint t"
  by (cases t rule: AvlRotateLeft.cases; simp) (cases t rule: AvlRotateRight.cases; simp)

lemma AvlBalance_print: "AvlBalance t = Inr t' \<Longrightarrow> AvlPrint t' = AvlPrint t"
  by (cases t) (auto simp: Let_def split: if_splits)

text \<open>Rebalancing a node whose subtrees are balanced and differ in height by at most two gives
  a balanced tree that is as high as the node, or one lower.\<close>

lemma AvlBalance_right_heavy:
  assumes "balanced l" "balanced r" "AvlGetHeight r = AvlGetHeight l + 2"
  shows "\<exists>t. AvlBalance (TNode l a r) = Inr t \<and> balanced t \<and>
     (AvlGetHeight t = AvlGetHeight r \<or> AvlGetHeight t = AvlGetHeight r + 1)"
proof -
  have "0 < AvlGetHeight r" using assms(3) AvlGetHeight_nonneg [of l] by linarith
  then obtain rl b rr where r: "r = TNode rl b rr" using height_pos by blast
  show ?thesis
  proof (cases "AvlGetBalance r = 1")
    case True
    then have "AvlGetHeight rl = AvlGetHeight rr + 1" using r by simp
    then have "0 < AvlGetHeight rl" using AvlGetHeight_nonneg [of rr] by linarith
    then obtain x c y where rl: "rl = TNode x c y" using height_pos by blast
    show ?thesis using assms True by (auto simp: r rl Let_def max_def split: if_splits)
  next
    case False
    then show ?thesis using assms by (auto simp: r Let_def max_def split: if_splits)
  qed
qed

lemma AvlBalance_left_heavy:
  assumes "balanced l" "balanced r" "AvlGetHeight l = AvlGetHeight r + 2"
  shows "\<exists>t. AvlBalance (TNode l a r) = Inr t \<and> balanced t \<and>
     (AvlGetHeight t = AvlGetHeight l \<or> AvlGetHeight t = AvlGetHeight l + 1)"
proof -
  have "0 < AvlGetHeight l" using assms(3) AvlGetHeight_nonneg [of r] by linarith
  then obtain ll b lr where l: "l = TNode ll b lr" using height_pos by blast
  show ?thesis
  proof (cases "AvlGetBalance l = -1")
    case True
    then have "AvlGetHeight lr = AvlGetHeight ll + 1" using l by simp
    then have "0 < AvlGetHeight lr" using AvlGetHeight_nonneg [of ll] by linarith
    then obtain x c y where lr: "lr = TNode x c y" using height_pos by blast
    show ?thesis using assms True by (auto simp: l lr Let_def max_def split: if_splits)
  next
    case False
    then show ?thesis using assms by (auto simp: l Let_def max_def split: if_splits)
  qed
qed

lemma AvlBalance_ok:
  assumes "balanced l" "balanced r" "\<bar>AvlGetHeight l - AvlGetHeight r\<bar> \<le> 2"
  shows "\<exists>t. AvlBalance (TNode l a r) = Inr t \<and> balanced t \<and> AvlPrint t = AvlPrint l @ a # AvlPrint r \<and>
     (if \<bar>AvlGetHeight l - AvlGetHeight r\<bar> \<le> 1
      then AvlGetHeight t = 1 + max (AvlGetHeight l) (AvlGetHeight r)
      else max (AvlGetHeight l) (AvlGetHeight r) \<le> AvlGetHeight t \<and>
           AvlGetHeight t \<le> 1 + max (AvlGetHeight l) (AvlGetHeight r))"
proof -
  consider "\<bar>AvlGetHeight l - AvlGetHeight r\<bar> \<le> 1" | "AvlGetHeight r = AvlGetHeight l + 2"
    | "AvlGetHeight l = AvlGetHeight r + 2" using assms(3) by linarith
  then show ?thesis
  proof cases
    case 1
    then show ?thesis using assms(1,2) by (auto simp: Let_def)
  next
    case 2
    from AvlBalance_right_heavy [OF assms(1,2) this, of a] 2 show ?thesis
      using AvlBalance_print [of "TNode l a r"] by (auto simp: max_def)
  next
    case 3
    from AvlBalance_left_heavy [OF assms(1,2) this, of a] 3 show ?thesis
      using AvlBalance_print [of "TNode l a r"] by (auto simp: max_def)
  qed
qed

declare AvlBalance.simps(2) [simp del]

subsection \<open>Comparators\<close>

text \<open>What the tree relies on from a comparator: the sign of its result is a total preorder.\<close>

locale tree_comparator =
  fixes cmp :: "'a \<Rightarrow> 'a \<Rightarrow> int"
  assumes cmp_flip: "cmp a b < 0 \<longleftrightarrow> cmp b a > 0"
    and cmp_trans: "cmp a b \<le> 0 \<Longrightarrow> cmp b c \<le> 0 \<Longrightarrow> cmp a c \<le> 0"
begin

lemma cmp_not_less: "\<not> cmp a b < 0 \<longleftrightarrow> cmp b a \<le> 0"
  unfolding cmp_flip [of a b] by linarith

lemma cmp_zero_sym: "cmp a b = 0 \<longleftrightarrow> cmp b a = 0"
proof -
  have "cmp x y = 0 \<Longrightarrow> cmp y x = 0" for x y
  proof -
    assume "cmp x y = 0"
    then have "\<not> cmp x y < 0" "\<not> 0 < cmp x y" by simp_all
    then have "cmp y x \<le> 0" "\<not> cmp y x < 0" unfolding cmp_not_less [of x y] cmp_flip [of y x] by simp_all
    then show ?thesis by simp
  qed
  then show ?thesis by blast
qed

lemma cmp_refl: "cmp a a = 0"
proof (rule ccontr)
  assume "cmp a a \<noteq> 0"
  then have "cmp a a < 0 \<or> cmp a a > 0" by linarith
  with cmp_flip [of a a] show False by linarith
qed

lemma cmp_le_less_trans:
  assumes "cmp a b \<le> 0" "cmp b c < 0"
  shows "cmp a c < 0"
proof (rule ccontr)
  assume "\<not> cmp a c < 0"
  moreover have "cmp a c \<le> 0" using assms by (intro cmp_trans [of a b c]) auto
  ultimately have "cmp c a = 0" by (simp add: cmp_zero_sym [of c a])
  then have "cmp c b \<le> 0" using assms(1) by (intro cmp_trans [of c a b]) auto
  then show False using assms(2) unfolding cmp_flip [of b c] by simp
qed

lemma cmp_less_le_trans:
  assumes "cmp a b < 0" "cmp b c \<le> 0"
  shows "cmp a c < 0"
proof (rule ccontr)
  assume "\<not> cmp a c < 0"
  moreover have "cmp a c \<le> 0" using assms by (intro cmp_trans [of a b c]) auto
  ultimately have "cmp c a = 0" by (simp add: cmp_zero_sym [of c a])
  then have "cmp b a \<le> 0" using assms(2) by (intro cmp_trans [of b c a]) auto
  then show False using assms(1) unfolding cmp_flip [of a b] by simp
qed

subsection \<open>Insertion\<close>

lemma AvlInsert_balanced:
  assumes "t \<noteq> TNull" "balanced t"
  shows "\<exists>t'. AvlInsert cmp t d = Inr t' \<and> balanced t' \<and>
     (AvlGetHeight t' = AvlGetHeight t \<or> AvlGetHeight t' = AvlGetHeight t + 1)"
  using assms
proof (induction t)
  case (TNode l a r)
  have single: "balanced (TNode TNull d TNull)" "AvlGetHeight (TNode TNull d TNull) = 1" by simp_all
  show ?case
  proof (cases "cmp d a < 0")
    case True
    obtain l' where l': "(if l = TNull then Inr (TNode TNull d TNull) else AvlInsert cmp l d) = Inr l'"
      "balanced l'" "AvlGetHeight l' = AvlGetHeight l \<or> AvlGetHeight l' = AvlGetHeight l + 1"
      using TNode by (cases "l = TNull") auto
    have "\<bar>AvlGetHeight l' - AvlGetHeight r\<bar> \<le> 2" using l'(3) TNode.prems by auto
    from AvlBalance_ok [OF l'(2) _ this, of a] TNode.prems l' True
      AvlGetHeight_nonneg [of r] show ?thesis
      by (auto simp: max_def split: if_splits)
  next
    case False
    obtain r' where r': "(if r = TNull then Inr (TNode TNull d TNull) else AvlInsert cmp r d) = Inr r'"
      "balanced r'" "AvlGetHeight r' = AvlGetHeight r \<or> AvlGetHeight r' = AvlGetHeight r + 1"
      using TNode by (cases "r = TNull") auto
    have "\<bar>AvlGetHeight l - AvlGetHeight r'\<bar> \<le> 2" using r'(3) TNode.prems by auto
    from AvlBalance_ok [OF _ r'(2) this, of a] TNode.prems r' False
      AvlGetHeight_nonneg [of l] show ?thesis
      by (auto simp: max_def split: if_splits)
  qed
qed simp

text \<open>The new object is placed after everything that compares less or equal and before
  everything greater.\<close>

lemma AvlInsert_splice:
  "AvlInsert cmp t d = Inr t' \<Longrightarrow> cmp_sorted cmp (AvlPrint t) \<Longrightarrow>
   \<exists>xs ys. AvlPrint t = xs @ ys \<and> AvlPrint t' = xs @ d # ys \<and>
     (\<forall>x\<in>set xs. cmp x d \<le> 0) \<and> (\<forall>y\<in>set ys. cmp d y < 0)"
proof (induction t arbitrary: t')
  case (TNode l a r)
  show ?case
  proof (cases "cmp d a < 0")
    case True
    with TNode.prems(1) obtain l' where
      l': "(if l = TNull then Inr (TNode TNull d TNull) else AvlInsert cmp l d) = Inr l'"
      and bal: "AvlBalance (TNode l' a r) = Inr t'"
      by auto
    have "\<exists>xs ys. AvlPrint l = xs @ ys \<and> AvlPrint l' = xs @ d # ys \<and>
       (\<forall>x\<in>set xs. cmp x d \<le> 0) \<and> (\<forall>y\<in>set ys. cmp d y < 0)"
      using l' TNode by (cases "l = TNull") (auto simp: cmp_sorted_def sorted_wrt_append)
    then obtain xs ys where "AvlPrint l = xs @ ys" "AvlPrint l' = xs @ d # ys"
      "\<forall>x\<in>set xs. cmp x d \<le> 0" "\<forall>y\<in>set ys. cmp d y < 0" by blast
    then show ?thesis
      using AvlBalance_print [OF bal] TNode.prems(2) True
      by (intro exI [of _ xs] exI [of _ "ys @ a # AvlPrint r"])
        (auto simp: cmp_sorted_def sorted_wrt_append intro: cmp_less_le_trans)
  next
    case False
    with TNode.prems(1) obtain r' where
      r': "(if r = TNull then Inr (TNode TNull d TNull) else AvlInsert cmp r d) = Inr r'"
      and bal: "AvlBalance (TNode l a r') = Inr t'"
      by auto
    have le: "cmp a d \<le> 0" using False by (simp add: cmp_not_less)
    have "\<exists>xs ys. AvlPrint r = xs @ ys \<and> AvlPrint r' = xs @ d # ys \<and>
       (\<forall>x\<in>set xs. cmp x d \<le> 0) \<and> (\<forall>y\<in>set ys. cmp d y < 0)"
      using r' TNode by (cases "r = TNull") (auto simp: cmp_sorted_def sorted_wrt_append)
    then obtain xs ys where "AvlPrint r = xs @ ys" "AvlPrint r' = xs @ d # ys"
      "\<forall>x\<in>set xs. cmp x d \<le> 0" "\<forall>y\<in>set ys. cmp d y < 0" by blast
    then show ?thesis
      using AvlBalance_print [OF bal] TNode.prems(2) le
      by (intro exI [of _ "AvlPrint l @ a # xs"] exI [of _ ys])
        (auto simp: cmp_sorted_def sorted_wrt_append intro: cmp_trans)
  qed
qed simp

lemma splice_sorted:
  assumes "cmp_sorted cmp (xs @ ys)" "\<forall>x\<in>set xs. cmp x d \<le> 0" "\<forall>y\<in>set ys. cmp d y < 0"
  shows "cmp_sorted cmp (xs @ d # ys)"
  using assms by (auto simp: cmp_sorted_def sorted_wrt_append)

lemma splice_strict:
  assumes "cmp_strict cmp (xs @ ys)" "\<forall>x\<in>set xs. cmp x d \<le> 0" "\<forall>y\<in>set ys. cmp d y < 0"
    and "\<forall>x\<in>set xs. cmp x d \<noteq> 0"
  shows "cmp_strict cmp (xs @ d # ys)"
  using assms by (auto simp: cmp_strict_def sorted_wrt_append order_less_le)

lemma strict_imp_sorted: "cmp_strict cmp xs \<Longrightarrow> cmp_sorted cmp xs"
  unfolding cmp_strict_def cmp_sorted_def by (erule sorted_wrt_mono_rel [rotated]) simp

subsection \<open>Deletion\<close>

lemma AvlBalance_id: "balanced t \<Longrightarrow> AvlBalance t = Inr t"
  by (cases t) (auto simp: Let_def AvlBalance.simps(2))

lemma AvlDelete_balanced:
  "balanced t \<Longrightarrow> \<exists>t'. AvlDelete cmp t d = Inr t' \<and> balanced t' \<and>
     (AvlGetHeight t' = AvlGetHeight t \<or> AvlGetHeight t' = AvlGetHeight t - 1)"
proof (induction t arbitrary: d)
  case (TNode l a r)
  have bal: "balanced l" "balanced r" "\<bar>AvlGetHeight l - AvlGetHeight r\<bar> \<le> 1"
    using TNode.prems by auto
  have right: "\<exists>t'. kbind (AvlDelete cmp r e) (\<lambda>r. AvlBalance (TNode l b r)) = Inr t' \<and> balanced t' \<and>
     (AvlGetHeight t' = AvlGetHeight (TNode l a r) \<or> AvlGetHeight t' = AvlGetHeight (TNode l a r) - 1)" for b e
  proof -
    obtain r' where r': "AvlDelete cmp r e = Inr r'" "balanced r'"
      "AvlGetHeight r' = AvlGetHeight r \<or> AvlGetHeight r' = AvlGetHeight r - 1"
      using TNode.IH(2) bal(2) by blast
    have "\<bar>AvlGetHeight l - AvlGetHeight r'\<bar> \<le> 2" using r'(3) bal(3) by auto
    from AvlBalance_ok [OF bal(1) r'(2) this, of b] r' bal(3) show ?thesis
      by (auto simp: max_def split: if_splits)
  qed
  have left: "\<exists>t'. kbind (AvlDelete cmp l d) (\<lambda>l. AvlBalance (TNode l a r)) = Inr t' \<and> balanced t' \<and>
     (AvlGetHeight t' = AvlGetHeight (TNode l a r) \<or> AvlGetHeight t' = AvlGetHeight (TNode l a r) - 1)"
  proof -
    obtain l' where l': "AvlDelete cmp l d = Inr l'" "balanced l'"
      "AvlGetHeight l' = AvlGetHeight l \<or> AvlGetHeight l' = AvlGetHeight l - 1"
      using TNode.IH(1) bal(1) by blast
    have "\<bar>AvlGetHeight l' - AvlGetHeight r\<bar> \<le> 2" using l'(3) bal(3) by auto
    from AvlBalance_ok [OF l'(2) bal(2) this, of a] l' bal(3) show ?thesis
      by (auto simp: max_def split: if_splits)
  qed
  show ?case
    using left right [of d a] right [of "leftmost r a" "leftmost r a"] bal
    by (simp add: AvlBalance_id Let_def AvlGetHeight_nonneg)
qed simp

lemma leftmost_print: "t \<noteq> TNull \<Longrightarrow> \<exists>xs. AvlPrint t = leftmost t b # xs"
proof (induction t arbitrary: b)
  case (TNode l a r)
  show ?case
  proof (cases "l = TNull")
    case False
    from TNode.IH(1) [OF this] obtain xs where "AvlPrint l = leftmost l a # xs" ..
    then show ?thesis by simp
  qed simp
qed simp

lemma AvlDelete_print:
  "AvlDelete cmp t d = Inr t' \<Longrightarrow> cmp_strict cmp (AvlPrint t) \<Longrightarrow>
   AvlPrint t' = filter (\<lambda>y. cmp d y \<noteq> 0) (AvlPrint t)"
proof (induction t arbitrary: d t')
  case (TNode l a r)
  have str: "cmp_strict cmp (AvlPrint l)" "cmp_strict cmp (AvlPrint r)"
    "\<And>x. x \<in> set (AvlPrint l) \<Longrightarrow> cmp x a < 0" "\<And>y. y \<in> set (AvlPrint r) \<Longrightarrow> cmp a y < 0"
    using TNode.prems(2) by (auto simp: cmp_strict_def sorted_wrt_append)
  have keep_l: "filter (\<lambda>y. cmp d y \<noteq> 0) (AvlPrint l) = AvlPrint l" if "cmp d a \<ge> 0"
  proof (rule filter_True, rule ballI)
    fix y assume "y \<in> set (AvlPrint l)"
    then have "cmp y a < 0" by (rule str(3))
    moreover have "cmp a d \<le> 0" using that by (simp add: cmp_not_less [symmetric])
    ultimately have "cmp y d < 0" by (rule cmp_less_le_trans)
    then show "cmp d y \<noteq> 0" using cmp_zero_sym [of d y] by auto
  qed
  have keep_r: "filter (\<lambda>y. cmp d y \<noteq> 0) (AvlPrint r) = AvlPrint r" if "cmp d a \<le> 0"
  proof (rule filter_True, rule ballI)
    fix y assume "y \<in> set (AvlPrint r)"
    then have "cmp d y < 0" using cmp_le_less_trans that str(4) by blast
    then show "cmp d y \<noteq> 0" by simp
  qed
  consider "cmp d a < 0" | "cmp d a > 0" | "cmp d a = 0" "l = TNull" | "cmp d a = 0" "l \<noteq> TNull" "r = TNull"
    | "cmp d a = 0" "l \<noteq> TNull" "r \<noteq> TNull"
    using less_linear [of "cmp d a" 0] by blast
  then show ?case
  proof cases
    case 1
    then show ?thesis using TNode.prems(1) TNode.IH(1) str(1) keep_r
      by (auto dest!: AvlBalance_print)
  next
    case 2
    then show ?thesis using TNode.prems(1) TNode.IH(2) str(2) keep_l
      by (auto dest!: AvlBalance_print)
  next
    case 3
    then show ?thesis using TNode.prems(1) keep_r by (auto dest!: AvlBalance_print)
  next
    case 4
    then show ?thesis using TNode.prems(1) keep_l by (auto dest!: AvlBalance_print)
  next
    case 5
    from leftmost_print [OF 5(3), of a] obtain xs where xs: "AvlPrint r = leftmost r a # xs" ..
    have "filter (\<lambda>y. cmp (leftmost r a) y \<noteq> 0) (AvlPrint r) = xs"
    proof -
      have "\<forall>y\<in>set xs. cmp (leftmost r a) y \<noteq> 0" using str(2) by (auto simp: xs cmp_strict_def)
      then show ?thesis by (simp add: xs cmp_refl)
    qed
    moreover obtain r' where r': "AvlDelete cmp r (leftmost r a) = Inr r'"
      "AvlBalance (TNode l (leftmost r a) r') = Inr t'"
      using 5 TNode.prems(1) by (auto simp: Let_def)
    ultimately have "AvlPrint t' = AvlPrint l @ AvlPrint r"
      using TNode.IH(2) [OF r'(1) str(2)] AvlBalance_print [OF r'(2)] xs by simp
    then show ?thesis using 5 keep_l keep_r by simp
  qed
qed simp

subsection \<open>Lookup\<close>

lemma AvlContains_iff: "AvlContains cmp t d \<longleftrightarrow> (\<exists>y\<in>set (AvlPrint t). cmp y d = 0)"
  by (induction t) auto

lemma AvlGet_Some: "AvlGet cmp t d = Some x \<Longrightarrow> x \<in> set (AvlPrint t) \<and> cmp x d = 0"
  by (induction t) (auto split: if_splits option.splits)

lemma AvlGet_None: "AvlGet cmp t d = None \<longleftrightarrow> (\<forall>y\<in>set (AvlPrint t). cmp y d \<noteq> 0)"
  by (induction t) (auto split: option.splits)

end


interpretation def_cmp: tree_comparator AvlDefaultComparator
  by unfold_locales (auto simp: AvlDefaultComparator_def split: if_splits)


lemma tree_ok_Create: "tree_ok TreeCreate"
  by (simp add: tree_ok_def TreeCreate_def cmp_strict_def)

lemma TreeInsert_ok:
  assumes cmp: "tree_comparator (t_comparator tree)" and ok: "tree_ok tree"
    and new: "\<not> TreeContains tree d"
  shows "\<exists>tree'. TreeInsert tree d = Inr tree' \<and> tree_ok tree' \<and>
     t_comparator tree' = t_comparator tree \<and>
     mset (AvlPrint (t_root tree')) = add_mset d (mset (AvlPrint (t_root tree)))"
proof (cases "t_root tree = TNull")
  case True
  then show ?thesis using ok by (auto simp: TreeInsert_def tree_ok_def cmp_strict_def)
next
  case False
  let ?c = "t_comparator tree"
  have str: "cmp_strict ?c (AvlPrint (t_root tree))" using ok by (simp add: tree_ok_def)
  obtain t' where t': "AvlInsert ?c (t_root tree) d = Inr t'" "balanced t'"
    using tree_comparator.AvlInsert_balanced [OF cmp False, of d] ok by (auto simp: tree_ok_def)
  obtain xs ys where sp: "AvlPrint (t_root tree) = xs @ ys" "AvlPrint t' = xs @ d # ys"
    "\<forall>x\<in>set xs. ?c x d \<le> 0" "\<forall>y\<in>set ys. ?c d y < 0"
    using tree_comparator.AvlInsert_splice [OF cmp t'(1)]
      tree_comparator.strict_imp_sorted [OF cmp str] by blast
  have "\<forall>x\<in>set xs. ?c x d \<noteq> 0"
    using new sp(1) tree_comparator.AvlContains_iff [OF cmp] by (auto simp: TreeContains_def)
  then have "cmp_strict ?c (AvlPrint t')"
    using tree_comparator.splice_strict [OF cmp] str sp by simp
  then show ?thesis using ok t' sp False by (auto simp: TreeInsert_def tree_ok_def)
qed

lemma TreeGet_ok:
  assumes cmp: "tree_comparator (t_comparator tree)" and ok: "tree_ok tree"
  shows "(case TreeGet tree d of
            None \<Rightarrow> \<not> TreeContains tree d
          | Some x \<Rightarrow> TreeContains tree d \<and>
              {y \<in> set (AvlPrint (t_root tree)). t_comparator tree y d = 0} = {x})"
proof (cases "TreeGet tree d")
  case None
  then have "\<not> TreeContains tree d"
    using tree_comparator.AvlGet_None [OF cmp] tree_comparator.AvlContains_iff [OF cmp]
    by (auto simp: TreeGet_def TreeContains_def)
  then show ?thesis by (simp add: None)
next
  case (Some x)
  let ?c = "t_comparator tree"
  have x: "x \<in> set (AvlPrint (t_root tree))" "?c x d = 0"
    using Some tree_comparator.AvlGet_Some [OF cmp] by (auto simp: TreeGet_def)
  have "y = x" if y: "y \<in> set (AvlPrint (t_root tree))" "?c y d = 0" for y
  proof (rule ccontr)
    assume "y \<noteq> x"
    have "?c d x = 0" "?c d y = 0" using x y tree_comparator.cmp_zero_sym [OF cmp] by auto
    then have le: "?c x y \<le> 0" "?c y x \<le> 0"
      using tree_comparator.cmp_trans [OF cmp, of x d y] tree_comparator.cmp_trans [OF cmp, of y d x] x y
      by auto
    obtain i j where ij: "i < length (AvlPrint (t_root tree))" "AvlPrint (t_root tree) ! i = x"
      "j < length (AvlPrint (t_root tree))" "AvlPrint (t_root tree) ! j = y"
      using x(1) y(1) by (auto simp: in_set_conv_nth)
    have "?c x y < 0 \<or> ?c y x < 0"
      using ok ij \<open>y \<noteq> x\<close> by (cases i j rule: linorder_cases)
        (auto simp: tree_ok_def cmp_strict_def sorted_wrt_iff_nth_less)
    with le tree_comparator.cmp_flip [OF cmp, of x y] tree_comparator.cmp_flip [OF cmp, of y x]
    show False by linarith
  qed
  then have "{y \<in> set (AvlPrint (t_root tree)). ?c y d = 0} = {x}" using x by blast
  then show ?thesis using Some x tree_comparator.AvlContains_iff [OF cmp] by (auto simp: TreeContains_def)
qed

lemma TreeDelete_ok:
  assumes cmp: "tree_comparator (t_comparator tree)" and ok: "tree_ok tree"
  shows "\<exists>tree'. TreeDelete tree d = Inr tree' \<and> balanced (t_root tree') \<and>
     AvlPrint (t_root tree') = filter (\<lambda>y. t_comparator tree d y \<noteq> 0) (AvlPrint (t_root tree)) \<and>
     TreeSize tree' = TreeSize tree - 1 \<and> tree_ok tree' = TreeContains tree d"
proof -
  let ?c = "t_comparator tree"
  have bal: "balanced (t_root tree)" and str: "cmp_strict ?c (AvlPrint (t_root tree))"
    using ok by (auto simp: tree_ok_def)
  obtain t' where t': "AvlDelete ?c (t_root tree) d = Inr t'" "balanced t'"
    using tree_comparator.AvlDelete_balanced [OF cmp bal] by blast
  have pr: "AvlPrint t' = filter (\<lambda>y. ?c d y \<noteq> 0) (AvlPrint (t_root tree))"
    using tree_comparator.AvlDelete_print [OF cmp t'(1) str] .
  have strict': "cmp_strict ?c (AvlPrint t')"
    using str unfolding pr cmp_strict_def by (rule sorted_wrt_filter)
  have "TreeContains tree d \<longleftrightarrow> length (AvlPrint (t_root tree)) = length (AvlPrint t') + 1"
  proof (cases "TreeContains tree d")
    case True
    then obtain y where y: "y \<in> set (AvlPrint (t_root tree))" "?c y d = 0"
      using tree_comparator.AvlContains_iff [OF cmp] by (auto simp: TreeContains_def)
    then obtain xs ys where sp: "AvlPrint (t_root tree) = xs @ y # ys" by (meson split_list)
    have z: "?c d y = 0" using y(2) tree_comparator.cmp_zero_sym [OF cmp] by blast
    have "?c d x \<noteq> 0" if "x \<in> set xs" for x
    proof
      assume "?c d x = 0"
      then have "?c y x \<le> 0" using tree_comparator.cmp_trans [OF cmp, of y d x] y(2) by simp
      moreover have "?c x y < 0" using str that by (auto simp: sp cmp_strict_def sorted_wrt_append)
      ultimately show False using tree_comparator.cmp_flip [OF cmp, of x y] by simp
    qed
    moreover have "?c d x \<noteq> 0" if "x \<in> set ys" for x
    proof -
      have "?c y x < 0" using str that by (auto simp: sp cmp_strict_def sorted_wrt_append)
      then show ?thesis using tree_comparator.cmp_le_less_trans [OF cmp, of d y x] z by simp
    qed
    ultimately have "AvlPrint t' = xs @ ys" using z by (simp add: pr sp)
    then show ?thesis using True sp by simp
  next
    case False
    then have "AvlPrint t' = AvlPrint (t_root tree)"
      using tree_comparator.AvlContains_iff [OF cmp] tree_comparator.cmp_zero_sym [OF cmp, of d]
      unfolding pr TreeContains_def by (auto intro!: filter_True)
    then show ?thesis using False by simp
  qed
  then show ?thesis using ok t' pr strict'
    by (auto simp: TreeDelete_def TreeSize_def tree_ok_def)
qed

text \<open>A comparator is only asked about the objects of the tree and the argument.\<close>

lemma AvlInsert_cong:
  "(\<And>x. x \<in> set (AvlPrint t) \<Longrightarrow> c d x = c' d x) \<Longrightarrow> AvlInsert c t d = AvlInsert c' t d"
  by (induction t) auto

lemma leftmost_in: "leftmost t b \<in> insert b (set (AvlPrint t))" "leftmost (TNode l a r) b \<in> set (AvlPrint (TNode l a r))"
proof -
  have in_t: "leftmost t b \<in> insert b (set (AvlPrint t))" for t b
    by (induction t b rule: leftmost.induct) auto
  then show "leftmost t b \<in> insert b (set (AvlPrint t))" .
  show "leftmost (TNode l a r) b \<in> set (AvlPrint (TNode l a r))" using in_t [of l a] by auto
qed

lemma AvlDelete_cong:
  "(\<And>x y. x \<in> insert d (set (AvlPrint t)) \<Longrightarrow> y \<in> set (AvlPrint t) \<Longrightarrow> c x y = c' x y) \<Longrightarrow>
   AvlDelete c t d = AvlDelete c' t d"
proof (induction t arbitrary: d)
  case (TNode l a r)
  have l: "AvlDelete c l d = AvlDelete c' l d" using TNode.prems by (intro TNode.IH(1)) auto
  have r: "AvlDelete c r x = AvlDelete c' r x" if "x = d \<or> x \<in> set (AvlPrint r)" for x
    using TNode.prems that by (intro TNode.IH(2)) auto
  have "AvlDelete c r (leftmost r a) = AvlDelete c' r (leftmost r a)" if ne: "r \<noteq> TNull"
  proof -
    obtain rl b rr where "r = TNode rl b rr" using ne by (cases r) auto
    then show ?thesis using leftmost_in(2) [of rl b rr a] by (intro r) simp
  qed
  moreover have "c d a = c' d a" by (rule TNode.prems) auto
  ultimately show ?case using l r [of d] by (simp add: Let_def)
qed simp

lemma AvlGet_iff:
  "AvlGet c t d = Some x \<Longrightarrow> x \<in> set (AvlPrint t) \<and> c x d = 0"
  "AvlGet c t d = None \<longleftrightarrow> (\<forall>y\<in>set (AvlPrint t). c y d \<noteq> 0)"
  by (induction t) (auto split: if_splits option.splits)

lemma AvlContains_ex: "AvlContains c t d \<longleftrightarrow> (\<exists>y\<in>set (AvlPrint t). c y d = 0)"
  by (induction t) auto

subsection \<open>Properties\<close>

text \<open>C6.  Inserting an object that compares equal to none in a well-formed tree succeeds: no
  assertion fails, the tree stays balanced and strictly sorted, exactly the new object is added
  and the recorded size stays the number of objects.\<close>

theorem TreeInsert_correct:
  assumes cmp: "tree_comparator (t_comparator tree)" and ok: "tree_ok tree"
    and new: "\<not> TreeContains tree d"
  shows "\<exists>tree'. TreeInsert tree d = Inr tree' \<and> tree_ok tree' \<and>
     t_comparator tree' = t_comparator tree \<and>
     mset (AvlPrint (t_root tree')) = add_mset d (mset (AvlPrint (t_root tree)))"
  by (rule TreeInsert_ok [OF assms])

theorem TreeInsert_correct_witness:
  "\<exists>tree'. TreeInsert TreeCreate 5 = Inr tree' \<and> tree_ok tree' \<and> mset (AvlPrint (t_root tree')) = {#5#}"
  using TreeInsert_correct [of TreeCreate 5] def_cmp.tree_comparator_axioms tree_ok_Create
  by (auto simp: TreeCreate_def TreeContains_def)

text \<open>C7.  Deleting an object that is in a well-formed tree removes exactly it and keeps the
  tree balanced, sorted and its size right; deleting one that is not there leaves the contents
  but still decrements the recorded size, so the tree is no longer well formed.\<close>

theorem TreeDelete_correct:
  assumes cmp: "tree_comparator (t_comparator tree)" and ok: "tree_ok tree"
  shows "\<exists>tree'. TreeDelete tree d = Inr tree' \<and> balanced (t_root tree') \<and>
     AvlPrint (t_root tree') = filter (\<lambda>y. t_comparator tree d y \<noteq> 0) (AvlPrint (t_root tree)) \<and>
     TreeSize tree' = TreeSize tree - 1 \<and> tree_ok tree' = TreeContains tree d"
  by (rule TreeDelete_ok [OF assms])

theorem TreeDelete_correct_witness:
  "\<exists>tree'. TreeDelete TreeCreate 5 = Inr tree' \<and> TreeSize tree' = -1 \<and> \<not> tree_ok tree'"
  using TreeDelete_correct [of TreeCreate 5] def_cmp.tree_comparator_axioms tree_ok_Create
  by (auto simp: TreeCreate_def TreeContains_def TreeSize_def)

text \<open>A lookup finds a stored object that compares equal to the argument whenever there is
  one, and otherwise finds nothing; in a well-formed tree that object is unique.\<close>

lemma TreeGet_correct:
  assumes cmp: "tree_comparator (t_comparator tree)" and ok: "tree_ok tree"
  shows "(case TreeGet tree d of
            None \<Rightarrow> \<not> TreeContains tree d
          | Some x \<Rightarrow> TreeContains tree d \<and>
              {y \<in> set (AvlPrint (t_root tree)). t_comparator tree y d = 0} = {x})"
  using TreeGet_ok [OF cmp ok] .

lemma TreeGet_correct_witness: "TreeGet TreeCreate 3 = None \<and> \<not> TreeContains TreeCreate 3"
  using TreeGet_correct [of TreeCreate 3] def_cmp.tree_comparator_axioms tree_ok_Create
  by (auto simp: TreeCreate_def TreeGet_def)



definition key_comparator :: "nat \<times> nat \<Rightarrow> nat \<times> nat \<Rightarrow> int" where
  "key_comparator a b = AvlDefaultComparator (fst a) (fst b)"

text \<open>When several stored objects compare equal, a deletion replaces the root's object by
  its successor and then deletes the first equal object on the way down, which need not be that
  successor: here a tree built by seven insertions loses two objects and holds one twice.\<close>

lemma AvlDelete_duplicates:
  "\<exists>t t'. kfold TreeInsert \<lparr>t_size = 0, t_root = TNull, t_comparator = key_comparator\<rparr>
            (map (Pair 0) [1, 2, 3, 4, 5, 6, 7]) = Inr t \<and>
          TreeDelete t (0, 4) = Inr t' \<and>
          AvlPrint (t_root t) = map (Pair 0) [1, 2, 3, 4, 5, 6, 7] \<and>
          AvlPrint (t_root t') = map (Pair 0) [1, 2, 3, 5, 5, 7]"
  by (simp add: TreeInsert_def TreeDelete_def key_comparator_def AvlDefaultComparator_def Let_def
      AvlBalance.simps(2))

end
