(* ===== verification/Hashmap.thy ===== *)
theory Hashmap
  imports Prelude
begin

text \<open>
  The string-keyed hash map of kernel/adt/hashmap.c: an array of buckets, each null until its
  first insertion and then a list of key/value nodes (the list of theory LinkedList, here as the
  HOL list it represents).  The hash keeps its 32-bit wrap-around, with the characters sign
  extended as on x86.  The map refines a HOL map from keys to values.
\<close>

record 'v hashmap =
  hm_buckets :: "(cstring \<times> 'v) list option list"
  hm_num_buckets :: nat

definition HashFunction :: "cstring \<Rightarrow> u32" where
  "HashFunction str = fold (\<lambda>c hash. 31 * hash + scast c) str 0"

definition HashmapCreate :: "nat \<Rightarrow> 'v hashmap" where
  "HashmapCreate buckets = \<lparr>hm_buckets = replicate buckets None, hm_num_buckets = buckets\<rparr>"

definition bucket_index :: "'v hashmap \<Rightarrow> cstring \<Rightarrow> nat" where
  "bucket_index m key = unat (HashFunction key) mod hm_num_buckets m"

fun find_node :: "(cstring \<times> 'v) list \<Rightarrow> cstring \<Rightarrow> 'v option" where
  "find_node [] key = None"
| "find_node ((k, v) # ns) key = (if k = key then Some v else find_node ns key)"

text \<open>The value in the node that \<^verbatim>\<open>GetInternalNode\<close> finds.\<close>

definition GetInternalNode :: "'v hashmap \<Rightarrow> cstring \<Rightarrow> 'v option" where
  "GetInternalNode m key =
     (case hm_buckets m ! bucket_index m key of None \<Rightarrow> None | Some ns \<Rightarrow> find_node ns key)"

definition HashmapContains :: "'v hashmap \<Rightarrow> cstring \<Rightarrow> bool" where
  "HashmapContains m key \<longleftrightarrow> GetInternalNode m key \<noteq> None"

definition HashmapGet :: "'v hashmap \<Rightarrow> cstring \<Rightarrow> 'v option" where
  "HashmapGet m key = GetInternalNode m key"

text \<open>Assigning through the node found: the first node with the key.\<close>

fun set_node :: "(cstring \<times> 'v) list \<Rightarrow> cstring \<Rightarrow> 'v \<Rightarrow> (cstring \<times> 'v) list" where
  "set_node [] key v = []"
| "set_node ((k, w) # ns) key v = (if k = key then (k, v) # ns else (k, w) # set_node ns key v)"

definition HashmapSet :: "'v hashmap \<Rightarrow> cstring \<Rightarrow> 'v \<Rightarrow> 'v hashmap" where
  "HashmapSet m key v =
     (let i = bucket_index m key;
          ns = (case hm_buckets m ! i of None \<Rightarrow> [] | Some ns \<Rightarrow> ns)
      in case GetInternalNode m key of
           None \<Rightarrow> m\<lparr>hm_buckets := (hm_buckets m)[i := Some (ns @ [(key, v)])]\<rparr>
         | Some _ \<Rightarrow> m\<lparr>hm_buckets := (hm_buckets m)[i := Some (set_node ns key v)]\<rparr>)"

definition hashmap_ok :: "'v hashmap \<Rightarrow> bool" where
  "hashmap_ok m \<longleftrightarrow> 0 < hm_num_buckets m \<and> length (hm_buckets m) = hm_num_buckets m"

subsection \<open>Nodes of one bucket\<close>

lemma find_node_append:
  "find_node (ns @ [(key, v)]) k =
     (case find_node ns k of Some w \<Rightarrow> Some w | None \<Rightarrow> if k = key then Some v else None)"
  by (induction ns k rule: find_node.induct) auto

lemma find_node_set:
  "find_node ns key \<noteq> None \<Longrightarrow> find_node (set_node ns key v) k = (if k = key then Some v else find_node ns k)"
  by (induction ns) auto

subsection \<open>The map interface\<close>

locale string_map =
  fixes inv :: "'m \<Rightarrow> bool"
    and lookup :: "'m \<Rightarrow> cstring \<Rightarrow> 'v option"
    and update :: "'m \<Rightarrow> cstring \<Rightarrow> 'v \<Rightarrow> 'm"
  assumes lookup_update: "inv m \<Longrightarrow> lookup (update m k v) = (lookup m)(k \<mapsto> v)"
    and inv_update: "inv m \<Longrightarrow> inv (update m k v)"
begin

lemma fold_update:
  "inv m \<Longrightarrow> inv (fold (\<lambda>(k, v) m. update m k v) kvs m) \<and>
   lookup (fold (\<lambda>(k, v) m. update m k v) kvs m) = lookup m ++ map_of (rev kvs)"
proof (induction kvs arbitrary: m)
  case (Cons kv kvs)
  obtain k v where kv: "kv = (k, v)" by (cases kv)
  from Cons.IH [OF inv_update [OF Cons.prems, of k v]] show ?case
    using Cons.prems by (simp add: kv lookup_update map_add_def fun_eq_iff split: option.split)
qed simp

lemma update_other_commute:
  "inv m \<Longrightarrow> k \<noteq> k' \<Longrightarrow> lookup (update (update m k v) k' v') = lookup (update (update m k' v') k v)"
  by (simp add: lookup_update inv_update fun_upd_twist)

end

lemma bucket_index_less [simp]: "hashmap_ok m \<Longrightarrow> bucket_index m key < length (hm_buckets m)"
  by (simp add: hashmap_ok_def bucket_index_def)

lemma bucket_index_buckets [simp]: "bucket_index (m\<lparr>hm_buckets := bs\<rparr>) = bucket_index m"
  by (simp add: bucket_index_def fun_eq_iff)

lemma HashmapSet_ok: "hashmap_ok m \<Longrightarrow> hashmap_ok (HashmapSet m key v)"
  by (auto simp: HashmapSet_def hashmap_ok_def Let_def split: option.split)

lemma HashmapGet_Set:
  assumes "hashmap_ok m"
  shows "HashmapGet (HashmapSet m key v) = (HashmapGet m)(key \<mapsto> v)"
proof
  fix k
  let ?i = "bucket_index m key"
  define ns where "ns = (case hm_buckets m ! ?i of None \<Rightarrow> [] | Some ns \<Rightarrow> ns)"
  have get: "GetInternalNode m k' = find_node ns k'" if "bucket_index m k' = ?i" for k'
    using that by (auto simp: GetInternalNode_def ns_def split: option.split)
  show "HashmapGet (HashmapSet m key v) k = ((HashmapGet m)(key \<mapsto> v)) k"
  proof (cases "bucket_index m k = ?i")
    case True
    show ?thesis
    proof (cases "GetInternalNode m key")
      case None
      then have set: "HashmapSet m key v = m\<lparr>hm_buckets := (hm_buckets m)[?i := Some (ns @ [(key, v)])]\<rparr>"
        by (simp add: HashmapSet_def Let_def ns_def)
      have "HashmapGet (HashmapSet m key v) k = find_node (ns @ [(key, v)]) k"
        using assms True unfolding set HashmapGet_def GetInternalNode_def by simp
      then show ?thesis using None get [OF refl] get [OF True]
        by (auto simp: find_node_append HashmapGet_def split: option.split)
    next
      case (Some w)
      then have set: "HashmapSet m key v = m\<lparr>hm_buckets := (hm_buckets m)[?i := Some (set_node ns key v)]\<rparr>"
        by (simp add: HashmapSet_def Let_def ns_def)
      have "HashmapGet (HashmapSet m key v) k = find_node (set_node ns key v) k"
        using assms True unfolding set HashmapGet_def GetInternalNode_def by simp
      then show ?thesis using Some get [OF refl] get [OF True]
        by (auto simp: find_node_set HashmapGet_def)
    qed
  next
    case False
    then have "HashmapGet (HashmapSet m key v) k = HashmapGet m k"
      by (auto simp: HashmapGet_def GetInternalNode_def HashmapSet_def Let_def split: option.split)
    moreover have "k \<noteq> key" using False by auto
    ultimately show ?thesis by simp
  qed
qed

lemma HashmapGet_Create: "0 < n \<Longrightarrow> hashmap_ok (HashmapCreate n) \<and> HashmapGet (HashmapCreate n) = Map.empty"
  by (auto simp: hashmap_ok_def HashmapCreate_def HashmapGet_def GetInternalNode_def bucket_index_def
      fun_eq_iff)

interpretation hm: string_map hashmap_ok HashmapGet HashmapSet
  by unfold_locales (simp_all add: HashmapGet_Set HashmapSet_ok)

subsection \<open>Properties\<close>

text \<open>C9.  A hash map with at least one bucket implements a map from strings: after any
  sequence of settings, a lookup of any key, whatever its hash collides with, gives the value
  last set for that key, or nothing if it was never set.\<close>

theorem hashmap_implements_map:
  assumes "0 < n"
  shows "HashmapGet (fold (\<lambda>(k, v) m. HashmapSet m k v) kvs (HashmapCreate n)) = map_of (rev kvs)"
  using hm.fold_update [of "HashmapCreate n" kvs] assms by (simp add: HashmapGet_Create)

theorem hashmap_implements_map_witness:
  "HashmapGet (HashmapSet (HashmapSet (HashmapSet (HashmapCreate 1) [97] 1) [98] 2) [97] (3 :: nat)) [97] = Some 3"
  using hashmap_implements_map [of 1 "[([97], 1), ([98], 2), ([97], 3 :: nat)]"] by simp

end
