(* ===== verification/PriorityQueue.thy ===== *)
theory PriorityQueue
  imports Prelude
begin

text \<open>
  The fixed-capacity binary heap of kernel/adt/heap.c (interface priorityqueue.h).  Element
  \<open>i\<close> of the C array occupies \<^verbatim>\<open>qwords_per_elem\<close> consecutive qwords, the priority
  first and the element's bytes after it; the model keeps these qwords together as one slot
  \<open>(priority, data)\<close>, so that \<^verbatim>\<open>SwapElements\<close> exchanges two slots.  The array's initial
  contents are whatever \<^verbatim>\<open>AllocHeap\<close> returned.  Array positions beyond the size hold stale
  slots, as in C.  The lemmas show the heap-order invariant, that each operation acts on the
  multiset of stored elements as a priority queue does, for minimum and maximum heaps alike,
  and that the peeked element is always an extremal one.
\<close>

record 'e heap_adt =
  h_capacity :: nat
  h_size :: nat
  h_element_width :: nat
  h_qwords_per_elem :: nat
  h_max :: bool
  h_array :: "(u64 \<times> 'e) list"

definition HeapAdtCreate :: "int \<Rightarrow> bool \<Rightarrow> int \<Rightarrow> (u64 \<times> 'e) list \<Rightarrow> 'e heap_adt kres" where
  "HeapAdtCreate capacity mx element_width mem =
     kassert (capacity > 0) (kassert (element_width > 0)
       (Inr \<lparr>h_capacity = nat capacity, h_size = 0, h_element_width = nat element_width,
             h_qwords_per_elem = 1 + (nat element_width + 8 - 1) div 8, h_max = mx,
             h_array = mem\<rparr>))"

definition SwapElements :: "'e heap_adt \<Rightarrow> nat \<Rightarrow> nat \<Rightarrow> 'e heap_adt" where
  "SwapElements h a b =
     h\<lparr>h_array := (h_array h)[a := h_array h ! b, b := h_array h ! a]\<rparr>"

definition GetMinOrMaxIndex :: "'e heap_adt \<Rightarrow> nat \<Rightarrow> nat \<Rightarrow> nat" where
  "GetMinOrMaxIndex h a b =
     (if a \<ge> h_size h \<or> b \<ge> h_size h then min a b
      else let is_a_small = fst (h_array h ! a) < fst (h_array h ! b)
           in if h_max h \<noteq> is_a_small then a else b)"

lemma GetMinOrMaxIndex_cases: "GetMinOrMaxIndex h a b \<in> {a, b}"
  by (auto simp: GetMinOrMaxIndex_def Let_def min_def)

text \<open>The child picked by one level of \<^verbatim>\<open>Heapify\<close>.\<close>

definition heapify_best :: "'e heap_adt \<Rightarrow> nat \<Rightarrow> nat" where
  "heapify_best h i = (let left = i * 2 + 1; right = left + 1
     in GetMinOrMaxIndex h right (GetMinOrMaxIndex h i left))"

lemma heapify_best_bounds:
  assumes "heapify_best h i \<noteq> i"
  shows "i < heapify_best h i" "heapify_best h i < h_size h"
  using assms by (auto simp: heapify_best_def GetMinOrMaxIndex_def Let_def min_def split: if_splits)

function Heapify :: "'e heap_adt \<Rightarrow> nat \<Rightarrow> 'e heap_adt" where
  "Heapify h i = (let best = heapify_best h i
     in if i \<noteq> best then Heapify (SwapElements h i best) best else h)"
  by pat_completeness auto
termination
  by (relation "measure (\<lambda>(h, i). h_size h - i)")
    (auto simp: SwapElements_def diff_less_mono2 heapify_best_bounds(1)
      less_trans [OF heapify_best_bounds])

definition hparent :: "nat \<Rightarrow> nat" where
  "hparent i = (i - 1) div 2"

lemma hparent_less [simp]: "0 < i \<Longrightarrow> hparent i < i"
  by (simp add: hparent_def)

function sift_up :: "'e heap_adt \<Rightarrow> nat \<Rightarrow> 'e heap_adt" where
  "sift_up h i =
     (if i \<noteq> 0 \<and> h_max h \<noteq> (fst (h_array h ! (hparent i)) > fst (h_array h ! i))
      then sift_up (SwapElements h (hparent i) i) (hparent i) else h)"
  by pat_completeness auto
termination
  by (relation "measure snd") auto

definition HeapAdtInsert :: "'e heap_adt \<Rightarrow> 'e \<Rightarrow> u64 \<Rightarrow> 'e heap_adt kres" where
  "HeapAdtInsert h elem priority =
     (if h_size h = h_capacity h then Inl PANIC_PRIORITY_QUEUE
      else let i = h_size h;
               h = h\<lparr>h_size := h_size h + 1, h_array := (h_array h)[i := (priority, elem)]\<rparr>
           in Inr (sift_up h i))"

definition HeapAdtPeek :: "'e heap_adt \<Rightarrow> (u64 \<times> 'e) kres" where
  "HeapAdtPeek h = (if h_size h = 0 then Inl PANIC_PRIORITY_QUEUE else Inr (h_array h ! 0))"

definition HeapAdtPop :: "'e heap_adt \<Rightarrow> 'e heap_adt kres" where
  "HeapAdtPop h =
     (if h_size h = 0 then Inl PANIC_PRIORITY_QUEUE
      else let size = h_size h - 1
           in Inr (Heapify (h\<lparr>h_size := size, h_array := (h_array h)[0 := h_array h ! size]\<rparr>) 0))"

definition HeapAdtGetCapacity :: "'e heap_adt \<Rightarrow> nat" where
  "HeapAdtGetCapacity h = h_capacity h"

definition HeapAdtGetUsedSize :: "'e heap_adt \<Rightarrow> nat" where
  "HeapAdtGetUsedSize h = h_size h"

text \<open>
  The specification side: the order in which the heap ranks priorities, the priority at a
  position, the well-formedness invariant and the multiset of stored elements.
\<close>

definition ranks :: "bool \<Rightarrow> u64 \<Rightarrow> u64 \<Rightarrow> bool" where
  "ranks mx p q \<longleftrightarrow> (if mx then q \<le> p else p \<le> q)"

definition prio :: "'e heap_adt \<Rightarrow> nat \<Rightarrow> u64" where
  "prio h i = fst (h_array h ! i)"

definition heap_ordered :: "'e heap_adt \<Rightarrow> bool" where
  "heap_ordered h \<longleftrightarrow> (\<forall>j. 0 < j \<and> j < h_size h \<longrightarrow> ranks (h_max h) (prio h (hparent j)) (prio h j))"

definition heap_ok :: "'e heap_adt \<Rightarrow> bool" where
  "heap_ok h \<longleftrightarrow> 0 < h_capacity h \<and> length (h_array h) = h_capacity h \<and> h_size h \<le> h_capacity h \<and>
     heap_ordered h"

definition heap_elems :: "'e heap_adt \<Rightarrow> (u64 \<times> 'e) multiset" where
  "heap_elems h = mset (take (h_size h) (h_array h))"

declare Heapify.simps [simp del] sift_up.simps [simp del]

text \<open>Taking \<open>n\<close> elements off a priority queue, collecting what each peek saw.\<close>

fun pq_drain :: "('q \<Rightarrow> 'x kres) \<Rightarrow> ('q \<Rightarrow> 'q kres) \<Rightarrow> nat \<Rightarrow> 'q \<Rightarrow> 'x list kres" where
  "pq_drain peek pop 0 q = Inr []"
| "pq_drain peek pop (Suc n) q =
     kbind (peek q) (\<lambda>x. kbind (pop q) (\<lambda>q. kbind (pq_drain peek pop n q) (\<lambda>xs. Inr (x # xs))))"

lemma ranks_refl [simp]: "ranks mx p p"
  by (simp add: ranks_def)

lemma ranks_trans: "ranks mx p q \<Longrightarrow> ranks mx q r \<Longrightarrow> ranks mx p r"
  by (auto simp: ranks_def split: if_splits)

lemma ranks_total: "ranks mx p q \<or> ranks mx q p"
  by (auto simp: ranks_def)

lemma SwapElements_simps [simp]:
  "h_size (SwapElements h a b) = h_size h" "h_capacity (SwapElements h a b) = h_capacity h"
  "h_max (SwapElements h a b) = h_max h"
  "length (h_array (SwapElements h a b)) = length (h_array h)"
  by (simp_all add: SwapElements_def)

lemma prio_Swap:
  "a < length (h_array h) \<Longrightarrow> b < length (h_array h) \<Longrightarrow>
   prio (SwapElements h a b) = (prio h)(a := prio h b, b := prio h a)"
  by (auto simp: prio_def SwapElements_def fun_eq_iff nth_list_update)

lemma heap_elems_Swap:
  assumes "a < h_size h" "b < h_size h" "h_size h \<le> length (h_array h)"
  shows "heap_elems (SwapElements h a b) = heap_elems h"
  using assms mset_swap [of b "take (h_size h) (h_array h)" a]
  by (simp add: heap_elems_def SwapElements_def take_update_swap)

subsection \<open>Sifting up\<close>

text \<open>During insertion every parent-child pair is ordered except possibly the pair ending at
  \<open>i\<close>, and the parent of \<open>i\<close> ranks before the children of \<open>i\<close>.\<close>

definition up_ok :: "'e heap_adt \<Rightarrow> nat \<Rightarrow> bool" where
  "up_ok h i \<longleftrightarrow> i < h_size h \<and> h_size h \<le> length (h_array h) \<and>
     (\<forall>j. 0 < j \<and> j < h_size h \<and> j \<noteq> i \<longrightarrow> ranks (h_max h) (prio h (hparent j)) (prio h j)) \<and>
     (\<forall>j. 0 < i \<and> 0 < j \<and> j < h_size h \<and> hparent j = i \<longrightarrow>
        ranks (h_max h) (prio h (hparent i)) (prio h j))"

lemma up_ok_swap:
  assumes ok: "up_ok h i" and "0 < i" and gt: "ranks (h_max h) (prio h i) (prio h (hparent i))"
  shows "up_ok (SwapElements h (hparent i) i) (hparent i)"
proof -
  let ?p = "hparent i"
  let ?h = "SwapElements h ?p i"
  have bounds: "?p < i" "i < h_size h" "h_size h \<le> length (h_array h)"
    using ok \<open>0 < i\<close> by (auto simp: up_ok_def)
  then have pr: "prio ?h = (prio h)(?p := prio h i, i := prio h ?p)" by (subst prio_Swap) auto
  have edge: "ranks (h_max h) (prio h (hparent j)) (prio h j)"
    if "0 < j" "j < h_size h" "j \<noteq> i" for j
    using ok that by (auto simp: up_ok_def)
  have up: "ranks (h_max h) (prio h ?p) (prio h j)" if "0 < j" "j < h_size h" "hparent j = i" for j
    using ok that \<open>0 < i\<close> by (auto simp: up_ok_def)
  have "ranks (h_max h) (prio ?h (hparent j)) (prio ?h j)"
    if j: "0 < j" "j < h_size h" "j \<noteq> ?p" for j
  proof (cases "j = i")
    case True
    then show ?thesis using gt bounds by (simp add: pr)
  next
    case False
    have "ranks (h_max h) (prio h i) (prio h j)" if "hparent j = ?p"
      using ranks_trans [OF gt] edge [OF j(1,2) False] that by simp
    with False j up [of j] edge [of j] show ?thesis by (auto simp: pr)
  qed
  moreover have "ranks (h_max h) (prio ?h (hparent ?p)) (prio ?h j)"
    if j: "0 < ?p" "0 < j" "j < h_size h" "hparent j = ?p" for j
  proof -
    have lt: "hparent ?p < ?p" using j(1) by simp
    have top: "ranks (h_max h) (prio h (hparent ?p)) (prio h ?p)"
      using edge [of ?p] j(1) bounds by auto
    show ?thesis
    proof (cases "j = i")
      case True
      then show ?thesis using top lt bounds by (simp add: pr)
    next
      case False
      then have "ranks (h_max h) (prio h ?p) (prio h j)" using edge [of j] j by simp
      with top have "ranks (h_max h) (prio h (hparent ?p)) (prio h j)" by (rule ranks_trans)
      moreover have "j \<noteq> ?p" using j lt by auto
      ultimately show ?thesis using False lt bounds by (simp add: pr)
    qed
  qed
  ultimately show ?thesis using bounds by (auto simp: up_ok_def)
qed

lemma sift_up_stop:
  assumes "up_ok h i" "i = 0 \<or> ranks (h_max h) (prio h (hparent i)) (prio h i)"
  shows "heap_ordered h"
  using assms by (auto simp: up_ok_def heap_ordered_def)

lemma sift_up_correct:
  "up_ok h i \<Longrightarrow>
   heap_ordered (sift_up h i) \<and> heap_elems (sift_up h i) = heap_elems h \<and>
   h_size (sift_up h i) = h_size h \<and> h_capacity (sift_up h i) = h_capacity h \<and>
   h_max (sift_up h i) = h_max h \<and> length (h_array (sift_up h i)) = length (h_array h)"
proof (induction h i rule: sift_up.induct)
  case (1 h i)
  let ?p = "hparent i"
  show ?case
  proof (cases "i \<noteq> 0 \<and> h_max h \<noteq> (fst (h_array h ! ?p) > fst (h_array h ! i))")
    case True
    then have "ranks (h_max h) (prio h i) (prio h ?p)" by (auto simp: ranks_def prio_def)
    with True "1.prems" have "up_ok (SwapElements h ?p i) ?p" by (auto intro: up_ok_swap)
    moreover have "heap_elems (SwapElements h ?p i) = heap_elems h"
      using "1.prems" True by (intro heap_elems_Swap) (auto simp: up_ok_def less_trans [OF hparent_less])
    ultimately show ?thesis using "1.IH" [OF True] True by (subst (1 2 3 4 5 6) sift_up.simps) simp
  next
    case False
    then have "i = 0 \<or> ranks (h_max h) (prio h ?p) (prio h i)"
      by (auto simp: ranks_def prio_def)
    with "1.prems" have "heap_ordered h" by (rule sift_up_stop)
    moreover have "sift_up h i = h" using False by (subst sift_up.simps) auto
    ultimately show ?thesis by simp
  qed
qed

subsection \<open>Sifting down\<close>

definition down_ok :: "'e heap_adt \<Rightarrow> nat \<Rightarrow> bool" where
  "down_ok h i \<longleftrightarrow> h_size h \<le> length (h_array h) \<and>
     (\<forall>j. 0 < j \<and> j < h_size h \<and> hparent j \<noteq> i \<longrightarrow> ranks (h_max h) (prio h (hparent j)) (prio h j)) \<and>
     (\<forall>j. 0 < i \<and> 0 < j \<and> j < h_size h \<and> hparent j = i \<longrightarrow>
        ranks (h_max h) (prio h (hparent i)) (prio h j))"

lemma hparent_children: "0 < j \<Longrightarrow> hparent j = i \<longleftrightarrow> j = i * 2 + 1 \<or> j = i * 2 + 2"
  by (auto simp: hparent_def)

lemma GetMinOrMaxIndex_ranks:
  assumes "a < h_size h" "b < h_size h"
  shows "ranks (h_max h) (prio h (GetMinOrMaxIndex h a b)) (prio h a)"
    and "ranks (h_max h) (prio h (GetMinOrMaxIndex h a b)) (prio h b)"
  using assms by (auto simp: GetMinOrMaxIndex_def ranks_def prio_def Let_def)

lemma GetMinOrMaxIndex_out: "h_size h \<le> a \<Longrightarrow> b < h_size h \<Longrightarrow> GetMinOrMaxIndex h a b = b"
  by (auto simp: GetMinOrMaxIndex_def)

lemma heapify_best_ranks:
  assumes i: "i < h_size h" and j: "j = i \<or> 0 < j \<and> j < h_size h \<and> hparent j = i"
  shows "ranks (h_max h) (prio h (heapify_best h i)) (prio h j)"
proof -
  let ?l = "i * 2 + 1" and ?r = "i * 2 + 1 + 1"
  let ?m = "GetMinOrMaxIndex h i ?l"
  have m: "?m < h_size h" using i by (auto simp: GetMinOrMaxIndex_def Let_def min_def)
  have m_i: "ranks (h_max h) (prio h ?m) (prio h i)"
    using i GetMinOrMaxIndex_ranks(1) [of i h ?l]
    by (cases "?l < h_size h") (auto simp: GetMinOrMaxIndex_def)
  have m_l: "ranks (h_max h) (prio h ?m) (prio h ?l)" if "?l < h_size h"
    using i that by (rule GetMinOrMaxIndex_ranks(2))
  have best: "heapify_best h i = GetMinOrMaxIndex h ?r ?m" by (simp add: heapify_best_def Let_def)
  have best_m: "ranks (h_max h) (prio h (heapify_best h i)) (prio h ?m)"
  proof (cases "?r < h_size h")
    case True
    then show ?thesis unfolding best using m by (rule GetMinOrMaxIndex_ranks(2))
  next
    case False
    then have "heapify_best h i = ?m"
      using m unfolding best by (intro GetMinOrMaxIndex_out) auto
    then show ?thesis by simp
  qed
  consider "j = i" | "j = ?l" "?l < h_size h" | "j = ?r" "?r < h_size h"
    using j hparent_children [of j i] by fastforce
  then show ?thesis
  proof cases
    case 1
    then show ?thesis using ranks_trans [OF best_m m_i] by simp
  next
    case 2
    then show ?thesis using ranks_trans [OF best_m m_l] by simp
  next
    case 3
    then show ?thesis unfolding best using GetMinOrMaxIndex_ranks(1) [OF _ m] by simp
  qed
qed

lemma heapify_best_child: "heapify_best h i \<noteq> i \<Longrightarrow> hparent (heapify_best h i) = i"
proof -
  assume ne: "heapify_best h i \<noteq> i"
  have "heapify_best h i \<in> {i, i * 2 + 1, i * 2 + 2}"
    using GetMinOrMaxIndex_cases [of h "i * 2 + 1 + 1" "GetMinOrMaxIndex h i (i * 2 + 1)"]
      GetMinOrMaxIndex_cases [of h i "i * 2 + 1"]
    by (auto simp: heapify_best_def Let_def)
  with ne show ?thesis by (auto simp: hparent_def)
qed

lemma down_ok_swap:
  assumes ok: "down_ok h i" and ne: "heapify_best h i \<noteq> i"
  shows "down_ok (SwapElements h i (heapify_best h i)) (heapify_best h i)"
proof -
  define b where "b = heapify_best h i"
  let ?h = "SwapElements h i b"
  have b: "i < b" "b < h_size h" "hparent b = i"
    using heapify_best_bounds [OF ne] heapify_best_child [OF ne] by (simp_all add: b_def)
  have len: "h_size h \<le> length (h_array h)" using ok by (simp add: down_ok_def)
  then have pr: "prio ?h = (prio h)(i := prio h b, b := prio h i)" using b by (subst prio_Swap) auto
  have best: "ranks (h_max h) (prio h b) (prio h j)" if "j = i \<or> 0 < j \<and> j < h_size h \<and> hparent j = i" for j
    unfolding b_def using b that by (intro heapify_best_ranks) auto
  have edge: "ranks (h_max h) (prio h (hparent j)) (prio h j)"
    if "0 < j" "j < h_size h" "hparent j \<noteq> i" for j
    using ok that by (auto simp: down_ok_def)
  have above: "ranks (h_max h) (prio h (hparent i)) (prio h j)"
    if "0 < i" "0 < j" "j < h_size h" "hparent j = i" for j
    using ok that by (auto simp: down_ok_def)
  have "ranks (h_max h) (prio ?h (hparent j)) (prio ?h j)"
    if j: "0 < j" "j < h_size h" "hparent j \<noteq> b" for j
  proof -
    have "hparent j < j" using j by simp
    consider "hparent j = i" | "j = i" | "hparent j \<noteq> i" "j \<noteq> i" by blast
    then show ?thesis
    proof cases
      case 1
      with j b best [of j] best [of i] \<open>hparent j < j\<close> show ?thesis by (auto simp: pr)
    next
      case 2
      with j b above [of b] \<open>hparent j < j\<close> show ?thesis by (auto simp: pr)
    next
      case 3
      with j b edge [of j] show ?thesis by (auto simp: pr)
    qed
  qed
  moreover have "ranks (h_max h) (prio ?h (hparent b)) (prio ?h j)"
    if j: "0 < j" "j < h_size h" "hparent j = b" for j
  proof -
    have "b < j" using hparent_less [of j] j by simp
    then show ?thesis using edge [of j] j b by (simp add: pr)
  qed
  ultimately show ?thesis using len by (auto simp: down_ok_def b_def)
qed

lemma Heapify_correct:
  "down_ok h i \<Longrightarrow>
   heap_ordered (Heapify h i) \<and> heap_elems (Heapify h i) = heap_elems h \<and>
   h_size (Heapify h i) = h_size h \<and> h_capacity (Heapify h i) = h_capacity h \<and>
   h_max (Heapify h i) = h_max h \<and> length (h_array (Heapify h i)) = length (h_array h)"
proof (induction h i rule: Heapify.induct)
  case (1 h i)
  let ?b = "heapify_best h i"
  show ?case
  proof (cases "?b = i")
    case True
    have "ranks (h_max h) (prio h (hparent j)) (prio h j)" if "0 < j" "j < h_size h" for j
    proof (cases "hparent j = i")
      case True
      then have "i < h_size h" using that hparent_less [of j] by simp
      from heapify_best_ranks [OF this, of j] True that \<open>?b = i\<close> show ?thesis by simp
    next
      case False
      then show ?thesis using "1.prems" that by (simp add: down_ok_def)
    qed
    then have "heap_ordered h" by (simp add: heap_ordered_def)
    moreover have "Heapify h i = h" using True by (subst Heapify.simps) (simp add: Let_def)
    ultimately show ?thesis by simp
  next
    case False
    have step: "Heapify h i = Heapify (SwapElements h i ?b) ?b"
      using False by (subst Heapify.simps) (simp add: Let_def)
    have "heap_elems (SwapElements h i ?b) = heap_elems h"
      using heapify_best_bounds [OF False] "1.prems"
      by (intro heap_elems_Swap) (auto simp: down_ok_def)
    with "1.IH" [OF refl] down_ok_swap [OF "1.prems" False] False show ?thesis
      unfolding step by simp
  qed
qed

subsection \<open>The operations on a well-formed heap\<close>

lemma heap_elems_size: "heap_ok h \<Longrightarrow> size (heap_elems h) = h_size h"
  by (simp add: heap_elems_def heap_ok_def)

lemma heap_ok_Create:
  "0 < c \<Longrightarrow> 0 < w \<Longrightarrow> length mem = nat c \<Longrightarrow>
   \<exists>h. HeapAdtCreate c mx w mem = Inr h \<and> heap_ok h \<and> h_max h = mx \<and> heap_elems h = {#} \<and>
       h_capacity h = nat c"
  by (auto simp: HeapAdtCreate_def heap_ok_def heap_ordered_def heap_elems_def)

lemma HeapAdtInsert_ok:
  assumes "heap_ok h" "h_size h < h_capacity h"
  shows "\<exists>h'. HeapAdtInsert h e p = Inr h' \<and> heap_ok h' \<and> h_max h' = h_max h \<and>
              heap_elems h' = add_mset (p, e) (heap_elems h) \<and> h_capacity h' = h_capacity h"
proof -
  define i where "i = h_size h"
  define h1 where "h1 = h\<lparr>h_size := h_size h + 1, h_array := (h_array h)[i := (p, e)]\<rparr>"
  have i: "i < length (h_array h)" using assms by (simp add: heap_ok_def i_def)
  have pr: "prio h1 j = prio h j" if "j \<noteq> i" for j using that by (simp add: prio_def h1_def)
  have par: "hparent j < h_size h" if "0 < j" "j < h_size h" for j
    using hparent_less [of j] that by linarith
  have "up_ok h1 i"
    unfolding up_ok_def
  proof (intro conjI allI impI)
    fix j assume j: "0 < j \<and> j < h_size h1 \<and> j \<noteq> i"
    then have "j < h_size h" by (simp add: h1_def i_def)
    with j show "ranks (h_max h1) (prio h1 (hparent j)) (prio h1 j)"
      using assms par [of j] pr [of j] pr [of "hparent j"]
      by (simp add: heap_ok_def heap_ordered_def i_def h1_def [THEN arg_cong, of h_max])
  next
    fix j assume j: "0 < i \<and> 0 < j \<and> j < h_size h1 \<and> hparent j = i"
    then show "ranks (h_max h1) (prio h1 (hparent i)) (prio h1 j)"
      using hparent_less [of j] by (simp add: h1_def i_def)
  qed (use i in \<open>simp_all add: h1_def i_def\<close>)
  moreover have "heap_elems h1 = add_mset (p, e) (heap_elems h)"
    using i by (simp add: heap_elems_def h1_def i_def take_Suc_conv_app_nth)
  moreover have "HeapAdtInsert h e p = Inr (sift_up h1 i)"
    using assms by (simp add: HeapAdtInsert_def h1_def i_def Let_def)
  ultimately show ?thesis
    using sift_up_correct [of h1 i] assms
    by (simp add: heap_ok_def) (simp add: h1_def)
qed

lemma heap_root_extremal:
  assumes "heap_ordered h" "i < h_size h"
  shows "ranks (h_max h) (prio h 0) (prio h i)"
  using assms(2)
proof (induction i rule: less_induct)
  case (less i)
  show ?case
  proof (cases "i = 0")
    case False
    then have "ranks (h_max h) (prio h 0) (prio h (hparent i))"
      using less.IH [of "hparent i"] less_trans [OF hparent_less [of i] less.prems] False by simp
    moreover have "ranks (h_max h) (prio h (hparent i)) (prio h i)"
      using assms(1) less.prems False by (simp add: heap_ordered_def)
    ultimately show ?thesis by (rule ranks_trans)
  qed simp
qed

lemma HeapAdtPeek_ok:
  assumes "heap_ok h" "heap_elems h \<noteq> {#}"
  shows "\<exists>x. HeapAdtPeek h = Inr x \<and> x \<in># heap_elems h \<and>
             (\<forall>y. y \<in># heap_elems h \<longrightarrow> ranks (h_max h) (fst x) (fst y))"
proof -
  have sz: "0 < h_size h" "h_size h \<le> length (h_array h)"
    using assms by (auto simp: heap_elems_def heap_ok_def)
  have "ranks (h_max h) (fst (h_array h ! 0)) (fst y)" if "y \<in># heap_elems h" for y
  proof -
    from that obtain j where "j < h_size h" "y = h_array h ! j"
      using sz(2) by (auto simp: heap_elems_def in_set_conv_nth)
    then show ?thesis
      using heap_root_extremal [of h j] assms(1) by (simp add: heap_ok_def prio_def)
  qed
  moreover have "h_array h ! 0 \<in># heap_elems h"
    using sz nth_mem [of 0 "take (h_size h) (h_array h)"] by (simp add: heap_elems_def)
  ultimately show ?thesis using sz by (auto simp: HeapAdtPeek_def)
qed

lemma mset_replace_first:
  "length xs = Suc n \<Longrightarrow> mset (take n (xs[0 := xs ! n])) = mset xs - {#xs ! 0#}"
proof (cases xs)
  case (Cons y ys)
  assume "length xs = Suc n"
  with Cons show ?thesis
    by (cases n; cases ys rule: rev_cases) (auto simp: nth_append)
qed simp

lemma HeapAdtPop_ok:
  assumes "heap_ok h" "heap_elems h \<noteq> {#}"
  shows "\<exists>h'. HeapAdtPop h = Inr h' \<and> heap_ok h' \<and> h_max h' = h_max h \<and>
              heap_elems h' = heap_elems h - {#h_array h ! 0#} \<and> h_capacity h' = h_capacity h"
proof -
  obtain n where n: "h_size h = Suc n" using assms by (cases "h_size h") (auto simp: heap_elems_def)
  define h1 where "h1 = h\<lparr>h_size := n, h_array := (h_array h)[0 := h_array h ! n]\<rparr>"
  have len: "Suc n \<le> length (h_array h)" using assms n by (simp add: heap_ok_def)
  have pr: "prio h1 j = prio h j" if "j \<noteq> 0" for j using that by (simp add: prio_def h1_def)
  have ord: "heap_ordered h" using assms by (simp add: heap_ok_def)
  have "down_ok h1 0"
    using ord len pr n by (auto simp: down_ok_def heap_ordered_def h1_def [THEN arg_cong, of h_size]
        h1_def [THEN arg_cong, of h_max] h1_def [THEN arg_cong, of h_array])
  moreover have "heap_elems h1 = heap_elems h - {#h_array h ! 0#}"
    using mset_replace_first [of "take (Suc n) (h_array h)" n] len n
    by (simp add: heap_elems_def h1_def take_update_swap)
  moreover have "HeapAdtPop h = Inr (Heapify h1 0)" using n by (simp add: HeapAdtPop_def h1_def Let_def)
  ultimately show ?thesis
    using Heapify_correct [of h1 0] assms n by (simp add: heap_ok_def) (simp add: h1_def)
qed

subsection \<open>The priority queue interface\<close>

locale prio_queue =
  fixes inv :: "'q \<Rightarrow> bool"
    and elems :: "'q \<Rightarrow> ('p \<times> 'e) multiset"
    and cap :: "'q \<Rightarrow> nat"
    and le :: "'p \<Rightarrow> 'p \<Rightarrow> bool"
    and insert :: "'q \<Rightarrow> 'e \<Rightarrow> 'p \<Rightarrow> 'q kres"
    and peek :: "'q \<Rightarrow> ('p \<times> 'e) kres"
    and pop :: "'q \<Rightarrow> 'q kres"
  assumes insert: "inv q \<Longrightarrow> size (elems q) < cap q \<Longrightarrow>
        \<exists>q'. insert q e p = Inr q' \<and> inv q' \<and> elems q' = add_mset (p, e) (elems q) \<and> cap q' = cap q"
    and insert_full: "inv q \<Longrightarrow> size (elems q) = cap q \<Longrightarrow> insert q e p = Inl PANIC_PRIORITY_QUEUE"
    and peek_empty: "inv q \<Longrightarrow> elems q = {#} \<Longrightarrow>
        peek q = Inl PANIC_PRIORITY_QUEUE \<and> pop q = Inl PANIC_PRIORITY_QUEUE"
    and peek_pop: "inv q \<Longrightarrow> elems q \<noteq> {#} \<Longrightarrow>
        \<exists>x q'. peek q = Inr x \<and> x \<in># elems q \<and> (\<forall>y. y \<in># elems q \<longrightarrow> le (fst x) (fst y)) \<and>
               pop q = Inr q' \<and> inv q' \<and> elems q' = elems q - {#x#} \<and> cap q' = cap q"
begin

lemma insert_all:
  "inv q \<Longrightarrow> size (elems q) + length xs \<le> cap q \<Longrightarrow>
   \<exists>q'. kfold (\<lambda>q (p, e). insert q e p) q xs = Inr q' \<and> inv q' \<and> elems q' = elems q + mset xs \<and>
        cap q' = cap q"
proof (induction xs arbitrary: q)
  case (Cons x xs)
  obtain p e where x: "x = (p, e)" by (cases x)
  obtain q1 where q1: "insert q e p = Inr q1" "inv q1" "elems q1 = add_mset (p, e) (elems q)"
    "cap q1 = cap q"
    using insert [OF Cons.prems(1), of e p] Cons.prems(2) by auto
  from Cons.IH [OF q1(2)] q1 Cons.prems(2) show ?case by (auto simp: x)
qed simp

lemma drain_sorted:
  "inv q \<Longrightarrow> size (elems q) = n \<Longrightarrow>
   \<exists>xs. pq_drain peek pop n q = Inr xs \<and> mset xs = elems q \<and>
        sorted_wrt (\<lambda>x y. le (fst x) (fst y)) xs"
proof (induction n arbitrary: q)
  case (Suc n)
  then have "elems q \<noteq> {#}" by auto
  from peek_pop [OF Suc.prems(1) this] obtain x q' where
    x: "peek q = Inr x" "x \<in># elems q" "\<And>y. y \<in># elems q \<Longrightarrow> le (fst x) (fst y)" and
    q': "pop q = Inr q'" "inv q'" "elems q' = elems q - {#x#}"
    by blast
  have "size (elems q') = n" using q'(3) x(2) Suc.prems(2) by (simp add: size_Diff_singleton)
  from Suc.IH [OF q'(2) this] obtain xs where xs: "pq_drain peek pop n q' = Inr xs"
    "mset xs = elems q'" "sorted_wrt (\<lambda>x y. le (fst x) (fst y)) xs"
    by blast
  have "le (fst x) (fst y)" if "y \<in> set xs" for y
  proof -
    have "y \<in># elems q'" using that xs(2) by (metis set_mset_mset)
    then show ?thesis using x(3) q'(3) by (metis in_diffD)
  qed
  moreover have "mset (x # xs) = elems q" using xs(2) q'(3) x(2) by simp
  ultimately show ?case using x(1) q'(1) xs by simp
qed simp

end

interpretation hq: prio_queue "\<lambda>h. heap_ok h \<and> h_max h = mx" heap_elems h_capacity "ranks mx"
  HeapAdtInsert HeapAdtPeek HeapAdtPop for mx
proof (unfold_locales, goal_cases)
  case (1 q e p)
  then show ?case using HeapAdtInsert_ok [of q e p] heap_elems_size [of q] by auto
next
  case (2 q e p)
  then show ?case using heap_elems_size [of q] by (simp add: HeapAdtInsert_def)
next
  case (3 q)
  then have "h_size q = 0" using heap_elems_size [of q] by simp
  then show ?case by (simp add: HeapAdtPeek_def HeapAdtPop_def)
next
  case (4 q)
  then obtain x where x: "HeapAdtPeek q = Inr x" "x \<in># heap_elems q"
    "\<forall>y. y \<in># heap_elems q \<longrightarrow> ranks mx (fst x) (fst y)"
    using HeapAdtPeek_ok [of q] by auto
  then have "x = h_array q ! 0" by (auto simp: HeapAdtPeek_def split: if_splits)
  with x HeapAdtPop_ok [of q] 4 show ?case by auto
qed

subsection \<open>Properties\<close>

text \<open>C3.  Inserting any elements into a fresh heap of sufficient capacity and popping them
  all gives the same elements, none lost or duplicated, in order of priority: ascending for a
  minimum heap and descending for a maximum heap.  No operation panics.\<close>

theorem heap_adt_sorts:
  assumes "0 < capacity" "0 < width" "length mem = nat capacity" "length xs \<le> nat capacity"
  shows "\<exists>h h' ys. HeapAdtCreate capacity mx width mem = Inr h \<and>
     kfold (\<lambda>h (p, e). HeapAdtInsert h e p) h xs = Inr h' \<and>
     HeapAdtGetUsedSize h' = length xs \<and>
     pq_drain HeapAdtPeek HeapAdtPop (length xs) h' = Inr ys \<and>
     mset ys = mset xs \<and> sorted_wrt (\<lambda>x y. ranks mx (fst x) (fst y)) ys"
proof -
  obtain h where h: "HeapAdtCreate capacity mx width mem = Inr h" "heap_ok h \<and> h_max h = mx"
    "heap_elems h = {#}" "h_capacity h = nat capacity"
    using heap_ok_Create [OF assms(1,2,3), of mx] by blast
  obtain h' where h': "kfold (\<lambda>h (p, e). HeapAdtInsert h e p) h xs = Inr h'"
    "heap_ok h' \<and> h_max h' = mx" "heap_elems h' = mset xs"
    using hq.insert_all [OF h(2), of xs] h(3,4) assms(4) by auto
  have "size (heap_elems h') = length xs" by (simp add: h'(3))
  from hq.drain_sorted [OF h'(2) this] h'(3) heap_elems_size [of h'] this h'(1,2) h(1) show ?thesis
    by (auto simp: HeapAdtGetUsedSize_def)
qed

theorem heap_adt_sorts_witness:
  "\<exists>h h' ys. HeapAdtCreate 3 True 4 (replicate 3 (0, 0 :: nat)) = Inr h \<and>
     kfold (\<lambda>h (p, e). HeapAdtInsert h e p) h [(1, 10), (3, 30), (2, 20)] = Inr h' \<and>
     HeapAdtGetUsedSize h' = 3 \<and> pq_drain HeapAdtPeek HeapAdtPop 3 h' = Inr ys \<and>
     mset ys = {#(1, 10), (3, 30), (2, 20)#} \<and> sorted_wrt (\<lambda>x y. ranks True (fst x) (fst y)) ys"
  using heap_adt_sorts [of 3 4 "replicate 3 (0, 0 :: nat)" "[(1, 10), (3, 30), (2, 20)]" True]
  by (simp add: eval_nat_numeral)

text \<open>C4.  The heap as a priority queue, operation by operation: an insertion into a full heap
  and a peek or pop of an empty one panic; otherwise an insertion adds exactly one element, a
  peek returns an element that ranks before every other, a pop removes exactly the peeked
  element, and all of them keep the heap well formed.\<close>

theorem heap_adt_operations:
  assumes "heap_ok h"
  shows "(if h_size h = h_capacity h then HeapAdtInsert h e p = Inl PANIC_PRIORITY_QUEUE
          else \<exists>h'. HeapAdtInsert h e p = Inr h' \<and> heap_ok h' \<and>
                    heap_elems h' = add_mset (p, e) (heap_elems h)) \<and>
         (if h_size h = 0
          then HeapAdtPeek h = Inl PANIC_PRIORITY_QUEUE \<and> HeapAdtPop h = Inl PANIC_PRIORITY_QUEUE
          else \<exists>x h'. HeapAdtPeek h = Inr x \<and> x \<in># heap_elems h \<and>
                 (\<forall>y. y \<in># heap_elems h \<longrightarrow> ranks (h_max h) (fst x) (fst y)) \<and>
                 HeapAdtPop h = Inr h' \<and> heap_ok h' \<and> heap_elems h' = heap_elems h - {#x#})"
proof -
  have ok: "heap_ok h \<and> h_max h = h_max h" and sz: "size (heap_elems h) = h_size h"
    and le: "h_size h \<le> h_capacity h"
    using assms heap_elems_size by (auto simp: heap_ok_def)
  show ?thesis
  proof (intro conjI)
    show "if h_size h = h_capacity h then HeapAdtInsert h e p = Inl PANIC_PRIORITY_QUEUE
          else \<exists>h'. HeapAdtInsert h e p = Inr h' \<and> heap_ok h' \<and>
                    heap_elems h' = add_mset (p, e) (heap_elems h)"
      using hq.insert [OF ok, of e p] hq.insert_full [OF ok, of e p] sz le by auto
  next
    show "if h_size h = 0
          then HeapAdtPeek h = Inl PANIC_PRIORITY_QUEUE \<and> HeapAdtPop h = Inl PANIC_PRIORITY_QUEUE
          else \<exists>x h'. HeapAdtPeek h = Inr x \<and> x \<in># heap_elems h \<and>
                 (\<forall>y. y \<in># heap_elems h \<longrightarrow> ranks (h_max h) (fst x) (fst y)) \<and>
                 HeapAdtPop h = Inr h' \<and> heap_ok h' \<and> heap_elems h' = heap_elems h - {#x#}"
    proof (cases "h_size h = 0")
      case True
      then show ?thesis using hq.peek_empty [OF ok] sz by simp
    next
      case False
      then have "heap_elems h \<noteq> {#}" using sz by auto
      from hq.peek_pop [OF ok this] False show ?thesis by auto
    qed
  qed
qed

theorem heap_adt_operations_witness:
  "let h = \<lparr>h_capacity = 2, h_size = 2, h_element_width = 4, h_qwords_per_elem = 2, h_max = False,
            h_array = [(1, 5 :: nat), (2, 6)]\<rparr>
   in HeapAdtInsert h 7 0 = Inl PANIC_PRIORITY_QUEUE \<and>
      (\<exists>x h'. HeapAdtPeek h = Inr x \<and> HeapAdtPop h = Inr h' \<and> heap_elems h' = heap_elems h - {#x#})"
proof -
  let ?h = "\<lparr>h_capacity = 2, h_size = 2, h_element_width = 4, h_qwords_per_elem = 2, h_max = False,
            h_array = [(1, 5 :: nat), (2, 6)]\<rparr>"
  have "heap_ok ?h"
    by (auto simp: heap_ok_def heap_ordered_def ranks_def prio_def less_Suc_eq numeral_2_eq_2 hparent_def)
  from heap_adt_operations [OF this, of 7 0] show ?thesis by auto
qed

end
