(* ===== verification/ThreadList.thy ===== *)
theory ThreadList
  imports Prelude
begin

text \<open>
  The allocation-free thread lists of kernel/thread/threadlist.c.  A thread carries one link per
  list index (ready, sleep, semaphore), so the links of all threads are a function from index
  and thread to the next thread.  The operations are modelled on these links and refine queues
  of threads, which the scheduler and semaphore theories use: \<open>tq_insert\<close>, \<open>tq_insert_front\<close>,
  \<open>tq_delete_top\<close> and \<open>tq_delete\<close> on HOL lists, with the assertions of the debug build.  Reading
  the link of the null thread has no C meaning and gives \<open>None\<close>, as does a walk that never ends.
\<close>

type_synonym 't links = "nat \<Rightarrow> 't \<Rightarrow> 't option"

record 't thread_list =
  tl_head :: "'t option"
  tl_tail :: "'t option"
  tl_index :: nat

type_synonym 't tl_state = "'t links \<times> 't thread_list"

definition ThreadListInit :: "nat \<Rightarrow> 't thread_list" where
  "ThreadListInit index = \<lparr>tl_head = None, tl_tail = None, tl_index = index\<rparr>"

definition set_link :: "nat \<Rightarrow> 't \<Rightarrow> 't option \<Rightarrow> 't links \<Rightarrow> 't links" where
  "set_link i t u nx = nx(i := (nx i)(t := u))"

partial_function (option) get_index_loop :: "('t \<Rightarrow> 't option) \<Rightarrow> 't \<Rightarrow> 't option \<Rightarrow> int \<Rightarrow> int option" where
  "get_index_loop nx thread iter i =
     (case iter of
        None \<Rightarrow> Some (-1)
      | Some t \<Rightarrow> if t = thread then Some i else get_index_loop nx thread (nx t) (i + 1))"

definition ThreadListGetIndex :: "'t tl_state \<Rightarrow> 't \<Rightarrow> int option" where
  "ThreadListGetIndex s thread = get_index_loop (fst s (tl_index (snd s))) thread (tl_head (snd s)) 0"

definition ThreadListContains :: "'t tl_state \<Rightarrow> 't \<Rightarrow> bool option" where
  "ThreadListContains s thread = map_option (\<lambda>i. i \<noteq> -1) (ThreadListGetIndex s thread)"

definition ThreadListInsertAtFront :: "'t tl_state \<Rightarrow> 't \<Rightarrow> 't tl_state kres option" where
  "ThreadListInsertAtFront s thread =
     Option.bind (ThreadListContains s thread) (\<lambda>c. Some (kassert (\<not> c)
       (let (nx, l) = s in
        kbind (if tl_head l = None then kassert (tl_tail l = None) (Inr (l\<lparr>tl_tail := Some thread\<rparr>))
               else Inr l)
          (\<lambda>l. Inr (set_link (tl_index l) thread (tl_head l) nx, l\<lparr>tl_head := Some thread\<rparr>)))))"

definition ThreadListInsert :: "'t tl_state \<Rightarrow> 't \<Rightarrow> 't tl_state kres option" where
  "ThreadListInsert s thread =
     Option.bind (ThreadListContains s thread) (\<lambda>c. Some (kassert (\<not> c)
       (let (nx, l) = s in
        kbind (case tl_tail l of
                 None \<Rightarrow> kassert (tl_head l = None) (Inr (nx, l\<lparr>tl_head := Some thread\<rparr>))
               | Some t \<Rightarrow> Inr (set_link (tl_index l) t (Some thread) nx, l))
          (\<lambda>(nx, l). Inr (set_link (tl_index l) thread None nx, l\<lparr>tl_tail := Some thread\<rparr>)))))"

definition tl_ProperDelete :: "'t tl_state \<Rightarrow> 't \<Rightarrow> 't option \<Rightarrow> 't tl_state kres" where
  "tl_ProperDelete s iter prev = (let (nx, l) = s; after = nx (tl_index l) iter;
     (nx, l) = (if Some iter = tl_head l then (nx, l\<lparr>tl_head := after\<rparr>)
                else (case prev of None \<Rightarrow> nx | Some p \<Rightarrow> set_link (tl_index l) p after nx, l));
     l = (if Some iter = tl_tail l then l\<lparr>tl_tail := prev\<rparr> else l)
     in if tl_head l = None then kassert (tl_tail l = None) (Inr (nx, l)) else Inr (nx, l))"

partial_function (option) delete_index_loop ::
  "'t tl_state \<Rightarrow> int \<Rightarrow> int \<Rightarrow> 't option \<Rightarrow> 't option \<Rightarrow> 't tl_state kres option" where
  "delete_index_loop s index i prev iter =
     (case iter of
        None \<Rightarrow> Some (Inl PANIC_THREAD_LIST)
      | Some t \<Rightarrow> if i = index then Some (tl_ProperDelete s t prev)
                  else delete_index_loop s index (i + 1) (Some t) (fst s (tl_index (snd s)) t))"

definition ThreadListDeleteIndex :: "'t tl_state \<Rightarrow> int \<Rightarrow> 't tl_state kres option" where
  "ThreadListDeleteIndex s index =
     (if index \<ge> 0 then delete_index_loop s index 0 None (tl_head (snd s))
      else Some (Inl PANIC_ASSERTION_FAILURE))"

definition ThreadListDelete :: "'t tl_state \<Rightarrow> 't \<Rightarrow> 't tl_state kres option" where
  "ThreadListDelete s thread = Option.bind (ThreadListGetIndex s thread) (ThreadListDeleteIndex s)"

definition ThreadListDeleteTop :: "'t tl_state \<Rightarrow> ('t tl_state \<times> 't) kres option" where
  "ThreadListDeleteTop s = (let (nx, l) = s in
     case tl_head l of
       None \<Rightarrow> None
     | Some tp \<Rightarrow>
         let l = (if tl_head l = tl_tail l then l\<lparr>tl_tail := None\<rparr> else l);
             l = l\<lparr>tl_head := nx (tl_index l) tp\<rparr>
         in Some (if tl_head l = None then kassert (tl_tail l = None) (Inr ((nx, l), tp))
                  else Inr ((nx, l), tp)))"

text \<open>The queues of threads these operations implement.\<close>

definition tq_insert :: "'t list \<Rightarrow> 't \<Rightarrow> 't list kres" where
  "tq_insert ts t = kassert (t \<notin> set ts) (Inr (ts @ [t]))"

definition tq_insert_front :: "'t list \<Rightarrow> 't \<Rightarrow> 't list kres" where
  "tq_insert_front ts t = kassert (t \<notin> set ts) (Inr (t # ts))"

definition tq_delete :: "'t list \<Rightarrow> 't \<Rightarrow> 't list kres" where
  "tq_delete ts t = kassert (t \<in> set ts) (Inr (remove1 t ts))"

text \<open>Inserting several threads in turn, and taking the top off several times.\<close>

fun insert_all :: "('s \<Rightarrow> 't \<Rightarrow> 's kres option) \<Rightarrow> 's \<Rightarrow> 't list \<Rightarrow> 's kres option" where
  "insert_all ins s [] = Some (Inr s)"
| "insert_all ins s (t # ts) = obind (ins s t) (\<lambda>s. insert_all ins s ts)"

fun take_tops :: "('s \<Rightarrow> ('s \<times> 't) kres option) \<Rightarrow> nat \<Rightarrow> 's \<Rightarrow> 't list kres option" where
  "take_tops tp 0 s = Some (Inr [])"
| "take_tops tp (Suc n) s =
     obind (tp s) (\<lambda>(s, t). obind (take_tops tp n s) (\<lambda>ts. Some (Inr (t # ts))))"

definition tl_rep :: "'t tl_state \<Rightarrow> 't list \<Rightarrow> bool" where
  "tl_rep s ts \<longleftrightarrow> chain (fst s (tl_index (snd s))) (tl_head (snd s)) ts None \<and> tl_tail (snd s) = tail_of ts"

text \<open>An operation on one list changes no link of another index and no link of a thread that is
  neither in the list nor the argument: other lists are not disturbed.\<close>

definition only_links :: "'t tl_state \<Rightarrow> 't set \<Rightarrow> 't tl_state \<Rightarrow> bool" where
  "only_links s A s' \<longleftrightarrow> tl_index (snd s') = tl_index (snd s) \<and>
     (\<forall>i t. i \<noteq> tl_index (snd s) \<or> t \<notin> A \<longrightarrow> fst s' i t = fst s i t)"

subsection \<open>Refinement\<close>

lemma set_link_simps [simp]:
  "set_link i t u nx i = (nx i)(t := u)" "i \<noteq> j \<Longrightarrow> set_link i t u nx j = nx j"
  by (simp_all add: set_link_def)

lemma tl_rep_distinct: "tl_rep s ts \<Longrightarrow> distinct ts"
  unfolding tl_rep_def by (blast intro: chain_to_null_distinct)

lemma tl_rep_Init: "tl_rep (nx, ThreadListInit i) []"
  by (simp add: tl_rep_def ThreadListInit_def)

lemma get_index_loop_chain:
  "chain nx iter ts None \<Longrightarrow> get_index_loop nx t iter i = Some (if t \<in> set ts then i + index_of t ts else -1)"
proof (induction ts arbitrary: iter i)
  case Nil
  then show ?case by (subst get_index_loop.simps) simp
next
  case (Cons c ts)
  then show ?case by (subst get_index_loop.simps) (auto simp: Let_def index_of_eq_minus1)
qed

lemma ThreadListGetIndex_rep: "tl_rep s ts \<Longrightarrow> ThreadListGetIndex s t = Some (index_of t ts)"
  by (auto simp: ThreadListGetIndex_def tl_rep_def get_index_loop_chain)

lemma ThreadListContains_rep: "tl_rep s ts \<Longrightarrow> ThreadListContains s t = Some (t \<in> set ts)"
  by (simp add: ThreadListContains_def ThreadListGetIndex_rep index_of_eq_minus1)

lemma ThreadListInsertAtFront_rep:
  assumes "tl_rep s ts"
  shows "if t \<in> set ts then ThreadListInsertAtFront s t = Some (Inl PANIC_ASSERTION_FAILURE)
         else \<exists>s'. ThreadListInsertAtFront s t = Some (Inr s') \<and> tl_rep s' (t # ts) \<and>
                   only_links s (insert t (set ts)) s'"
proof (cases "t \<in> set ts")
  case False
  obtain nx l where s: "s = (nx, l)" by (cases s)
  have "tl_head l = None \<longleftrightarrow> ts = []" using assms by (cases ts) (auto simp: tl_rep_def s)
  with False assms show ?thesis
    using ThreadListContains_rep [OF assms, of t]
    by (auto simp: ThreadListInsertAtFront_def tl_rep_def s Let_def only_links_def set_link_def tail_of_def)
qed (simp add: ThreadListInsertAtFront_def ThreadListContains_rep [OF assms])

lemma ThreadListInsert_rep:
  assumes "tl_rep s ts"
  shows "if t \<in> set ts then ThreadListInsert s t = Some (Inl PANIC_ASSERTION_FAILURE)
         else \<exists>s'. ThreadListInsert s t = Some (Inr s') \<and> tl_rep s' (ts @ [t]) \<and>
                   only_links s (insert t (set ts)) s'"
proof (cases "t \<in> set ts")
  case False
  obtain nx l where s: "s = (nx, l)" by (cases s)
  let ?i = "tl_index l"
  let ?nx = "case tail_of ts of None \<Rightarrow> nx | Some u \<Rightarrow> set_link ?i u (Some t) nx"
  let ?s = "(set_link ?i t None ?nx, l\<lparr>tl_head := if ts = [] then Some t else tl_head l, tl_tail := Some t\<rparr>)"
  have head: "tl_head l = None \<longleftrightarrow> ts = []" using assms by (cases ts) (auto simp: tl_rep_def s)
  have eq: "ThreadListInsert s t = Some (Inr ?s)"
    using False assms head ThreadListContains_rep [OF assms, of t]
    by (auto simp: ThreadListInsert_def tl_rep_def s Let_def split: option.split)
  have "set_link ?i t None ?nx ?i =
      (case tail_of ts of None \<Rightarrow> nx ?i | Some u \<Rightarrow> (nx ?i)(u := Some t))(t := None)"
    by (simp split: option.split)
  then have "tl_rep ?s (ts @ [t])"
    using chain_snoc [of "nx ?i" "tl_head l" ts t] assms False by (simp add: tl_rep_def s)
  moreover have "only_links s (insert t (set ts)) ?s"
    by (auto simp: only_links_def s set_link_def tail_of_def)
  ultimately show ?thesis using eq False by auto
qed (simp add: ThreadListInsert_def ThreadListContains_rep [OF assms])

lemma tl_ProperDelete_rep:
  assumes rep: "tl_rep s (ds @ c # es)"
  shows "\<exists>s'. tl_ProperDelete s c (tail_of ds) = Inr s' \<and> tl_rep s' (ds @ es) \<and>
              only_links s (set (ds @ c # es)) s'"
proof -
  obtain nx l where s: "s = (nx, l)" by (cases s)
  let ?i = "tl_index l"
  let ?nx = "case tail_of ds of None \<Rightarrow> nx | Some p \<Rightarrow> set_link ?i p (nx ?i c) nx"
  let ?l = "l\<lparr>tl_head := if ds = [] then nx ?i c else tl_head l,
              tl_tail := if es = [] then tail_of ds else tl_tail l\<rparr>"
  have dist: "distinct (ds @ c # es)" by (rule tl_rep_distinct [OF rep])
  have ch: "chain (nx ?i) (tl_head l) (ds @ c # es) None" using rep by (simp add: tl_rep_def s)
  have head: "Some c = tl_head l \<longleftrightarrow> ds = []" using ch dist by (cases ds) auto
  have tl: "Some c = tl_tail l \<longleftrightarrow> es = []"
    using rep dist by (cases es rule: rev_cases) (auto simp: tl_rep_def s tail_of_def)
  have "?nx ?i = (case tail_of ds of None \<Rightarrow> nx ?i | Some p \<Rightarrow> (nx ?i)(p := nx ?i c))"
    by (simp split: option.split)
  then have ch': "chain (?nx ?i) (tl_head ?l) (ds @ es) None" using chain_unlink [OF ch] by simp
  have tail': "tl_tail ?l = tail_of (ds @ es)" using rep by (auto simp: tl_rep_def s tail_of_def)
  have "tl_head ?l = None \<longrightarrow> tl_tail ?l = None"
    using ch' tail' by (cases "ds @ es") auto
  then have "tl_ProperDelete s c (tail_of ds) = Inr (?nx, ?l)"
    using head tl by (auto simp: tl_ProperDelete_def s Let_def)
  moreover have "tl_rep (?nx, ?l) (ds @ es)" using ch' tail' by (simp add: tl_rep_def)
  moreover have "only_links s (set (ds @ c # es)) (?nx, ?l)"
    by (auto simp: only_links_def s set_link_def tail_of_def)
  ultimately show ?thesis by blast
qed

lemma delete_index_loop_chain:
  "chain (fst s (tl_index (snd s))) iter cs None \<Longrightarrow> k < length cs \<Longrightarrow>
   delete_index_loop s (i + int k) i (tail_of ds) iter =
     Some (tl_ProperDelete s (cs ! k) (tail_of (ds @ take k cs)))"
proof (induction cs arbitrary: iter ds i k)
  case (Cons c cs)
  show ?case
  proof (cases k)
    case 0
    with Cons.prems show ?thesis by (subst delete_index_loop.simps) simp
  next
    case (Suc j)
    with Cons.prems Cons.IH [of "fst s (tl_index (snd s)) c" j "i + 1" "ds @ [c]"]
    show ?thesis by (subst delete_index_loop.simps) (simp add: add.assoc)
  qed
qed simp

lemma ThreadListDelete_rep:
  assumes rep: "tl_rep s ts"
  shows "if t \<in> set ts
         then \<exists>s'. ThreadListDelete s t = Some (Inr s') \<and> tl_rep s' (remove1 t ts) \<and>
                   only_links s (set ts) s'
         else ThreadListDelete s t = Some (Inl PANIC_ASSERTION_FAILURE)"
proof (cases "t \<in> set ts")
  case True
  then obtain ds es where ts: "ts = ds @ t # es" "t \<notin> set ds" by (meson split_list_first)
  have "ThreadListDelete s t = Some (tl_ProperDelete s t (tail_of ds))"
    using delete_index_loop_chain [of s "tl_head (snd s)" ts "length ds" 0 "[]"] rep ts
    by (simp add: ThreadListDelete_def ThreadListGetIndex_rep [OF rep] ThreadListDeleteIndex_def
        index_of_append tl_rep_def)
  moreover have "remove1 t ts = ds @ es" using ts by (simp add: remove1_append)
  ultimately show ?thesis using tl_ProperDelete_rep [of s ds t es] rep ts True by auto
next
  case False
  then show ?thesis
    by (simp add: ThreadListDelete_def ThreadListGetIndex_rep [OF rep] ThreadListDeleteIndex_def)
qed

lemma ThreadListDeleteTop_rep:
  assumes rep: "tl_rep s (t # ts)"
  shows "\<exists>s'. ThreadListDeleteTop s = Some (Inr (s', t)) \<and> tl_rep s' ts \<and> only_links s {} s'"
proof -
  obtain nx l where s: "s = (nx, l)" by (cases s)
  have "t \<notin> set ts" using tl_rep_distinct [OF rep] by simp
  then have "tl_head l = tl_tail l \<longleftrightarrow> ts = []"
    using rep by (auto simp: tl_rep_def s tail_of_def)
  moreover have "nx (tl_index l) t = None \<longleftrightarrow> ts = []"
    using rep by (cases ts) (auto simp: tl_rep_def s)
  ultimately show ?thesis
    using rep by (auto simp: ThreadListDeleteTop_def tl_rep_def s Let_def only_links_def tail_of_def)
qed

subsection \<open>The thread queue interface\<close>

text \<open>What the scheduler relies on: each operation on a list structure that represents a queue
  of threads does what the queue operation does, panics included.\<close>

locale thread_queue =
  fixes rep :: "'s \<Rightarrow> 't list \<Rightarrow> bool"
    and insert :: "'s \<Rightarrow> 't \<Rightarrow> 's kres option"
    and insert_front :: "'s \<Rightarrow> 't \<Rightarrow> 's kres option"
    and delete :: "'s \<Rightarrow> 't \<Rightarrow> 's kres option"
    and delete_top :: "'s \<Rightarrow> ('s \<times> 't) kres option"
  assumes insert: "rep s ts \<Longrightarrow> case tq_insert ts t of
          Inl e \<Rightarrow> insert s t = Some (Inl e)
        | Inr ts' \<Rightarrow> \<exists>s'. insert s t = Some (Inr s') \<and> rep s' ts'"
    and insert_front: "rep s ts \<Longrightarrow> case tq_insert_front ts t of
          Inl e \<Rightarrow> insert_front s t = Some (Inl e)
        | Inr ts' \<Rightarrow> \<exists>s'. insert_front s t = Some (Inr s') \<and> rep s' ts'"
    and delete: "rep s ts \<Longrightarrow> case tq_delete ts t of
          Inl e \<Rightarrow> delete s t = Some (Inl e)
        | Inr ts' \<Rightarrow> \<exists>s'. delete s t = Some (Inr s') \<and> rep s' ts'"
    and delete_top: "rep s (t # ts) \<Longrightarrow> \<exists>s'. delete_top s = Some (Inr (s', t)) \<and> rep s' ts"
begin

lemma insert_new: "rep s ts \<Longrightarrow> t \<notin> set ts \<Longrightarrow> \<exists>s'. insert s t = Some (Inr s') \<and> rep s' (ts @ [t])"
  using insert [of s ts t] by (simp add: tq_insert_def)

lemma insert_all_rep:
  "rep s ts \<Longrightarrow> distinct (ts @ us) \<Longrightarrow> \<exists>s'. insert_all insert s us = Some (Inr s') \<and> rep s' (ts @ us)"
proof (induction us arbitrary: s ts)
  case (Cons u us)
  then obtain s1 where s1: "insert s u = Some (Inr s1)" "rep s1 (ts @ [u])"
    using insert_new [of s ts u] by auto
  from Cons.IH [OF s1(2)] Cons.prems(2) s1(1) show ?case by simp
qed simp

lemma take_tops_rep: "rep s ts \<Longrightarrow> take_tops delete_top (length ts) s = Some (Inr ts)"
proof (induction ts arbitrary: s)
  case (Cons t ts)
  from delete_top [OF Cons.prems] obtain s' where "delete_top s = Some (Inr (s', t))" "rep s' ts" by blast
  with Cons.IH show ?case by simp
qed simp

lemma fifo:
  "rep s [] \<Longrightarrow> distinct ts \<Longrightarrow>
   obind (insert_all insert s ts) (take_tops delete_top (length ts)) = Some (Inr ts)"
  using insert_all_rep [of s "[]" ts] take_tops_rep [of _ ts] by auto

end

interpretation tl: thread_queue tl_rep ThreadListInsert ThreadListInsertAtFront ThreadListDelete
  ThreadListDeleteTop
proof (unfold_locales, goal_cases)
  case (1 s ts t)
  then show ?case using ThreadListInsert_rep [OF 1, of t] by (auto simp: tq_insert_def split: if_splits)
next
  case (2 s ts t)
  then show ?case using ThreadListInsertAtFront_rep [OF 2, of t]
    by (auto simp: tq_insert_front_def split: if_splits)
next
  case (3 s ts t)
  then show ?case using ThreadListDelete_rep [OF 3, of t] by (auto simp: tq_delete_def split: if_splits)
next
  case (4 s t ts)
  from ThreadListDeleteTop_rep [OF 4] show ?case by auto
qed

subsection \<open>Properties\<close>

text \<open>C10.  A thread list is a first-in first-out queue: inserting distinct threads into an
  empty list and then taking the top as often gives them back in the order of insertion, with no
  assertion failing, whatever the threads' links held before.\<close>

theorem ThreadList_fifo:
  assumes "distinct ts"
  shows "obind (insert_all ThreadListInsert (nx, ThreadListInit i) ts)
           (take_tops ThreadListDeleteTop (length ts)) = Some (Inr ts)"
  using tl.fifo [OF tl_rep_Init assms] .

theorem ThreadList_fifo_witness:
  "obind (insert_all ThreadListInsert (\<lambda>_ _. None, ThreadListInit 0) [3, 1, 2 :: nat])
     (take_tops ThreadListDeleteTop 3) = Some (Inr [3, 1, 2])"
  using ThreadList_fifo [of "[3, 1, 2 :: nat]" "\<lambda>_ _. None" 0] by (simp add: eval_nat_numeral)

text \<open>C11.  Each thread list operation does to the represented queue what its name says, fails
  an assertion exactly when a thread is inserted twice or an absent one deleted, and writes no
  link of another list: links of other indices and of threads outside the list are unchanged.\<close>

theorem ThreadList_operations:
  assumes "tl_rep s ts"
  shows "(if t \<in> set ts then ThreadListInsert s t = Some (Inl PANIC_ASSERTION_FAILURE)
          else \<exists>s'. ThreadListInsert s t = Some (Inr s') \<and> tl_rep s' (ts @ [t]) \<and>
                    only_links s (insert t (set ts)) s') \<and>
         (if t \<in> set ts then ThreadListInsertAtFront s t = Some (Inl PANIC_ASSERTION_FAILURE)
          else \<exists>s'. ThreadListInsertAtFront s t = Some (Inr s') \<and> tl_rep s' (t # ts) \<and>
                    only_links s (insert t (set ts)) s') \<and>
         (if t \<in> set ts
          then \<exists>s'. ThreadListDelete s t = Some (Inr s') \<and> tl_rep s' (remove1 t ts) \<and>
                    only_links s (set ts) s'
          else ThreadListDelete s t = Some (Inl PANIC_ASSERTION_FAILURE))"
  by (intro conjI ThreadListInsert_rep [OF assms] ThreadListInsertAtFront_rep [OF assms]
      ThreadListDelete_rep [OF assms])

theorem ThreadList_operations_witness:
  "\<exists>s'. ThreadListInsert (\<lambda>_ _. None, ThreadListInit 0) (4 :: nat) = Some (Inr s') \<and> tl_rep s' [4]"
  using ThreadList_operations [OF tl_rep_Init, where nx1 = "\<lambda>_ _. None" and i1 = 0 and t = "4 :: nat"] by auto

end
