(* ===== verification/Scheduler.thy ===== *)
theory Scheduler
  imports ThreadList "HOL-Library.Signed_Division"
begin

text \<open>
  Threads, the ready list, semaphores and the scheduler: kernel/thread/thread.c and
  kernel/sync/semaphore.c, for one CPU.  Everything here runs under the scheduler lock, so one
  operation is one atomic step on the state \<open>sys\<close>.  The ready, sleep and waiting lists are the
  thread queues of theory ThreadList.  Threads and semaphores are identified by numbers, which
  stand for their addresses.

  An operation that blocks the calling thread only changes the thread's state and postpones a
  task switch; the C function returns to its caller when the thread runs again.  Such an
  operation is given in two parts: the step up to the release of the scheduler lock, and the
  result computed after the thread has been resumed.  Reading through a null thread or semaphore
  pointer is the unhandled kernel exception of irq.c.
\<close>

datatype thread_state =
    RUNNING | READY | SLEEPING | WAITING_FOR_SEMAPHORE | WAITING_FOR_SEMAPHORE_WITH_TIMEOUT
  | TERMINATED | STOPPED | WAITING_FOR_SIGNAL

abbreviation (input) SCHEDULE_POLICY_FIXED :: int where "SCHEDULE_POLICY_FIXED \<equiv> 0"
abbreviation (input) SCHEDULE_POLICY_USER_HIGHER :: int where "SCHEDULE_POLICY_USER_HIGHER \<equiv> 1"
abbreviation (input) SCHEDULE_POLICY_USER_NORMAL :: int where "SCHEDULE_POLICY_USER_NORMAL \<equiv> 2"
abbreviation (input) SCHEDULE_POLICY_USER_LOWER :: int where "SCHEDULE_POLICY_USER_LOWER \<equiv> 3"

type_synonym tid = nat

record thread =
  th_state :: thread_state
  th_time_used :: u64
  th_priority :: int
  th_schedule_policy :: int
  th_timed_out :: bool
  th_timed_out_due_to_signal :: bool
  th_needs_termination :: bool
  th_needs_stopping :: bool
  th_waiting_on_semaphore :: "nat option"
  th_signal_intr :: bool
  th_pending_signals :: u32
  th_blocked_signals :: u32
  th_prev_blocked_signals :: u32
  th_user_common_signal_handler :: u32
  th_timeslice_expiry :: u64
  th_gifted_timeslice :: u64
  th_sleep_expiry :: u64
  th_alarm_id :: int

record semaphore =
  sem_max_count :: int
  sem_current_count :: int
  sem_waiting_list :: "tid list"

text \<open>An alarm of timer.c: the wakeup time and the callback with its argument.\<close>

record alarm =
  al_wakeup_time :: u64
  al_callback :: nat
  al_arg :: nat

text \<open>A message box of message.c: the payloads sent and not yet received, and its semaphore.\<close>

record msgbox =
  mb_data :: "nat list"
  mb_sem :: nat

text \<open>The calls timer.c defers to the standard interrupt level.\<close>

datatype deferred_call = WakeupCall | AlarmCall nat nat

text \<open>\<open>deferred_calls\<close> are those calls that wait in the CPU's queue of theory Irql.\<close>

record sys =
  threads :: "tid \<Rightarrow> thread"
  current_thread :: "tid option"
  ready_list :: "tid list"
  sleep_list :: "tid list"
  sems :: "nat \<Rightarrow> semaphore"
  system_time :: u64
  postponed_task_switch :: bool
  prev_time :: u64
  scheduler_prevent :: int
  msgboxes :: "nat \<Rightarrow> msgbox"
  cleaner_mbox :: nat
  alarms :: "alarm list"
  num_alarms_installed :: int
  deferred_calls :: "deferred_call list"
  sleep_wakeups_posted :: int

definition upd_thread :: "tid \<Rightarrow> (thread \<Rightarrow> thread) \<Rightarrow> sys \<Rightarrow> sys" where
  "upd_thread t f s = s\<lparr>threads := (threads s)(t := f (threads s t))\<rparr>"

definition upd_sem :: "nat \<Rightarrow> (semaphore \<Rightarrow> semaphore) \<Rightarrow> sys \<Rightarrow> sys" where
  "upd_sem i f s = s\<lparr>sems := (sems s)(i := f (sems s i))\<rparr>"

definition GetSystemTimer :: "sys \<Rightarrow> u64" where
  "GetSystemTimer s = system_time s"

definition GetThread :: "sys \<Rightarrow> tid kres" where
  "GetThread s = (case current_thread s of None \<Rightarrow> Inl PANIC_UNHANDLED_KERNEL_EXCEPTION | Some t \<Rightarrow> Inr t)"

text \<open>Blocking and unblocking (thread.c).\<close>

definition BlockThread :: "sys \<Rightarrow> thread_state \<Rightarrow> sys kres" where
  "BlockThread s reason =
     kassert (reason \<noteq> READY \<and> reason \<noteq> RUNNING)
       (case current_thread s of
          None \<Rightarrow> Inl PANIC_ASSERTION_FAILURE
        | Some c \<Rightarrow> kassert (th_state (threads s c) = RUNNING)
            (Inr ((upd_thread c (th_state_update (\<lambda>_. reason)) s)\<lparr>postponed_task_switch := True\<rparr>)))"

definition CancelSemaphoreOfThread :: "sys \<Rightarrow> tid \<Rightarrow> sys kres" where
  "CancelSemaphoreOfThread s t =
     (case th_waiting_on_semaphore (threads s t) of
        None \<Rightarrow> Inl PANIC_UNHANDLED_KERNEL_EXCEPTION
      | Some i \<Rightarrow> kassert (t \<in> set (sem_waiting_list (sems s i)))
          (kbind (tq_delete (sem_waiting_list (sems s i)) t)
             (\<lambda>ws. Inr (upd_sem i (sem_waiting_list_update (\<lambda>_. ws)) s))))"

definition UnblockThread :: "sys \<Rightarrow> tid \<Rightarrow> sys kres" where
  "UnblockThread s t =
     kbind (if th_state (threads s t) = WAITING_FOR_SEMAPHORE_WITH_TIMEOUT
            then CancelSemaphoreOfThread s t else Inr s)
       (\<lambda>s. kbind (tq_insert (ready_list s) t)
         (\<lambda>rs. kbind (GetThread s)
           (\<lambda>c. Inr (if th_priority (threads s t) < th_priority (threads s c)
                     then s\<lparr>ready_list := rs, postponed_task_switch := True\<rparr>
                     else s\<lparr>ready_list := rs\<rparr>))))"

definition UnblockThreadGiftingTimeslice :: "sys \<Rightarrow> tid \<Rightarrow> sys kres" where
  "UnblockThreadGiftingTimeslice s t =
     kbind (GetThread s) (\<lambda>c.
       let sys_time = GetSystemTimer s;
           current_expiry = th_timeslice_expiry (threads s c);
           s = (if current_expiry \<ge> sys_time
                then upd_thread t (\<lambda>th. th\<lparr>th_gifted_timeslice := th_gifted_timeslice th + (current_expiry - sys_time)\<rparr>) s
                else s)
       in kbind (if th_state (threads s t) = WAITING_FOR_SEMAPHORE_WITH_TIMEOUT
                 then CancelSemaphoreOfThread s t else Inr s)
            (\<lambda>s. kbind (tq_insert_front (ready_list s) t)
              (\<lambda>rs. Inr ((upd_thread c (th_timeslice_expiry_update (\<lambda>_. sys_time)) s)
                           \<lparr>ready_list := rs, postponed_task_switch := True\<rparr>))))"

text \<open>The sleep list (timer.c).\<close>

definition QueueForSleep :: "sys \<Rightarrow> tid \<Rightarrow> sys kres" where
  "QueueForSleep s t =
     kbind (tq_insert (sleep_list s) t)
       (\<lambda>sl. Inr ((upd_thread t (th_timed_out_update (\<lambda>_. False)) s)\<lparr>sleep_list := sl\<rparr>))"

definition TryDequeueForSleep :: "sys \<Rightarrow> tid \<Rightarrow> sys \<times> bool" where
  "TryDequeueForSleep s t =
     (if t \<in> set (sleep_list s) then (s\<lparr>sleep_list := remove1 t (sleep_list s)\<rparr>, True) else (s, False))"

text \<open>Semaphores (semaphore.c).  The count goes up on acquisition, to at most the maximum.\<close>

definition CreateSemaphore :: "int \<Rightarrow> int \<Rightarrow> semaphore" where
  "CreateSemaphore max_count initial_count =
     \<lparr>sem_max_count = max_count, sem_current_count = initial_count, sem_waiting_list = []\<rparr>"

definition FillSemaphore :: "sys \<Rightarrow> nat \<Rightarrow> sys \<times> int" where
  "FillSemaphore s i = (let sem = sems s i in
     if sem_current_count sem \<le> sem_max_count sem
     then (upd_sem i (sem_current_count_update (\<lambda>_. sem_max_count sem)) s,
           sem_max_count sem - sem_current_count sem)
     else (s, -1))"

text \<open>\<open>True\<close> says that the calling thread has been blocked and the result is the one computed
  when it resumes.\<close>

definition AcquireSemaphore :: "sys \<Rightarrow> nat \<Rightarrow> int \<Rightarrow> (sys \<times> bool) kres" where
  "AcquireSemaphore s i timeout_ms =
     (let sem = sems s i in
      case current_thread s of
        None \<Rightarrow> if sem_current_count sem < sem_max_count sem
                then Inr (upd_sem i (sem_current_count_update (\<lambda>c. c + 1)) s, False)
                else Inl PANIC_SEM_BLOCK_WITHOUT_THREAD
      | Some thr \<Rightarrow>
          let s = upd_thread thr (th_timed_out_update (\<lambda>_. False)) s in
          if sem_current_count sem < sem_max_count sem
          then Inr (upd_sem i (sem_current_count_update (\<lambda>c. c + 1)) s, False)
          else let s = upd_thread thr (th_waiting_on_semaphore_update (\<lambda>_. Some i)) s in
            if timeout_ms = 0
            then Inr (upd_thread thr (th_timed_out_update (\<lambda>_. True)) s, False)
            else if timeout_ms = -1
            then kbind (tq_insert (sem_waiting_list sem) thr)
                   (\<lambda>ws. kbind (BlockThread (upd_sem i (sem_waiting_list_update (\<lambda>_. ws)) s)
                                  WAITING_FOR_SEMAPHORE)
                      (\<lambda>s. Inr (s, True)))
            else kbind (tq_insert (sem_waiting_list sem) thr)
                   (\<lambda>ws. let s = upd_thread thr (th_sleep_expiry_update
                                    (\<lambda>_. GetSystemTimer s + word_of_int timeout_ms * 1000 * 1000))
                                  (upd_sem i (sem_waiting_list_update (\<lambda>_. ws)) s)
                     in kbind (QueueForSleep s thr)
                       (\<lambda>s. kbind (BlockThread s WAITING_FOR_SEMAPHORE_WITH_TIMEOUT)
                         (\<lambda>s. Inr (s, True)))))"

definition AcquireSemaphore_result :: "sys \<Rightarrow> int \<Rightarrow> errno" where
  "AcquireSemaphore_result s timeout_ms =
     (case current_thread s of
        None \<Rightarrow> ESUCCESS
      | Some thr \<Rightarrow> if th_timed_out (threads s thr)
                    then (if timeout_ms = 0 then EAGAIN else ETIMEDOUT) else ESUCCESS)"

definition DecrementSemaphore :: "sys \<Rightarrow> nat \<Rightarrow> bool \<Rightarrow> sys kres" where
  "DecrementSemaphore s i first =
     (let sem = sems s i; unblock = (if first then UnblockThreadGiftingTimeslice else UnblockThread) in
      case sem_waiting_list sem of
        [] \<Rightarrow> if sem_current_count sem = 0 then Inl PANIC_NEGATIVE_SEMAPHORE
              else Inr (upd_sem i (sem_current_count_update (\<lambda>c. c - 1)) s)
      | tp # rest \<Rightarrow>
          let s = upd_sem i (sem_waiting_list_update (\<lambda>_. rest)) s in
          if th_state (threads s tp) = WAITING_FOR_SEMAPHORE_WITH_TIMEOUT
          then let (s, on_sleep_queue) = TryDequeueForSleep s tp in
               if on_sleep_queue
               then unblock (upd_thread tp (th_state_update (\<lambda>_. READY)) s) tp
               else Inr s
          else unblock s tp)"

lemma UnblockThread_sems:
  "th_state (threads s t) \<noteq> WAITING_FOR_SEMAPHORE_WITH_TIMEOUT \<Longrightarrow>
   UnblockThread s t = Inr s' \<or> UnblockThreadGiftingTimeslice s t = Inr s' \<Longrightarrow> sems s' = sems s"
  by (auto simp: UnblockThread_def UnblockThreadGiftingTimeslice_def upd_thread_def Let_def
      split: if_splits)

lemma DecrementSemaphore_measure:
  assumes "DecrementSemaphore s i first = Inr s'"
  shows "if sem_waiting_list (sems s i) = []
         then sem_waiting_list (sems s' i) = [] \<and>
              sem_current_count (sems s' i) = sem_current_count (sems s i) - 1
         else sem_waiting_list (sems s' i) = tl (sem_waiting_list (sems s i)) \<and>
              sem_current_count (sems s' i) = sem_current_count (sems s i)"
proof (cases "sem_waiting_list (sems s i)")
  case Nil
  with assms show ?thesis by (auto simp: DecrementSemaphore_def upd_sem_def Let_def split: if_splits)
next
  case (Cons tp rest)
  let ?s = "upd_sem i (sem_waiting_list_update (\<lambda>_. rest)) s"
  have "sems s' = sems ?s"
    using assms Cons
      UnblockThread_sems [of "upd_thread tp (th_state_update (\<lambda>_. READY)) (?s\<lparr>sleep_list := remove1 tp (sleep_list s)\<rparr>)" tp s']
      UnblockThread_sems [of ?s tp s']
    by (auto simp: DecrementSemaphore_def Let_def TryDequeueForSleep_def upd_thread_def upd_sem_def
        split: if_splits)
  then show ?thesis using Cons by (simp add: upd_sem_def)
qed

text \<open>The do-while loop of \<^verbatim>\<open>ReleaseSemaphoreEx\<close>; it also gives the number of decrements.\<close>

function release_loop :: "sys \<Rightarrow> nat \<Rightarrow> int \<Rightarrow> int \<Rightarrow> (sys \<times> int) kres" where
  "release_loop s i cnt decrements =
     (case DecrementSemaphore s i (decrements + 1 = 0) of
        Inl e \<Rightarrow> Inl e
      | Inr s' \<Rightarrow>
          if cnt - 1 \<noteq> 0 \<and> sem_current_count (sems s' i) > 0
          then release_loop s' i (cnt - 1) (decrements + 1)
          else Inr (s', decrements + 1))"
  by pat_completeness auto
termination
  by (relation "measure (\<lambda>(s, i, cnt, decrements).
        length (sem_waiting_list (sems s i)) + nat (sem_current_count (sems s i)))")
    (auto dest!: DecrementSemaphore_measure split: if_splits)

declare release_loop.simps [simp del]

definition ReleaseSemaphoreEx :: "sys \<Rightarrow> nat \<Rightarrow> int \<Rightarrow> (sys \<times> int) kres" where
  "ReleaseSemaphoreEx s i cnt =
     (if cnt < 0 then Inr (s, 0)
      else kassert (sem_current_count (sems s i) > 0) (release_loop s i cnt 0))"

definition ReleaseSemaphore :: "sys \<Rightarrow> nat \<Rightarrow> sys kres" where
  "ReleaseSemaphore s i = kbind (ReleaseSemaphoreEx s i 1) (\<lambda>(s, _). Inr s)"

definition DestroySemaphore :: "sys \<Rightarrow> nat \<Rightarrow> int \<Rightarrow> errno" where
  "DestroySemaphore s i flags = (let sem = sems s i in
     if (flags = 1 \<and> sem_current_count sem \<noteq> 0) \<or>
        (flags = 2 \<and> sem_current_count sem \<noteq> sem_max_count sem)
     then EBUSY else ESUCCESS)"

text \<open>Message boxes (message.c).  A payload is one value, for instance a thread's address.  The
  semaphore of a box starts at its maximum, so that each message sent allows one acquisition.\<close>

abbreviation (input) SEM_BIG_NUMBER :: int where "SEM_BIG_NUMBER \<equiv> 2 ^ 30"

definition SendMessage :: "sys \<Rightarrow> nat \<Rightarrow> nat \<Rightarrow> sys kres" where
  "SendMessage s m payload =
     (let mbox = msgboxes s m;
          s = s\<lparr>msgboxes := (msgboxes s)(m := mbox\<lparr>mb_data := mb_data mbox @ [payload]\<rparr>)\<rparr>
      in ReleaseSemaphore s (mb_sem mbox))"

text \<open>The first part of \<^verbatim>\<open>ReceiveMessage\<close> is the acquisition; this is what follows once the
  semaphore has been acquired.\<close>

definition ReceiveMessage_take :: "sys \<Rightarrow> nat \<Rightarrow> (sys \<times> nat) kres" where
  "ReceiveMessage_take s m =
     (let mbox = msgboxes s m in
      case mb_data mbox of
        [] \<Rightarrow> Inl PANIC_LINKED_LIST
      | payload # rest \<Rightarrow> Inr (s\<lparr>msgboxes := (msgboxes s)(m := mbox\<lparr>mb_data := rest\<rparr>)\<rparr>, payload))"

text \<open>The scheduler (thread.c).\<close>

definition UpdateThreadTimeUsed :: "sys \<Rightarrow> tid \<Rightarrow> sys" where
  "UpdateThreadTimeUsed s c =
     (let time = GetSystemTimer s; time_elapsed = time - prev_time s
      in (upd_thread c (\<lambda>th. th\<lparr>th_time_used := th_time_used th + time_elapsed\<rparr>) s)\<lparr>prev_time := time\<rparr>)"

definition UpdateTimesliceExpiry :: "sys \<Rightarrow> tid \<Rightarrow> sys" where
  "UpdateTimesliceExpiry s c =
     upd_thread c (\<lambda>th. th\<lparr>th_timeslice_expiry := GetSystemTimer s + th_gifted_timeslice th +
         (if th_priority th = 255 then 0 else word_of_int (20 + th_priority th sdiv 4) * 1000000),
       th_gifted_timeslice := 0\<rparr>) s"

definition GetMinPriorityValueForPolicy :: "int \<Rightarrow> int" where
  "GetMinPriorityValueForPolicy policy =
     (if policy = SCHEDULE_POLICY_USER_HIGHER then 50
      else if policy = SCHEDULE_POLICY_USER_NORMAL then 100
      else if policy = SCHEDULE_POLICY_USER_LOWER then 150
      else 0)"

definition GetMaxPriorityValueForPolicy :: "int \<Rightarrow> int" where
  "GetMaxPriorityValueForPolicy policy =
     (if policy = SCHEDULE_POLICY_FIXED then 255 else GetMinPriorityValueForPolicy policy + 100)"

definition UpdatePriority :: "sys \<Rightarrow> tid \<Rightarrow> bool \<Rightarrow> sys" where
  "UpdatePriority s c yielded =
     (let policy = th_schedule_policy (threads s c) in
      if policy \<noteq> SCHEDULE_POLICY_FIXED
      then let new_val = th_priority (threads s c) + (if yielded then -1 else 1)
           in if new_val \<ge> GetMinPriorityValueForPolicy policy \<and> new_val \<le> GetMaxPriorityValueForPolicy policy
              then upd_thread c (th_priority_update (\<lambda>_. new_val)) s else s
      else s)"

text \<open>The address space switch is not part of this state.\<close>

definition SwitchToNewTask :: "sys \<Rightarrow> tid \<Rightarrow> sys" where
  "SwitchToNewTask s new_thread =
     (let s = upd_thread new_thread (th_state_update (\<lambda>_. RUNNING)) s;
          s = s\<lparr>ready_list := tl (ready_list s), current_thread := Some new_thread\<rparr>
      in UpdateTimesliceExpiry s new_thread)"

definition ScheduleWithLockHeld :: "sys \<Rightarrow> sys kres" where
  "ScheduleWithLockHeld s =
     (case (current_thread s, ready_list s) of
        (_, []) \<Rightarrow> Inr s
      | (None, new_thread # _) \<Rightarrow> Inr (SwitchToNewTask s new_thread)
      | (Some old_thread, new_thread # _) \<Rightarrow>
          if new_thread = old_thread then Inr s
          else let yielded = th_timeslice_expiry (threads s old_thread) > GetSystemTimer s;
                   s = UpdateThreadTimeUsed (UpdatePriority s old_thread yielded) old_thread
               in kbind (if th_state (threads s old_thread) = RUNNING
                         then kbind (tq_insert (ready_list s) old_thread) (\<lambda>rs. Inr (s\<lparr>ready_list := rs\<rparr>))
                         else Inr s)
                    (\<lambda>s. Inr (SwitchToNewTask s new_thread)))"

definition StopThread :: "sys \<Rightarrow> tid \<Rightarrow> sys kres" where
  "StopThread s t =
     (if current_thread s = Some t
      then BlockThread (upd_thread t (th_needs_stopping_update (\<lambda>_. False)) s) STOPPED
      else Inr (upd_thread t (th_needs_stopping_update (\<lambda>_. True)) s))"

definition TerminateThread :: "sys \<Rightarrow> tid \<Rightarrow> sys kres" where
  "TerminateThread s t =
     (if current_thread s = Some t
      then kbind (SendMessage s (cleaner_mbox s) t) (\<lambda>s. BlockThread s TERMINATED)
      else Inr (upd_thread t (th_needs_termination_update (\<lambda>_. True)) s))"

text \<open>\<^verbatim>\<open>Schedule\<close> at interrupt level \<open>irql\<close>.  When the thread switched to has to terminate,
  it blocks again and the task switch this postpones is the next call of \<^verbatim>\<open>Schedule\<close>.\<close>

definition Schedule :: "sys \<Rightarrow> int \<Rightarrow> sys kres" where
  "Schedule s irql =
     (if irql > 2 \<or> scheduler_prevent s > 0 then Inr (s\<lparr>postponed_task_switch := True\<rparr>)
      else kbind (ScheduleWithLockHeld s) (\<lambda>s. kbind (GetThread s) (\<lambda>c.
             if th_needs_termination (threads s c) then TerminateThread s c
             else if th_needs_stopping (threads s c) then StopThread s c
             else Inr s)))"

definition PreventScheduler :: "sys \<Rightarrow> sys" where
  "PreventScheduler s = s\<lparr>scheduler_prevent := scheduler_prevent s + 1\<rparr>"

definition UnpreventScheduler :: "sys \<Rightarrow> sys" where
  "UnpreventScheduler s = s\<lparr>scheduler_prevent := scheduler_prevent s - 1\<rparr>"

definition SetThreadPriority :: "sys \<Rightarrow> tid \<Rightarrow> int \<Rightarrow> int \<Rightarrow> sys \<times> errno" where
  "SetThreadPriority s t policy priority =
     (if priority < -1 \<or> priority > 255 then (s, EINVAL)
      else if policy \<noteq> -1 \<and> policy \<noteq> SCHEDULE_POLICY_FIXED \<and> policy \<noteq> SCHEDULE_POLICY_USER_LOWER \<and>
              policy \<noteq> SCHEDULE_POLICY_USER_NORMAL \<and> policy \<noteq> SCHEDULE_POLICY_USER_HIGHER then (s, EINVAL)
      else let priority = (if priority < GetMinPriorityValueForPolicy policy
                           then GetMinPriorityValueForPolicy policy else priority);
               priority = (if priority > GetMaxPriorityValueForPolicy policy
                           then GetMaxPriorityValueForPolicy policy else priority);
               s = (if policy \<noteq> -1 then upd_thread t (th_schedule_policy_update (\<lambda>_. policy)) s else s);
               s = (if priority \<noteq> -1 then upd_thread t (th_priority_update (\<lambda>_. priority)) s else s)
           in (s, ESUCCESS))"

text \<open>A new thread at the fresh address \<open>t\<close>.  The fields the C code does not initialise keep what
  the memory held.\<close>

definition CreateThreadEx :: "sys \<Rightarrow> tid \<Rightarrow> int \<Rightarrow> int \<Rightarrow> sys kres" where
  "CreateThreadEx s t policy priority =
     (let s = upd_thread t (\<lambda>th. th\<lparr>th_state := READY, th_time_used := 0, th_gifted_timeslice := 0,
            th_priority := priority, th_needs_termination := False, th_needs_stopping := False,
            th_waiting_on_semaphore := None, th_schedule_policy := policy,
            th_timeslice_expiry := GetSystemTimer s + 50, th_signal_intr := False,
            th_pending_signals := 0, th_blocked_signals := 0, th_prev_blocked_signals := 0,
            th_user_common_signal_handler := 0, th_alarm_id := -1\<rparr>) s
      in kbind (tq_insert (ready_list s) t) (\<lambda>rs. Inr (s\<lparr>ready_list := rs\<rparr>)))"

text \<open>
  The invariant of the scheduler's data.  Semaphore counts stay within their bounds and threads
  wait only on a semaphore whose count is at the maximum; a thread waiting on a semaphore is not
  ready, and is on the sleep list exactly when it waits with a timeout; a sleeping thread is not
  ready; the current thread, while its state is running, is on no list.
\<close>

definition sem_ok :: "sys \<Rightarrow> nat \<Rightarrow> bool" where
  "sem_ok s i \<longleftrightarrow> (let sem = sems s i in
     0 \<le> sem_current_count sem \<and> sem_current_count sem \<le> sem_max_count sem \<and>
     distinct (sem_waiting_list sem) \<and>
     (sem_waiting_list sem \<noteq> [] \<longrightarrow> sem_current_count sem = sem_max_count sem))"

definition waiter_ok :: "sys \<Rightarrow> nat \<Rightarrow> tid \<Rightarrow> bool" where
  "waiter_ok s i t \<longleftrightarrow> th_waiting_on_semaphore (threads s t) = Some i \<and> t \<notin> set (ready_list s) \<and>
     (if t \<in> set (sleep_list s)
      then th_state (threads s t) = WAITING_FOR_SEMAPHORE_WITH_TIMEOUT
      else th_state (threads s t) = WAITING_FOR_SEMAPHORE)"

definition sleeper_ok :: "sys \<Rightarrow> tid \<Rightarrow> bool" where
  "sleeper_ok s t \<longleftrightarrow> t \<notin> set (ready_list s) \<and>
     (th_state (threads s t) = SLEEPING \<or>
      (th_state (threads s t) = WAITING_FOR_SEMAPHORE_WITH_TIMEOUT \<and>
       (\<exists>i. th_waiting_on_semaphore (threads s t) = Some i \<and> t \<in> set (sem_waiting_list (sems s i)))))"

definition current_ok :: "sys \<Rightarrow> bool" where
  "current_ok s \<longleftrightarrow> (case current_thread s of
      None \<Rightarrow> True
    | Some c \<Rightarrow> th_state (threads s c) = RUNNING \<longrightarrow> c \<notin> set (ready_list s))"

definition sched_inv :: "sys \<Rightarrow> bool" where
  "sched_inv s \<longleftrightarrow> distinct (ready_list s) \<and> distinct (sleep_list s) \<and> (\<forall>i. sem_ok s i) \<and>
     (\<forall>i t. t \<in> set (sem_waiting_list (sems s i)) \<longrightarrow> waiter_ok s i t) \<and>
     (\<forall>t. t \<in> set (sleep_list s) \<longrightarrow> sleeper_ok s t) \<and> current_ok s"

subsection \<open>Field updates\<close>

lemma upd_thread_simps [simp]:
  "threads (upd_thread t f s) = (threads s)(t := f (threads s t))"
  "current_thread (upd_thread t f s) = current_thread s" "ready_list (upd_thread t f s) = ready_list s"
  "sleep_list (upd_thread t f s) = sleep_list s" "sems (upd_thread t f s) = sems s"
  "system_time (upd_thread t f s) = system_time s" "msgboxes (upd_thread t f s) = msgboxes s"
  "cleaner_mbox (upd_thread t f s) = cleaner_mbox s" "alarms (upd_thread t f s) = alarms s"
  "num_alarms_installed (upd_thread t f s) = num_alarms_installed s"
  "deferred_calls (upd_thread t f s) = deferred_calls s"
  by (simp_all add: upd_thread_def)

lemma upd_sem_simps [simp]:
  "sems (upd_sem i f s) = (sems s)(i := f (sems s i))"
  "current_thread (upd_sem i f s) = current_thread s" "ready_list (upd_sem i f s) = ready_list s"
  "sleep_list (upd_sem i f s) = sleep_list s" "threads (upd_sem i f s) = threads s"
  "system_time (upd_sem i f s) = system_time s" "msgboxes (upd_sem i f s) = msgboxes s"
  "cleaner_mbox (upd_sem i f s) = cleaner_mbox s"
  by (simp_all add: upd_sem_def)

lemmas inv_defs = sched_inv_def sem_ok_def waiter_ok_def sleeper_ok_def current_ok_def

text \<open>Changes that touch neither a list nor the states and waiting semaphores of listed threads
  keep the invariant.\<close>

lemma sched_inv_frame:
  assumes inv: "sched_inv s" and lists: "ready_list s' = ready_list s" "sleep_list s' = sleep_list s"
      "current_thread s' = current_thread s"
    and sems: "\<And>i. sem_ok s' i" "\<And>i. sem_waiting_list (sems s' i) = sem_waiting_list (sems s i)"
    and state: "\<And>t. th_state (threads s' t) = th_state (threads s t)"
    and on: "\<And>t. t \<in> set (sleep_list s) \<or> (\<exists>i. t \<in> set (sem_waiting_list (sems s i))) \<Longrightarrow>
        th_waiting_on_semaphore (threads s' t) = th_waiting_on_semaphore (threads s t)"
  shows "sched_inv s'"
proof -
  have "waiter_ok s' i t" if "t \<in> set (sem_waiting_list (sems s i))" for i t
    using inv that on [of t] state [of t] lists by (auto simp: sched_inv_def waiter_ok_def)
  moreover have "sleeper_ok s' t" if "t \<in> set (sleep_list s)" for t
    using inv that on [of t] state [of t] lists sems(2) by (auto simp: sched_inv_def sleeper_ok_def)
  moreover have "current_ok s'"
    using inv lists state by (auto simp: sched_inv_def current_ok_def split: option.splits)
  ultimately show ?thesis using inv lists sems by (auto simp: sched_inv_def)
qed

lemma sched_inv_sem:
  "sched_inv s \<Longrightarrow> 0 \<le> sem_current_count (sems s i) \<and> sem_current_count (sems s i) \<le> sem_max_count (sems s i) \<and>
     distinct (sem_waiting_list (sems s i)) \<and>
     (sem_waiting_list (sems s i) \<noteq> [] \<longrightarrow> sem_current_count (sems s i) = sem_max_count (sems s i))"
  by (simp add: sched_inv_def sem_ok_def Let_def)

lemma sched_inv_waiter: "sched_inv s \<Longrightarrow> t \<in> set (sem_waiting_list (sems s i)) \<Longrightarrow> waiter_ok s i t"
  by (simp add: sched_inv_def)

lemma sched_inv_sleeper: "sched_inv s \<Longrightarrow> t \<in> set (sleep_list s) \<Longrightarrow> sleeper_ok s t"
  by (simp add: sched_inv_def)

lemma sem_ok_other: "sched_inv s \<Longrightarrow> sems s' j = sems s j \<Longrightarrow> sem_ok s' j"
  by (simp add: sched_inv_def sem_ok_def)

text \<open>The running thread is on no list.\<close>

lemma running_unlisted:
  assumes inv: "sched_inv s" and c: "current_thread s = Some c" "th_state (threads s c) = RUNNING"
  shows "c \<notin> set (ready_list s)" "c \<notin> set (sleep_list s)" "c \<notin> set (sem_waiting_list (sems s i))"
proof -
  show "c \<notin> set (ready_list s)" using assms by (simp add: sched_inv_def current_ok_def)
  show "c \<notin> set (sleep_list s)" using sched_inv_sleeper [OF inv, of c] c by (auto simp: sleeper_ok_def)
  show "c \<notin> set (sem_waiting_list (sems s i))"
    using sched_inv_waiter [OF inv, of c i] c by (auto simp: waiter_ok_def split: if_splits)
qed

subsection \<open>Acquiring\<close>

lemma AcquireSemaphore_free:
  assumes "sched_inv s" "sem_current_count (sems s i) < sem_max_count (sems s i)"
  shows "\<exists>s'. AcquireSemaphore s i tm = Inr (s', False) \<and> sched_inv s' \<and>
     sem_current_count (sems s' i) = sem_current_count (sems s i) + 1 \<and> ready_list s' = ready_list s"
proof -
  have nowait: "sem_waiting_list (sems s i) = []"
    using sched_inv_sem [OF assms(1), of i] assms(2) by auto
  let ?s = "upd_sem i (sem_current_count_update (\<lambda>c. c + 1))
     (case current_thread s of None \<Rightarrow> s | Some thr \<Rightarrow> upd_thread thr (th_timed_out_update (\<lambda>_. False)) s)"
  have "AcquireSemaphore s i tm = Inr (?s, False)"
    using assms(2) by (auto simp: AcquireSemaphore_def Let_def split: option.split)
  moreover have "sched_inv ?s"
    by (rule sched_inv_frame [OF assms(1)])
      (use assms nowait sched_inv_sem [OF assms(1)] in \<open>auto simp: sem_ok_def Let_def split: option.split\<close>)
  ultimately show ?thesis by (auto split: option.split)
qed

lemma AcquireSemaphore_try:
  assumes "sched_inv s" "current_thread s = Some c" "th_state (threads s c) = RUNNING"
    "\<not> sem_current_count (sems s i) < sem_max_count (sems s i)"
  shows "\<exists>s'. AcquireSemaphore s i 0 = Inr (s', False) \<and> sched_inv s' \<and> sems s' = sems s \<and>
     AcquireSemaphore_result s' 0 = EAGAIN"
proof -
  let ?s = "upd_thread c (\<lambda>th. th\<lparr>th_waiting_on_semaphore := Some i, th_timed_out := True\<rparr>) s"
  have "AcquireSemaphore s i 0 = Inr (?s, False)"
    using assms(2,4) by (auto simp: AcquireSemaphore_def Let_def upd_thread_def)
  moreover have "sched_inv ?s"
    by (rule sched_inv_frame [OF assms(1)])
      (use assms running_unlisted [OF assms(1,2,3)] sem_ok_other [OF assms(1)] in auto)
  moreover have "AcquireSemaphore_result ?s 0 = EAGAIN" using assms(2) by (simp add: AcquireSemaphore_result_def)
  ultimately show ?thesis by auto
qed

lemma AcquireSemaphore_block:
  assumes inv: "sched_inv s" and c: "current_thread s = Some c" "th_state (threads s c) = RUNNING"
    and full: "\<not> sem_current_count (sems s i) < sem_max_count (sems s i)" and tm: "tm \<noteq> 0"
  shows "\<exists>s'. AcquireSemaphore s i tm = Inr (s', True) \<and> sched_inv s' \<and>
     sem_waiting_list (sems s' i) = sem_waiting_list (sems s i) @ [c] \<and>
     sem_current_count (sems s' i) = sem_current_count (sems s i) \<and> ready_list s' = ready_list s \<and>
     sleep_list s' = (if tm = -1 then sleep_list s else sleep_list s @ [c]) \<and> postponed_task_switch s'"
proof -
  note un = running_unlisted [OF inv c]
  let ?st = "if tm = -1 then WAITING_FOR_SEMAPHORE else WAITING_FOR_SEMAPHORE_WITH_TIMEOUT"
  obtain s' where eq: "AcquireSemaphore s i tm = Inr (s', True)" and lists: "ready_list s' = ready_list s"
    "sleep_list s' = (if tm = -1 then sleep_list s else sleep_list s @ [c])"
    "sems s' = (sems s)(i := (sems s i)\<lparr>sem_waiting_list := sem_waiting_list (sems s i) @ [c]\<rparr>)"
    "current_thread s' = Some c" "postponed_task_switch s'"
    and thr: "\<And>t. t \<noteq> c \<Longrightarrow> threads s' t = threads s t" "th_state (threads s' c) = ?st"
    "th_waiting_on_semaphore (threads s' c) = Some i"
    using assms un by (cases "tm = -1") (auto simp: AcquireSemaphore_def Let_def tq_insert_def
        BlockThread_def QueueForSleep_def)
  have full: "sem_current_count (sems s i) = sem_max_count (sems s i)"
    using sched_inv_sem [OF inv, of i] full by linarith
  have "sched_inv s'"
    unfolding sched_inv_def
  proof (intro conjI allI impI)
    show "sem_ok s' j" for j
      using sched_inv_sem [OF inv, of j] full un by (auto simp: sem_ok_def Let_def lists)
    show "waiter_ok s' j t" if "t \<in> set (sem_waiting_list (sems s' j))" for j t
      using that sched_inv_waiter [OF inv, of t j] un thr
      by (cases "t = c") (auto simp: waiter_ok_def lists split: if_splits)
    show "sleeper_ok s' t" if "t \<in> set (sleep_list s')" for t
      using that sched_inv_sleeper [OF inv, of t] un thr
      by (cases "t = c") (auto simp: sleeper_ok_def lists split: if_splits)
  qed (use inv un c thr in \<open>auto simp: sched_inv_def current_ok_def lists\<close>)
  with eq lists show ?thesis by auto
qed

subsection \<open>Releasing\<close>

lemma UnblockThread_plain:
  assumes "t \<notin> set (ready_list s)" "current_thread s = Some c"
    "th_state (threads s t) \<noteq> WAITING_FOR_SEMAPHORE_WITH_TIMEOUT"
  shows "UnblockThread s t = Inr (s\<lparr>ready_list := ready_list s @ [t], postponed_task_switch :=
     (th_priority (threads s t) < th_priority (threads s c) \<or> postponed_task_switch s)\<rparr>)"
  using assms by (simp add: UnblockThread_def tq_insert_def GetThread_def)

text \<open>A release hands over to the thread that has waited longest: it becomes ready, and the count
  does not change.\<close>

lemma DecrementSemaphore_handover:
  assumes inv: "sched_inv s" and ws: "sem_waiting_list (sems s i) = tp # rest"
    and c: "current_thread s = Some c"
  shows "\<exists>s'. DecrementSemaphore s i False = Inr s' \<and> sched_inv s' \<and>
     sem_waiting_list (sems s' i) = rest \<and> ready_list s' = ready_list s @ [tp] \<and>
     sem_current_count (sems s' i) = sem_current_count (sems s i) \<and>
     sleep_list s' = remove1 tp (sleep_list s) \<and> current_thread s' = Some c"
proof -
  have tp: "waiter_ok s i tp" using inv ws by (simp add: sched_inv_def)
  have dist: "distinct (tp # rest)" using sched_inv_sem [OF inv, of i] ws by simp
  let ?in = "tp \<in> set (sleep_list s)"
  let ?f = "\<lambda>th. if ?in then th\<lparr>th_state := READY\<rparr> else th"
  define s0 where "s0 = (let s1 = upd_sem i (sem_waiting_list_update (\<lambda>_. rest)) s in
    if ?in then upd_thread tp (th_state_update (\<lambda>_. READY)) (s1\<lparr>sleep_list := remove1 tp (sleep_list s)\<rparr>) else s1)"
  have s0: "ready_list s0 = ready_list s" "sleep_list s0 = remove1 tp (sleep_list s)"
    "sems s0 = (sems s)(i := (sems s i)\<lparr>sem_waiting_list := rest\<rparr>)" "current_thread s0 = current_thread s"
    "threads s0 = (threads s)(tp := ?f (threads s tp))"
    by (auto simp: s0_def Let_def remove1_idem)
  define s2 where "s2 = s0\<lparr>ready_list := ready_list s0 @ [tp], postponed_task_switch :=
     (th_priority (threads s0 tp) < th_priority (threads s0 c) \<or> postponed_task_switch s0)\<rparr>"
  have s2: "ready_list s2 = ready_list s @ [tp]" "sleep_list s2 = remove1 tp (sleep_list s)"
    "sems s2 = (sems s)(i := (sems s i)\<lparr>sem_waiting_list := rest\<rparr>)" "current_thread s2 = current_thread s"
    "threads s2 = (threads s)(tp := ?f (threads s tp))"
    by (simp_all add: s2_def s0)
  have "DecrementSemaphore s i False = UnblockThread s0 tp"
    using ws tp by (auto simp: DecrementSemaphore_def Let_def TryDequeueForSleep_def waiter_ok_def s0_def
        split: if_splits)
  also have "\<dots> = Inr s2"
    unfolding s2_def by (rule UnblockThread_plain)
      (use tp c in \<open>auto simp: s0 waiter_ok_def split: if_splits\<close>)
  finally have eq: "DecrementSemaphore s i False = Inr s2" .
  have sl: "t \<in> set (remove1 tp (sleep_list s)) \<longleftrightarrow> t \<in> set (sleep_list s) \<and> t \<noteq> tp" for t
    using inv by (auto simp: sched_inv_def)
  have only_i: "tp \<notin> set (sem_waiting_list (sems s j))" if "j \<noteq> i" for j
    using sched_inv_waiter [OF inv, of tp j] tp that by (auto simp: waiter_ok_def)
  have "sched_inv s2"
    unfolding sched_inv_def
  proof (intro conjI allI impI)
    show "sem_ok s2 j" for j
      using sched_inv_sem [OF inv, of j] ws dist by (auto simp: sem_ok_def Let_def s2)
    show "waiter_ok s2 j t" if t: "t \<in> set (sem_waiting_list (sems s2 j))" for j t
    proof -
      have ne: "t \<noteq> tp" using t dist only_i [of j] by (auto simp: s2 split: if_splits)
      have "t \<in> set (sem_waiting_list (sems s j))" using t ws by (auto simp: s2 split: if_splits)
      then have "waiter_ok s j t" using inv by (rule sched_inv_waiter [rotated])
      with ne show ?thesis by (auto simp: waiter_ok_def sl s2)
    qed
    show "sleeper_ok s2 t" if t: "t \<in> set (sleep_list s2)" for t
    proof -
      have ne: "t \<noteq> tp" "t \<in> set (sleep_list s)" using t sl by (auto simp: s2)
      then have "sleeper_ok s t" using inv by (intro sched_inv_sleeper)
      with ne ws show ?thesis by (auto simp: sleeper_ok_def s2)
    qed
    show "current_ok s2" using inv c tp by (auto simp: sched_inv_def current_ok_def waiter_ok_def s2 split: if_splits)
  qed (use inv tp in \<open>auto simp: sched_inv_def waiter_ok_def s2\<close>)
  with eq c show ?thesis by (auto simp: s2)
qed

lemma DecrementSemaphore_free:
  assumes inv: "sched_inv s" and ws: "sem_waiting_list (sems s i) = []" and pos: "sem_current_count (sems s i) > 0"
  shows "\<exists>s'. DecrementSemaphore s i False = Inr s' \<and> sched_inv s' \<and>
     sem_waiting_list (sems s' i) = [] \<and> ready_list s' = ready_list s \<and>
     sem_current_count (sems s' i) = sem_current_count (sems s i) - 1 \<and> current_thread s' = current_thread s"
proof -
  let ?s = "upd_sem i (sem_current_count_update (\<lambda>c. c - 1)) s"
  have bound: "sem_current_count (sems s i) - 1 \<le> sem_max_count (sems s i)"
    using sched_inv_sem [OF inv, of i] by linarith
  have "DecrementSemaphore s i False = Inr ?s" using ws pos by (simp add: DecrementSemaphore_def Let_def)
  moreover have "sched_inv ?s"
    by (rule sched_inv_frame [OF inv])
      (use sched_inv_sem [OF inv] bound ws pos in \<open>auto simp: sem_ok_def Let_def\<close>)
  ultimately show ?thesis using ws by auto
qed

lemma DecrementSemaphore_inv:
  assumes "sched_inv s" "current_thread s = Some c" "sem_current_count (sems s i) > 0"
  shows "\<exists>s'. DecrementSemaphore s i False = Inr s' \<and> sched_inv s' \<and> current_thread s' = Some c"
  using assms DecrementSemaphore_handover [of s i] DecrementSemaphore_free [of s i]
  by (cases "sem_waiting_list (sems s i)") (force, metis)

lemma release_loop_inv:
  "sched_inv s \<Longrightarrow> current_thread s = Some c \<Longrightarrow> sem_current_count (sems s i) > 0 \<Longrightarrow> decrements \<ge> 0 \<Longrightarrow>
   \<exists>s' n. release_loop s i cnt decrements = Inr (s', n) \<and> sched_inv s' \<and> current_thread s' = Some c"
proof (induction s i cnt decrements rule: release_loop.induct)
  case (1 s i cnt decrements)
  then obtain s1 where s1: "DecrementSemaphore s i False = Inr s1" "sched_inv s1" "current_thread s1 = Some c"
    using DecrementSemaphore_inv by blast
  have first: "(decrements + 1 = 0) = False" using "1.prems"(4) by simp
  show ?case
  proof (cases "cnt - 1 \<noteq> 0 \<and> sem_current_count (sems s1 i) > 0")
    case True
    from "1.IH" [of s1] s1 True "1.prems"(4) first show ?thesis
      by (subst release_loop.simps) simp
  next
    case False
    then show ?thesis using s1 first by (subst release_loop.simps) auto
  qed
qed

lemma ReleaseSemaphore_eq:
  "sem_current_count (sems s i) > 0 \<Longrightarrow> ReleaseSemaphore s i = DecrementSemaphore s i False"
  by (simp add: ReleaseSemaphore_def ReleaseSemaphoreEx_def release_loop.simps split: sum.split)

subsection \<open>Switching\<close>

lemma bookkeeping_fields [simp]:
  "ready_list (UpdatePriority s c y) = ready_list s" "sleep_list (UpdatePriority s c y) = sleep_list s"
  "sems (UpdatePriority s c y) = sems s" "current_thread (UpdatePriority s c y) = current_thread s"
  "th_state (threads (UpdatePriority s c y) t) = th_state (threads s t)"
  "th_waiting_on_semaphore (threads (UpdatePriority s c y) t) = th_waiting_on_semaphore (threads s t)"
  "ready_list (UpdateThreadTimeUsed s c) = ready_list s" "sleep_list (UpdateThreadTimeUsed s c) = sleep_list s"
  "sems (UpdateThreadTimeUsed s c) = sems s" "current_thread (UpdateThreadTimeUsed s c) = current_thread s"
  "th_state (threads (UpdateThreadTimeUsed s c) t) = th_state (threads s t)"
  "th_waiting_on_semaphore (threads (UpdateThreadTimeUsed s c) t) = th_waiting_on_semaphore (threads s t)"
  by (simp_all add: UpdatePriority_def UpdateThreadTimeUsed_def Let_def)

lemma SwitchToNewTask_fields [simp]:
  "ready_list (SwitchToNewTask s n) = tl (ready_list s)" "sleep_list (SwitchToNewTask s n) = sleep_list s"
  "sems (SwitchToNewTask s n) = sems s" "current_thread (SwitchToNewTask s n) = Some n"
  "th_state (threads (SwitchToNewTask s n) t) = (if t = n then RUNNING else th_state (threads s t))"
  "th_waiting_on_semaphore (threads (SwitchToNewTask s n) t) = th_waiting_on_semaphore (threads s t)"
  by (simp_all add: SwitchToNewTask_def UpdateTimesliceExpiry_def Let_def)

lemma ScheduleWithLockHeld_switch:
  assumes inv: "sched_inv s" and c: "current_thread s = Some c" and rl: "ready_list s = n # rest" and ne: "n \<noteq> c"
  shows "\<exists>s'. ScheduleWithLockHeld s = Inr s' \<and> sched_inv s' \<and> current_thread s' = Some n \<and>
     th_state (threads s' n) = RUNNING \<and> sems s' = sems s \<and> sleep_list s' = sleep_list s \<and>
     ready_list s' = rest @ (if th_state (threads s c) = RUNNING then [c] else [])"
proof -
  have unready: "th_state (threads s c) = RUNNING \<longrightarrow> c \<notin> set (n # rest)"
    using running_unlisted(1) [OF inv c] rl by auto
  obtain s' where eq: "ScheduleWithLockHeld s = Inr s'" and f: "current_thread s' = Some n"
    "sems s' = sems s" "sleep_list s' = sleep_list s"
    "ready_list s' = rest @ (if th_state (threads s c) = RUNNING then [c] else [])"
    and st: "\<And>t. th_state (threads s' t) = (if t = n then RUNNING else th_state (threads s t))"
    "\<And>t. th_waiting_on_semaphore (threads s' t) = th_waiting_on_semaphore (threads s t)"
    using unready c rl ne
    by (cases "th_state (threads s c) = RUNNING")
      (simp_all add: ScheduleWithLockHeld_def Let_def tq_insert_def)
  have dist: "distinct (n # rest)" using inv rl by (simp add: sched_inv_def)
  have n_out: "n \<notin> set (sleep_list s)" "n \<notin> set (sem_waiting_list (sems s i))" for i
    using sched_inv_sleeper [OF inv, of n] sched_inv_waiter [OF inv, of n i] rl
    by (auto simp: sleeper_ok_def waiter_ok_def)
  have c_out: "th_state (threads s c) = RUNNING \<Longrightarrow> c \<notin> set (sleep_list s)"
    "th_state (threads s c) = RUNNING \<Longrightarrow> c \<notin> set (sem_waiting_list (sems s i))" for i
    using running_unlisted [OF inv c] by auto
  have "sched_inv s'"
    unfolding sched_inv_def
  proof (intro conjI allI impI)
    show "waiter_ok s' j t" if "t \<in> set (sem_waiting_list (sems s' j))" for j t
      using that sched_inv_waiter [OF inv, of t j] n_out c_out rl
      by (auto simp: waiter_ok_def f st split: if_splits)
    show "sleeper_ok s' t" if "t \<in> set (sleep_list s')" for t
      using that sched_inv_sleeper [OF inv, of t] n_out c_out rl
      by (auto simp: sleeper_ok_def f st split: if_splits)
    show "sem_ok s' j" for j using sem_ok_other [OF inv] f by simp
  qed (use inv dist unready ne in \<open>auto simp: sched_inv_def current_ok_def f\<close>)
  with eq f st(1) [of n] show ?thesis by auto
qed

lemma ScheduleWithLockHeld_stay:
  "ready_list s = [] \<or> (\<exists>c rest. current_thread s = Some c \<and> ready_list s = c # rest) \<Longrightarrow>
   ScheduleWithLockHeld s = Inr s"
  by (auto simp: ScheduleWithLockHeld_def split: option.split)

subsection \<open>Priorities\<close>

definition priority_ok :: "thread \<Rightarrow> bool" where
  "priority_ok th \<longleftrightarrow> GetMinPriorityValueForPolicy (th_schedule_policy th) \<le> th_priority th \<and>
     th_priority th \<le> GetMaxPriorityValueForPolicy (th_schedule_policy th)"

lemma UpdatePriority_ok:
  "priority_ok (threads s t) \<Longrightarrow> priority_ok (threads (UpdatePriority s c y) t)"
  by (auto simp: priority_ok_def UpdatePriority_def Let_def)

subsection \<open>Properties\<close>

text \<open>C12.  Acquiring a semaphore from a running thread, in every case: a free unit is taken at
  once; with none free, a zero timeout gives \<^verbatim>\<open>EAGAIN\<close> and changes no semaphore; otherwise the
  thread joins the end of the waiting list (and the sleep list when there is a timeout) and
  blocks.  No assertion fails and the scheduler's invariant is kept.\<close>

theorem AcquireSemaphore_correct:
  assumes "sched_inv s" "current_thread s = Some c" "th_state (threads s c) = RUNNING"
  shows "if sem_current_count (sems s i) < sem_max_count (sems s i)
         then \<exists>s'. AcquireSemaphore s i timeout_ms = Inr (s', False) \<and> sched_inv s' \<and>
                sem_current_count (sems s' i) = sem_current_count (sems s i) + 1 \<and> ready_list s' = ready_list s
         else if timeout_ms = 0
         then \<exists>s'. AcquireSemaphore s i timeout_ms = Inr (s', False) \<and> sched_inv s' \<and> sems s' = sems s \<and>
                AcquireSemaphore_result s' timeout_ms = EAGAIN
         else \<exists>s'. AcquireSemaphore s i timeout_ms = Inr (s', True) \<and> sched_inv s' \<and>
                sem_waiting_list (sems s' i) = sem_waiting_list (sems s i) @ [c] \<and>
                sem_current_count (sems s' i) = sem_current_count (sems s i) \<and> ready_list s' = ready_list s \<and>
                sleep_list s' = (if timeout_ms = -1 then sleep_list s else sleep_list s @ [c]) \<and>
                postponed_task_switch s'"
  using AcquireSemaphore_free [OF assms(1), of i timeout_ms] AcquireSemaphore_try [OF assms, of i]
    AcquireSemaphore_block [OF assms, of i timeout_ms]
  by (simp split: if_split)

definition idle_sys :: sys where
  "idle_sys = \<lparr>threads = (\<lambda>t. \<lparr>th_state = RUNNING, th_time_used = 0, th_priority = 100, th_schedule_policy = 2,
        th_timed_out = False, th_timed_out_due_to_signal = False, th_needs_termination = False,
        th_needs_stopping = False, th_waiting_on_semaphore = None, th_signal_intr = False,
        th_pending_signals = 0, th_blocked_signals = 0, th_prev_blocked_signals = 0,
        th_user_common_signal_handler = 0, th_timeslice_expiry = 0, th_gifted_timeslice = 0,
        th_sleep_expiry = 0, th_alarm_id = -1\<rparr>),
     current_thread = Some 0, ready_list = [1], sleep_list = [], sems = (\<lambda>_. CreateSemaphore 1 1),
     system_time = 5, postponed_task_switch = False, prev_time = 0, scheduler_prevent = 0,
     msgboxes = (\<lambda>_. \<lparr>mb_data = [], mb_sem = 0\<rparr>), cleaner_mbox = 0, alarms = [],
     num_alarms_installed = 0, deferred_calls = [], sleep_wakeups_posted = 0\<rparr>"

lemma idle_sys_inv: "sched_inv idle_sys"
  by (simp add: inv_defs idle_sys_def CreateSemaphore_def)

theorem AcquireSemaphore_correct_witness:
  "\<exists>s'. AcquireSemaphore idle_sys 3 (-1) = Inr (s', True) \<and> sched_inv s' \<and> sem_waiting_list (sems s' 3) = [0]"
  using AcquireSemaphore_correct [OF idle_sys_inv, of 0 3 "-1"]
  by (auto simp: idle_sys_def CreateSemaphore_def)

text \<open>C13.  Releasing a held semaphore: when threads wait, the one that has waited longest leaves
  the waiting list and the sleep list and becomes the last ready thread, and the count is not
  changed, so the unit passes to it and no newcomer can overtake; when none waits, the count goes
  down by one.  No assertion fails and the invariant is kept.\<close>

theorem ReleaseSemaphore_handover:
  assumes "sched_inv s" "current_thread s = Some c" "0 < sem_current_count (sems s i)"
  shows "\<exists>s'. ReleaseSemaphore s i = Inr s' \<and> sched_inv s' \<and>
     (case sem_waiting_list (sems s i) of
        [] \<Rightarrow> sem_current_count (sems s' i) = sem_current_count (sems s i) - 1 \<and> ready_list s' = ready_list s
      | t # ts \<Rightarrow> sem_current_count (sems s' i) = sem_current_count (sems s i) \<and>
          sem_waiting_list (sems s' i) = ts \<and> ready_list s' = ready_list s @ [t] \<and>
          sleep_list s' = remove1 t (sleep_list s))"
proof (cases "sem_waiting_list (sems s i)")
  case Nil
  from DecrementSemaphore_free [OF assms(1) Nil assms(3)] show ?thesis
    using assms(3) Nil by (auto simp: ReleaseSemaphore_eq)
next
  case (Cons t ts)
  from DecrementSemaphore_handover [OF assms(1) Cons assms(2)] show ?thesis
    using assms(3) Cons by (auto simp: ReleaseSemaphore_eq)
qed

theorem ReleaseSemaphore_handover_witness:
  "\<exists>s'. ReleaseSemaphore idle_sys 3 = Inr s' \<and> sched_inv s' \<and> sem_current_count (sems s' 3) = 0"
  using ReleaseSemaphore_handover [OF idle_sys_inv, of 0 3] by (auto simp: idle_sys_def CreateSemaphore_def)

text \<open>C14.  A task switch is round robin: the head of the ready list becomes the running thread
  and is removed from the list, and the old thread goes to the end of the list exactly when it
  was still running, that is, had not blocked.  The invariant is kept and no assertion fails.\<close>

theorem Schedule_round_robin:
  assumes "sched_inv s" "current_thread s = Some c" "ready_list s = n # rest" "n \<noteq> c"
  shows "\<exists>s'. ScheduleWithLockHeld s = Inr s' \<and> sched_inv s' \<and> current_thread s' = Some n \<and>
     th_state (threads s' n) = RUNNING \<and> sems s' = sems s \<and> sleep_list s' = sleep_list s \<and>
     ready_list s' = rest @ (if th_state (threads s c) = RUNNING then [c] else [])"
  using ScheduleWithLockHeld_switch [OF assms] .

theorem Schedule_round_robin_witness:
  "\<exists>s'. ScheduleWithLockHeld idle_sys = Inr s' \<and> current_thread s' = Some 1 \<and> ready_list s' = [0]"
  using Schedule_round_robin [OF idle_sys_inv, of 0 1 "[]"] by (auto simp: idle_sys_def)

text \<open>\<^verbatim>\<open>SetThreadPriority\<close> documents -1 as leaving the value unchanged, but a priority of
  -1 is first raised to the policy's minimum and then stored: with both arguments -1 any thread
  gets priority 0, the highest one, and with only the policy -1 no priority above 100 can be set.\<close>

lemma SetThreadPriority_minus_one:
  "SetThreadPriority s t (-1) (-1) = (upd_thread t (th_priority_update (\<lambda>_. 0)) s, ESUCCESS) \<and>
   SetThreadPriority s t (-1) 200 = (upd_thread t (th_priority_update (\<lambda>_. 100)) s, ESUCCESS)"
  by (simp add: SetThreadPriority_def GetMinPriorityValueForPolicy_def GetMaxPriorityValueForPolicy_def)

end
