(* ===== verification/Signal.thy ===== *)
theory Signal
  imports Scheduler
begin

unbundle bit_operations_syntax

text \<open>
  Signals: kernel/thread/signal.c over the scheduler state.  A set of signals is a 32-bit word.
  \<^verbatim>\<open>SuspendForSignal\<close> is given as the part before the calling thread blocks and the part after
  it has been resumed.
\<close>

abbreviation (input) SIGALRM :: nat where "SIGALRM \<equiv> 2"
abbreviation (input) SIGCONT :: nat where "SIGCONT \<equiv> 5"
abbreviation (input) SIGKILL :: nat where "SIGKILL \<equiv> 9"
abbreviation (input) SIGSTOP :: nat where "SIGSTOP \<equiv> 14"
abbreviation (input) SIG_UPPER_BND :: nat where "SIG_UPPER_BND \<equiv> 29"

definition sigbit :: "nat \<Rightarrow> u32" where
  "sigbit sig_num = push_bit sig_num 1"

definition RaiseSignal :: "sys \<Rightarrow> tid \<Rightarrow> nat \<Rightarrow> (sys \<times> errno) kres" where
  "RaiseSignal s t sig_num =
     (if sig_num \<ge> SIG_UPPER_BND then Inr (s, EINVAL)
      else let s = upd_thread t (\<lambda>th. th\<lparr>th_signal_intr := True,
                     th_pending_signals := th_pending_signals th OR sigbit sig_num\<rparr>) s
        in kbind (if sig_num = SIGKILL then Inr (upd_thread t (th_needs_termination_update (\<lambda>_. True)) s)
                  else if sig_num = SIGSTOP then Inr (upd_thread t (th_needs_stopping_update (\<lambda>_. True)) s)
                  else if sig_num = SIGCONT \<and> th_state (threads s t) = STOPPED then UnblockThread s t
                  else Inr s)
             (\<lambda>s. kbind (if th_state (threads s t) = WAITING_FOR_SIGNAL then UnblockThread s t else Inr s)
               (\<lambda>s. Inr (s, ESUCCESS))))"

text \<open>The threads of the processes of a group, one for each process.\<close>

fun RaiseSignalToProcessGroup :: "sys \<Rightarrow> tid list \<Rightarrow> nat \<Rightarrow> sys kres" where
  "RaiseSignalToProcessGroup s [] sig_num = Inr s"
| "RaiseSignalToProcessGroup s (t # ts) sig_num =
     kbind (RaiseSignal s t sig_num) (\<lambda>(s, _). RaiseSignalToProcessGroup s ts sig_num)"

definition HasBeenSignalled :: "sys \<Rightarrow> bool kres" where
  "HasBeenSignalled s = kbind (GetThread s) (\<lambda>c. Inr (th_signal_intr (threads s c)))"

text \<open>The loop that finds the lowest set bit; \<open>n\<close> bounds the number of shifts by the width.\<close>

fun lowest_signal :: "nat \<Rightarrow> u32 \<Rightarrow> nat \<Rightarrow> nat" where
  "lowest_signal 0 available index = index"
| "lowest_signal (Suc n) available index =
     (if bit available 0 then index else lowest_signal n (drop_bit 1 available) (index + 1))"

definition FindSignalToHandle :: "sys \<Rightarrow> sys \<times> nat option" where
  "FindSignalToHandle s =
     (case current_thread s of
        None \<Rightarrow> (s, None)
      | Some thr \<Rightarrow>
          let th = threads s thr; available_signals = th_pending_signals th AND NOT (th_blocked_signals th) in
          if available_signals = 0 then (s, None)
          else let index = lowest_signal 32 available_signals 0
               in (upd_thread thr (\<lambda>th. th\<lparr>th_signal_intr := False,
                     th_pending_signals := th_pending_signals th AND NOT (sigbit index),
                     th_blocked_signals := th_blocked_signals th OR sigbit index\<rparr>) s, Some index))"

definition HandleSignal :: "sys \<Rightarrow> nat \<Rightarrow> (sys \<times> u32) kres" where
  "HandleSignal s sig_num = kbind (GetThread s) (\<lambda>thr.
     let s = (if th_user_common_signal_handler (threads s thr) = 0
              then upd_thread thr (th_needs_termination_update (\<lambda>_. True)) s else s);
         s = upd_thread thr (\<lambda>th. th\<lparr>th_blocked_signals := th_blocked_signals th AND NOT (sigbit sig_num)\<rparr>) s
     in Inr (s, th_user_common_signal_handler (threads s thr)))"

definition ProtectSpecialSignals :: "u32 \<Rightarrow> u32" where
  "ProtectSpecialSignals blocked = blocked AND NOT (sigbit SIGKILL OR sigbit SIGSTOP OR sigbit SIGCONT)"

text \<open>\<open>old_ok\<close> says whether the pointer for the old mask is not null; the old mask is returned.\<close>

definition SuspendForSignal :: "sys \<Rightarrow> u32 \<Rightarrow> bool \<Rightarrow> bool \<Rightarrow> (sys \<times> errno \<times> u32 option) kres" where
  "SuspendForSignal s new_mask old_ok protect =
     (if \<not> old_ok then Inr (s, EFAULT, None)
      else kbind (GetThread s) (\<lambda>thr.
        let old = th_blocked_signals (threads s thr);
            new_mask = (if protect then ProtectSpecialSignals new_mask else new_mask);
            s = upd_thread thr (\<lambda>th. th\<lparr>th_prev_blocked_signals := old, th_blocked_signals := new_mask\<rparr>) s
        in kbind (BlockThread s WAITING_FOR_SIGNAL) (\<lambda>s. Inr (s, EINTR, Some old))))"

definition SuspendForSignal_resume :: "sys \<Rightarrow> tid \<Rightarrow> sys" where
  "SuspendForSignal_resume s thr =
     upd_thread thr (\<lambda>th. th\<lparr>th_blocked_signals := th_prev_blocked_signals th\<rparr>) s"

definition PauseForSignal :: "sys \<Rightarrow> (sys \<times> errno) kres" where
  "PauseForSignal s = kbind (BlockThread s WAITING_FOR_SIGNAL) (\<lambda>s. Inr (s, EINTR))"

definition SetBlockedSignals :: "sys \<Rightarrow> int \<Rightarrow> u32 option \<Rightarrow> bool \<Rightarrow> (sys \<times> errno \<times> u32) kres" where
  "SetBlockedSignals s how changes protect =
     (case changes of
        None \<Rightarrow> Inr (s, EFAULT, 0)
      | Some ch \<Rightarrow> kbind (GetThread s) (\<lambda>thr.
          let old = th_blocked_signals (threads s thr);
              (new, retv) = (if how = 1 then (old OR ch, ESUCCESS)
                             else if how = 2 then (old AND NOT ch, ESUCCESS)
                             else if how = 3 then (ch, ESUCCESS)
                             else (old, EINVAL));
              new = (if protect then ProtectSpecialSignals new else new)
          in Inr (upd_thread thr (th_blocked_signals_update (\<lambda>_. new)) s, retv, old)))"

text \<open>\<^verbatim>\<open>UnhandledFault\<close> (irq.c) inside a process: the signal is raised unless it is blocked, in
  which case the thread is marked for termination.  The task switch that follows is \<open>Schedule\<close>.\<close>

definition UnhandledFault :: "sys \<Rightarrow> bool \<Rightarrow> nat option \<Rightarrow> sys kres" where
  "UnhandledFault s has_process sig =
     (if \<not> has_process then Inl PANIC_UNHANDLED_KERNEL_EXCEPTION
      else kbind (GetThread s) (\<lambda>thr.
        case sig of
          Some n \<Rightarrow>
            if \<not> bit (th_blocked_signals (threads s thr)) n
            then kbind (RaiseSignal s thr n) (\<lambda>(s, _). Schedule s 0)
            else Inr (upd_thread thr (th_needs_termination_update (\<lambda>_. True)) s)
        | None \<Rightarrow> Inr (upd_thread thr (th_needs_termination_update (\<lambda>_. True)) s)))"

subsection \<open>Signal sets\<close>

lemma bit_sigbit [simp]: "bit (sigbit k) n \<longleftrightarrow> n = k \<and> n < 32"
  by (auto simp: sigbit_def bit_simps)

lemma lowest_signal_found:
  "\<exists>j<n. bit a j \<Longrightarrow> \<exists>k<n. lowest_signal n a i = i + k \<and> bit a k \<and> (\<forall>j<k. \<not> bit a j)"
proof (induction n arbitrary: a i)
  case (Suc n)
  show ?case
  proof (cases "bit a 0")
    case True
    then show ?thesis by auto
  next
    case False
    from Suc.prems obtain j where j: "j < Suc n" "bit a j" by blast
    with False obtain j' where "j = Suc j'" by (cases j) auto
    with j have "\<exists>j<n. bit (drop_bit 1 a) j" by (auto simp: bit_drop_bit_eq)
    from Suc.IH [OF this, of "i + 1"] obtain k where
      k: "k < n" "lowest_signal n (drop_bit 1 a) (i + 1) = i + 1 + k" "bit a (Suc k)"
      "\<forall>j<k. \<not> bit a (Suc j)"
      by (auto simp: bit_drop_bit_eq)
    have "\<forall>j<Suc k. \<not> bit a j" using k(4) False by (auto simp: less_Suc_eq_0_disj)
    then show ?thesis using False k by (intro exI [of _ "Suc k"]) auto
  qed
qed simp

lemma word_bit_exists: "a \<noteq> 0 \<Longrightarrow> \<exists>j<32. bit a j" for a :: u32
proof (rule ccontr)
  assume "a \<noteq> 0" "\<not> (\<exists>j<32. bit a j)"
  then have "a = 0" by (intro bit_word_eqI) auto
  with \<open>a \<noteq> 0\<close> show False by simp
qed

lemma bit_word_less_32: "bit (a :: u32) n \<Longrightarrow> n < 32"
  using bit_imp_le_length by fastforce

subsection \<open>Raising\<close>

text \<open>Unblocking a thread that waits on no semaphore.\<close>

lemma UnblockThread_unlisted_inv:
  assumes inv: "sched_inv s" and t: "t \<notin> set (ready_list s)" "t \<notin> set (sleep_list s)"
      "\<And>i. t \<notin> set (sem_waiting_list (sems s i))"
      "th_state (threads s t) \<noteq> WAITING_FOR_SEMAPHORE_WITH_TIMEOUT" "th_state (threads s t) \<noteq> RUNNING"
    and c: "current_thread s = Some c"
  shows "\<exists>s'. UnblockThread s t = Inr s' \<and> sched_inv s' \<and> ready_list s' = ready_list s @ [t] \<and>
     threads s' = threads s \<and> sems s' = sems s \<and> sleep_list s' = sleep_list s \<and> current_thread s' = Some c"
proof -
  obtain s' where s': "UnblockThread s t = Inr s'" "ready_list s' = ready_list s @ [t]"
    "threads s' = threads s" "sems s' = sems s" "sleep_list s' = sleep_list s" "current_thread s' = Some c"
    using UnblockThread_plain [OF t(1) c t(4)] c by simp
  have "sched_inv s'"
    unfolding sched_inv_def
  proof (intro conjI allI impI)
    show "sem_ok s' j" for j using sem_ok_other [OF inv] s' by simp
    show "waiter_ok s' j u" if "u \<in> set (sem_waiting_list (sems s' j))" for j u
      using that sched_inv_waiter [OF inv, of u j] t by (auto simp: waiter_ok_def s')
    show "sleeper_ok s' u" if "u \<in> set (sleep_list s')" for u
      using that sched_inv_sleeper [OF inv, of u] t by (auto simp: sleeper_ok_def s')
  qed (use inv t c in \<open>auto simp: sched_inv_def current_ok_def s'\<close>)
  with s' show ?thesis by auto
qed

subsection \<open>Properties\<close>

text \<open>C15.  Choosing a signal: nothing is chosen exactly when every pending signal is blocked;
  otherwise the lowest pending unblocked signal is chosen, it stops being pending, becomes
  blocked while it is handled, and no other signal's pending or blocked bit changes.\<close>

theorem FindSignalToHandle_lowest:
  "case current_thread s of
     None \<Rightarrow> FindSignalToHandle s = (s, None)
   | Some c \<Rightarrow>
       let p = th_pending_signals (threads s c); b = th_blocked_signals (threads s c) in
       (case FindSignalToHandle s of
          (s', None) \<Rightarrow> s' = s \<and> (\<forall>n. bit p n \<longrightarrow> bit b n)
        | (s', Some n) \<Rightarrow> n < 32 \<and> bit p n \<and> \<not> bit b n \<and> (\<forall>m<n. bit p m \<longrightarrow> bit b m) \<and>
            (\<forall>m. bit (th_pending_signals (threads s' c)) m = (bit p m \<and> m \<noteq> n)) \<and>
            (\<forall>m. bit (th_blocked_signals (threads s' c)) m = (bit b m \<or> m = n)))"
proof (cases "current_thread s")
  case None
  then show ?thesis by (simp add: FindSignalToHandle_def)
next
  case (Some c)
  let ?p = "th_pending_signals (threads s c)" and ?b = "th_blocked_signals (threads s c)"
  show ?thesis
  proof (cases "?p AND NOT ?b = 0")
    case True
    have "bit ?p n \<longrightarrow> bit ?b n" for n
    proof
      assume n: "bit ?p n"
      have "\<not> bit (?p AND NOT ?b) n" by (simp add: True)
      with n show "bit ?b n" using bit_word_less_32 [OF n] by (auto simp: bit_simps)
    qed
    then show ?thesis using Some True by (simp add: FindSignalToHandle_def Let_def)
  next
    case False
    obtain k where k: "k < 32" "lowest_signal 32 (?p AND NOT ?b) 0 = k" "bit (?p AND NOT ?b) k"
      "\<forall>j<k. \<not> bit (?p AND NOT ?b) j"
      using lowest_signal_found [OF word_bit_exists [OF False], of 0] by auto
    have "bit ?p m \<longrightarrow> bit ?b m" if "m < k" for m
      using k(4) that bit_word_less_32 [of ?p m] by (auto simp: bit_simps)
    moreover have "bit ?p k" "\<not> bit ?b k" using k(3) by (auto simp: bit_simps)
    ultimately show ?thesis
      using Some False k(1,2) bit_word_less_32
      by (auto simp: FindSignalToHandle_def Let_def bit_simps)
  qed
qed

theorem FindSignalToHandle_lowest_witness:
  "snd (FindSignalToHandle (upd_thread 0 (th_pending_signals_update (\<lambda>_. sigbit 2 OR sigbit 3)) idle_sys)) = Some 2"
proof -
  define s where "s = upd_thread 0 (th_pending_signals_update (\<lambda>_. sigbit 2 OR sigbit 3)) idle_sys"
  have s: "current_thread s = Some 0" "th_pending_signals (threads s 0) = sigbit 2 OR sigbit 3"
    "th_blocked_signals (threads s 0) = 0"
    by (simp_all add: s_def idle_sys_def)
  obtain s' r where f: "FindSignalToHandle s = (s', r)" by (cases "FindSignalToHandle s")
  have bits: "bit (sigbit 2 OR sigbit 3) n \<longleftrightarrow> n = 2 \<or> n = 3" for n by (auto simp: bit_or_iff)
  show ?thesis
    using FindSignalToHandle_lowest [of s] unfolding s_def [symmetric]
    by (cases r) (auto simp: s f Let_def bits dest: spec [of _ 2])
qed

text \<open>Whatever mask a program asks for, and in whatever way, the protected form of
  \<^verbatim>\<open>SetBlockedSignals\<close> never leaves SIGKILL, SIGSTOP or SIGCONT blocked, and sets every other
  signal's bit as the operation says.\<close>

lemma SetBlockedSignals_protects:
  assumes "current_thread s = Some c"
  shows "\<exists>s' r old. SetBlockedSignals s how (Some ch) True = Inr (s', r, old) \<and>
     old = th_blocked_signals (threads s c) \<and>
     (r = EINVAL) = (how \<noteq> 1 \<and> how \<noteq> 2 \<and> how \<noteq> 3) \<and>
     (\<forall>n. bit (th_blocked_signals (threads s' c)) n =
        (n \<noteq> SIGKILL \<and> n \<noteq> SIGSTOP \<and> n \<noteq> SIGCONT \<and>
         (if how = 1 then bit old n \<or> bit ch n else if how = 2 then bit old n \<and> \<not> bit ch n
          else if how = 3 then bit ch n else bit old n)))"
proof -
  have prot: "bit (ProtectSpecialSignals b) n \<longleftrightarrow> bit b n \<and> n \<noteq> SIGKILL \<and> n \<noteq> SIGSTOP \<and> n \<noteq> SIGCONT" for b n
    using bit_word_less_32 [of b n] by (auto simp: ProtectSpecialSignals_def bit_simps)
  show ?thesis
    using assms bit_word_less_32 [of "th_blocked_signals (threads s c)"]
    by (auto simp: SetBlockedSignals_def GetThread_def Let_def prot bit_simps)
qed

lemma SetBlockedSignals_protects_witness:
  "\<exists>s' r old. SetBlockedSignals idle_sys 3 (Some (-1)) True = Inr (s', r, old) \<and> r \<noteq> EINVAL \<and>
     \<not> bit (th_blocked_signals (threads s' 0)) SIGKILL"
  using SetBlockedSignals_protects [of idle_sys 0 3 "-1"] by (auto simp: idle_sys_def)

text \<open>Continuing a stopped thread makes it ready without changing its state, so a second
  SIGCONT that arrives before the thread has run fails the assertion of the ready list: two
  signals from user programs bring the kernel down.\<close>

lemma second_SIGCONT_panics:
  assumes "sched_inv s" "current_thread s = Some c" "th_state (threads s t) = STOPPED"
    "t \<notin> set (ready_list s)"
  shows "\<exists>s'. RaiseSignal s t SIGCONT = Inr (s', ESUCCESS) \<and> t \<in> set (ready_list s') \<and>
     RaiseSignal s' t SIGCONT = Inl PANIC_ASSERTION_FAILURE"
  using assms by (auto simp: RaiseSignal_def Let_def UnblockThread_def tq_insert_def GetThread_def)

lemma second_SIGCONT_panics_witness:
  "\<exists>s'. RaiseSignal (upd_thread 7 (th_state_update (\<lambda>_. STOPPED)) idle_sys) 7 SIGCONT = Inr (s', ESUCCESS) \<and>
     RaiseSignal s' 7 SIGCONT = Inl PANIC_ASSERTION_FAILURE"
proof -
  have "sched_inv (upd_thread 7 (th_state_update (\<lambda>_. STOPPED)) idle_sys)"
    by (simp add: inv_defs idle_sys_def CreateSemaphore_def upd_thread_def)
  from second_SIGCONT_panics [OF this, of 0 7] show ?thesis by (auto simp: idle_sys_def)
qed

end
