(* ===== verification/Timer.thy ===== *)
theory Timer
  imports Signal
begin

text \<open>
  The system timer: kernel/thread/timer.c over the scheduler state.  It advances the system time,
  wakes sleeping threads whose time has come, and runs alarms.  The callbacks of alarms are calls
  deferred to the standard interrupt level; the queue they wait in has the 32 slots that
  \<^verbatim>\<open>InitIrql\<close> gives it (theory Irql), and a call deferred to a full queue panics.  Output
  parameters that the C code may leave unwritten are options.
\<close>

abbreviation (input) EXPIRED_ALARM :: u64 where "EXPIRED_ALARM \<equiv> -1"
abbreviation (input) MAX_ALARMS :: nat where "MAX_ALARMS \<equiv> 256"
abbreviation (input) DEFER_SLOTS :: nat where "DEFER_SLOTS \<equiv> 32"

definition defer_call :: "sys \<Rightarrow> deferred_call \<Rightarrow> sys kres" where
  "defer_call s call =
     (if length (deferred_calls s) = DEFER_SLOTS then Inl PANIC_PRIORITY_QUEUE
      else Inr (s\<lparr>deferred_calls := deferred_calls s @ [call]\<rparr>))"

definition ReceivedTimer :: "sys \<Rightarrow> u64 \<Rightarrow> sys kres" where
  "ReceivedTimer s nanos =
     (let s = s\<lparr>system_time := system_time s + nanos\<rparr>;
          s = (case current_thread s of
                 None \<Rightarrow> s
               | Some thr \<Rightarrow>
                   if th_timeslice_expiry (threads s thr) \<noteq> 0 \<and>
                      th_timeslice_expiry (threads s thr) \<le> system_time s
                   then s\<lparr>postponed_task_switch := True\<rparr> else s)
      in if length (deferred_calls s) < 8 then defer_call s WakeupCall else Inr s)"

definition InitTimer :: "sys \<Rightarrow> sys" where
  "InitTimer s = s\<lparr>sleep_list := [],
     alarms := replicate MAX_ALARMS \<lparr>al_wakeup_time = 0, al_callback = 0, al_arg = 0\<rparr>\<rparr>"

function handle_alarms_loop :: "u64 \<Rightarrow> nat \<Rightarrow> sys \<Rightarrow> sys kres" where
  "handle_alarms_loop time i s =
     (if i < MAX_ALARMS \<and> num_alarms_installed s > 0
      then let a = alarms s ! i in
           if al_wakeup_time a \<le> time \<and> al_wakeup_time a \<noteq> 0 \<and> al_wakeup_time a \<noteq> EXPIRED_ALARM
           then let s = s\<lparr>alarms := (alarms s)[i := a\<lparr>al_wakeup_time := EXPIRED_ALARM\<rparr>],
                          num_alarms_installed := num_alarms_installed s - 1\<rparr>
                in case defer_call s (AlarmCall (al_callback a) (al_arg a)) of
                     Inl e \<Rightarrow> Inl e
                   | Inr s' \<Rightarrow> handle_alarms_loop time (i + 1) s'
           else handle_alarms_loop time (i + 1) s
      else Inr s)"
  by pat_completeness auto
termination
  by (relation "measure (\<lambda>(time, i, s). MAX_ALARMS - i)") auto

declare handle_alarms_loop.simps [simp del]

definition HandleAlarms :: "sys \<Rightarrow> u64 \<Rightarrow> sys kres" where
  "HandleAlarms s time = handle_alarms_loop time 0 s"

text \<open>Whether the walk over the sleep list stops at a thread, and what it does there.\<close>

definition wakeup_due :: "sys \<Rightarrow> u64 \<Rightarrow> tid \<Rightarrow> bool" where
  "wakeup_due s time t \<longleftrightarrow> th_sleep_expiry (threads s t) \<le> time \<or> th_signal_intr (threads s t)"

definition wake_thread :: "sys \<Rightarrow> tid \<Rightarrow> sys kres" where
  "wake_thread s t =
     kbind (tq_delete (sleep_list s) t) (\<lambda>sl.
       UnblockThread (upd_thread t (\<lambda>th. th\<lparr>th_timed_out := True,
           th_timed_out_due_to_signal := th_signal_intr th\<rparr>) (s\<lparr>sleep_list := sl\<rparr>)) t)"

lemma UnblockThread_fields:
  "UnblockThread s t = Inr s' \<Longrightarrow> sleep_list s' = sleep_list s \<and> threads s' = threads s \<and>
     current_thread s' = current_thread s \<and> system_time s' = system_time s"
  by (auto simp: UnblockThread_def CancelSemaphoreOfThread_def split: if_splits option.splits)

lemma wake_thread_sleep_list:
  "wake_thread s t = Inr s' \<Longrightarrow> t \<in> set (sleep_list s) \<and> sleep_list s' = remove1 t (sleep_list s)"
  by (auto simp: wake_thread_def tq_delete_def dest!: UnblockThread_fields)

text \<open>The loop restarts at the head of the list after each thread it wakes.\<close>

function wakeup_loop :: "u64 \<Rightarrow> sys \<Rightarrow> sys kres" where
  "wakeup_loop time s =
     (case find (wakeup_due s time) (sleep_list s) of
        None \<Rightarrow> Inr s
      | Some t \<Rightarrow> (case wake_thread s t of Inl e \<Rightarrow> Inl e | Inr s' \<Rightarrow> wakeup_loop time s'))"
  by pat_completeness auto
termination
proof (relation "measure (\<lambda>(time, s). length (sleep_list s))", goal_cases)
  case (2 time s t s')
  then have "t \<in> set (sleep_list s)" "sleep_list s' = remove1 t (sleep_list s)"
    using wake_thread_sleep_list by blast+
  then show ?case by (simp add: length_remove1) (metis Suc_pred length_pos_if_in_set lessI)
qed simp

declare wakeup_loop.simps [simp del]

definition HandleSleepWakeups :: "sys \<Rightarrow> sys kres" where
  "HandleSleepWakeups s =
     (if current_thread s = None then Inr s
      else let s = (if sleep_wakeups_posted s > 0
                    then s\<lparr>sleep_wakeups_posted := sleep_wakeups_posted s - 1\<rparr> else s)
           in kbind (HandleAlarms s (system_time s)) (wakeup_loop (system_time s)))"

text \<open>Sleeping: the step up to the release of the lock, and the result after resuming.\<close>

definition SleepUntil :: "sys \<Rightarrow> u64 \<Rightarrow> (sys \<times> bool) kres" where
  "SleepUntil s system_time_ns =
     (if system_time_ns < GetSystemTimer s then Inr (s, False)
      else kbind (GetThread s) (\<lambda>c.
             kbind (QueueForSleep (upd_thread c (th_sleep_expiry_update (\<lambda>_. system_time_ns)) s) c)
               (\<lambda>s. kbind (BlockThread s SLEEPING) (\<lambda>s. Inr (s, True)))))"

definition SleepUntil_result :: "sys \<Rightarrow> errno kres" where
  "SleepUntil_result s = kbind (GetThread s)
     (\<lambda>c. Inr (if th_timed_out_due_to_signal (threads s c) then EINTR else ESUCCESS))"

definition SleepNano :: "sys \<Rightarrow> u64 \<Rightarrow> (sys \<times> bool) kres" where
  "SleepNano s delta_ns = SleepUntil s (GetSystemTimer s + delta_ns)"

definition SleepMilli :: "sys \<Rightarrow> u32 \<Rightarrow> (sys \<times> bool) kres" where
  "SleepMilli s delta_ms = SleepNano s (ucast delta_ms * 1000000)"

text \<open>Alarms.  \<^verbatim>\<open>None\<close> for the identifier says that \<^verbatim>\<open>*id_out\<close> is not written.\<close>

definition free_alarm_slot :: "alarm list \<Rightarrow> nat option" where
  "free_alarm_slot as = find (\<lambda>i. al_wakeup_time (as ! i) = 0) [0..<MAX_ALARMS]"

definition CreateAlarmAbsolute :: "sys \<Rightarrow> u64 \<Rightarrow> nat \<Rightarrow> nat \<Rightarrow> sys \<times> errno \<times> int option" where
  "CreateAlarmAbsolute s system_time_ns callback arg =
     (if system_time_ns < GetSystemTimer s then (s, EALREADY, Some (-1))
      else if num_alarms_installed s \<ge> int MAX_ALARMS then (s, EAGAIN, Some (-1))
      else case free_alarm_slot (alarms s) of
             None \<Rightarrow> (s\<lparr>num_alarms_installed := num_alarms_installed s + 1\<rparr>, ESUCCESS, None)
           | Some i \<Rightarrow>
               (s\<lparr>alarms := (alarms s)[i := \<lparr>al_wakeup_time = system_time_ns, al_callback = callback,
                                            al_arg = arg\<rparr>],
                  num_alarms_installed := num_alarms_installed s + 1\<rparr>, ESUCCESS, Some (int i)))"

definition CreateAlarmMicro :: "sys \<Rightarrow> u64 \<Rightarrow> nat \<Rightarrow> nat \<Rightarrow> sys \<times> errno \<times> int option" where
  "CreateAlarmMicro s delta_us callback arg =
     CreateAlarmAbsolute s (GetSystemTimer s + delta_us * 1000) callback arg"

definition UpdateAlarm :: "sys \<Rightarrow> int \<Rightarrow> bool \<Rightarrow> sys \<times> errno \<times> u64 option" where
  "UpdateAlarm s alarm destroy =
     (if alarm \<ge> int MAX_ALARMS \<or> alarm < 0 then (s, EINVAL, None)
      else let sys_time = GetSystemTimer s; i = nat alarm; a = alarms s ! i in
           if al_wakeup_time a = 0 then (s, EINVAL, None)
           else let time_left = (if al_wakeup_time a \<le> sys_time then 1
                                 else if al_wakeup_time a = EXPIRED_ALARM then 0
                                 else al_wakeup_time a - sys_time)
                in (if destroy then s\<lparr>alarms := (alarms s)[i := a\<lparr>al_wakeup_time := 0\<rparr>]\<rparr> else s,
                    ESUCCESS, Some time_left))"

definition GetAlarmTimeRemaining :: "sys \<Rightarrow> int \<Rightarrow> sys \<times> errno \<times> u64 option" where
  "GetAlarmTimeRemaining s alarm = UpdateAlarm s alarm False"

definition DestroyAlarm :: "sys \<Rightarrow> int \<Rightarrow> sys \<times> errno \<times> u64 option" where
  "DestroyAlarm s alarm = UpdateAlarm s alarm True"

definition UnixAlarmHandler :: "sys \<Rightarrow> tid \<Rightarrow> sys kres" where
  "UnixAlarmHandler s thr =
     kbind (RaiseSignal s thr SIGALRM) (\<lambda>(s, _). Inr (fst (DestroyAlarm s (th_alarm_id (threads s thr)))))"

text \<open>The callback number that stands for \<^verbatim>\<open>UnixAlarmHandler\<close>.\<close>

abbreviation (input) UNIX_ALARM_HANDLER :: nat where "UNIX_ALARM_HANDLER \<equiv> 1"

definition InstallUnixAlarm :: "sys \<Rightarrow> u64 \<Rightarrow> (sys \<times> errno \<times> u64 option) kres" where
  "InstallUnixAlarm s microseconds = kbind (GetThread s) (\<lambda>c.
     let (s, res, left) = DestroyAlarm s (th_alarm_id (threads s c));
         s = upd_thread c (th_alarm_id_update (\<lambda>_. -1)) s;
         remaining = (if res = ESUCCESS then map_option (\<lambda>l. (l + 999) div 1000) left else None)
     in if microseconds \<noteq> 0
        then let (s, res, new) = CreateAlarmMicro s microseconds UNIX_ALARM_HANDLER c;
                 s = (case new of None \<Rightarrow> s | Some n \<Rightarrow> upd_thread c (th_alarm_id_update (\<lambda>_. n)) s)
             in Inr (s, res, remaining)
        else Inr (s, ESUCCESS, remaining))"

subsection \<open>Waking threads\<close>

lemma wake_thread_inv:
  assumes inv: "sched_inv s" and c: "current_thread s = Some c" and t: "t \<in> set (sleep_list s)"
  shows "\<exists>s'. wake_thread s t = Inr s' \<and> sched_inv s' \<and> ready_list s' = ready_list s @ [t] \<and>
     sleep_list s' = remove1 t (sleep_list s) \<and> current_thread s' = Some c \<and>
     (\<forall>u. th_sleep_expiry (threads s' u) = th_sleep_expiry (threads s u) \<and>
          th_signal_intr (threads s' u) = th_signal_intr (threads s u)) \<and> th_timed_out (threads s' t) \<and>
     (\<forall>i. sem_waiting_list (sems s' i) = remove1 t (sem_waiting_list (sems s i)))"
proof -
  have sl: "sleeper_ok s t" using sched_inv_sleeper [OF inv t] .
  define s1 where "s1 = upd_thread t (\<lambda>th. th\<lparr>th_timed_out := True,
           th_timed_out_due_to_signal := th_signal_intr th\<rparr>) (s\<lparr>sleep_list := remove1 t (sleep_list s)\<rparr>)"
  have wake: "wake_thread s t = UnblockThread s1 t" using t by (simp add: wake_thread_def tq_delete_def s1_def)
  have nosem: "remove1 t (sem_waiting_list (sems s j)) = sem_waiting_list (sems s j)"
    if "th_waiting_on_semaphore (threads s t) \<noteq> Some j \<or> th_state (threads s t) = SLEEPING" for j
    using sched_inv_waiter [OF inv, of t j] that
    by (intro remove1_idem) (auto simp: waiter_ok_def split: if_splits)
  obtain s' where s': "wake_thread s t = Inr s'" "ready_list s' = ready_list s @ [t]"
    "sleep_list s' = remove1 t (sleep_list s)" "current_thread s' = Some c" "threads s' = threads s1"
    "\<And>i. sem_waiting_list (sems s' i) = remove1 t (sem_waiting_list (sems s i))"
    "\<And>i. sem_current_count (sems s' i) = sem_current_count (sems s i)"
    "\<And>i. sem_max_count (sems s' i) = sem_max_count (sems s i)"
    using sl c nosem unfolding wake
    by (cases "th_state (threads s t)")
      (auto simp: sleeper_ok_def UnblockThread_def CancelSemaphoreOfThread_def tq_insert_def tq_delete_def
        GetThread_def s1_def)
  have in_sl: "u \<in> set (remove1 t (sleep_list s)) \<longleftrightarrow> u \<in> set (sleep_list s) \<and> u \<noteq> t" for u
    using inv by (auto simp: sched_inv_def)
  have in_w: "u \<in> set (remove1 t (sem_waiting_list (sems s j))) \<longleftrightarrow>
      u \<in> set (sem_waiting_list (sems s j)) \<and> u \<noteq> t" for u j
    using sched_inv_sem [OF inv, of j] by auto
  have "sched_inv s'"
    unfolding sched_inv_def
  proof (intro conjI allI impI)
    show "sem_ok s' j" for j
      using sched_inv_sem [OF inv, of j] by (auto simp: sem_ok_def Let_def s')
    show "waiter_ok s' j u" if "u \<in> set (sem_waiting_list (sems s' j))" for j u
      using that sched_inv_waiter [OF inv, of u j] by (auto simp: waiter_ok_def s' in_sl in_w s1_def)
    show "sleeper_ok s' u" if "u \<in> set (sleep_list s')" for u
      using that sched_inv_sleeper [OF inv, of u] by (auto simp: sleeper_ok_def s' in_sl in_w s1_def)
    show "current_ok s'" using inv c sl by (auto simp: sched_inv_def current_ok_def sleeper_ok_def s' s1_def)
  qed (use inv sl in \<open>auto simp: sched_inv_def sleeper_ok_def s'\<close>)
  with s' show ?thesis by (auto simp: s1_def)
qed

lemma find_remove1:
  assumes "find P xs = Some x" "distinct xs"
  shows "filter P xs = x # filter P (remove1 x xs)"
    and "filter (\<lambda>y. \<not> P y) (remove1 x xs) = filter (\<lambda>y. \<not> P y) xs"
  using assms by (induction xs) (auto split: if_splits simp: filter_remove1 remove1_idem)

lemma wakeup_loop_inv:
  "sched_inv s \<Longrightarrow> current_thread s = Some c \<Longrightarrow>
   \<exists>s'. wakeup_loop time s = Inr s' \<and> sched_inv s' \<and> current_thread s' = Some c \<and>
     ready_list s' = ready_list s @ filter (wakeup_due s time) (sleep_list s) \<and>
     sleep_list s' = filter (\<lambda>t. \<not> wakeup_due s time t) (sleep_list s)"
proof (induction time s rule: wakeup_loop.induct)
  case (1 time s)
  show ?case
  proof (cases "find (wakeup_due s time) (sleep_list s)")
    case None
    then have no: "\<forall>t\<in>set (sleep_list s). \<not> wakeup_due s time t" by (simp add: find_None_iff)
    have "wakeup_loop time s = Inr s" using None by (subst wakeup_loop.simps) simp
    moreover have "filter (wakeup_due s time) (sleep_list s) = []" using no by (simp add: filter_empty_conv)
    moreover have "filter (\<lambda>t. \<not> wakeup_due s time t) (sleep_list s) = sleep_list s" using no by simp
    ultimately show ?thesis using "1.prems" by simp
  next
    case (Some t)
    then have t: "t \<in> set (sleep_list s)" by (auto simp: find_Some_iff)
    obtain s1 where s1: "wake_thread s t = Inr s1" "sched_inv s1" "ready_list s1 = ready_list s @ [t]"
      "sleep_list s1 = remove1 t (sleep_list s)" "current_thread s1 = Some c"
      "\<And>u. th_sleep_expiry (threads s1 u) = th_sleep_expiry (threads s u) \<and>
          th_signal_intr (threads s1 u) = th_signal_intr (threads s u)"
      using wake_thread_inv [OF "1.prems" t] by metis
    have due: "wakeup_due s1 time = wakeup_due s time" using s1(6) by (simp add: wakeup_due_def fun_eq_iff)
    have dist: "distinct (sleep_list s)" using "1.prems"(1) by (simp add: sched_inv_def)
    have "wakeup_loop time s = wakeup_loop time s1" using Some s1(1) by (subst wakeup_loop.simps) simp
    with "1.IH" [OF Some s1(1,2,5)] show ?thesis
      using find_remove1 [OF Some dist] by (simp add: s1 due)
  qed
qed

lemma SleepUntil_inv:
  assumes inv: "sched_inv s" and c: "current_thread s = Some c" "th_state (threads s c) = RUNNING"
    and later: "\<not> when < system_time s"
  shows "\<exists>s'. SleepUntil s when = Inr (s', True) \<and> sched_inv s' \<and> sleep_list s' = sleep_list s @ [c] \<and>
     th_sleep_expiry (threads s' c) = when \<and> ready_list s' = ready_list s \<and> sems s' = sems s"
proof -
  note un = running_unlisted [OF inv c]
  obtain s' where s': "SleepUntil s when = Inr (s', True)" "sleep_list s' = sleep_list s @ [c]"
    "ready_list s' = ready_list s" "sems s' = sems s" "current_thread s' = Some c"
    "\<And>t. t \<noteq> c \<Longrightarrow> threads s' t = threads s t" "th_state (threads s' c) = SLEEPING"
    "th_sleep_expiry (threads s' c) = when"
    using assms un by (auto simp: SleepUntil_def GetSystemTimer_def GetThread_def QueueForSleep_def
        tq_insert_def BlockThread_def)
  have "sched_inv s'"
    unfolding sched_inv_def
  proof (intro conjI allI impI)
    show "sem_ok s' j" for j using sem_ok_other [OF inv] s' by simp
    show "waiter_ok s' j t" if "t \<in> set (sem_waiting_list (sems s' j))" for j t
      using that sched_inv_waiter [OF inv, of t j] un s'(6)
      by (cases "t = c") (auto simp: waiter_ok_def s')
    show "sleeper_ok s' t" if "t \<in> set (sleep_list s')" for t
      using that sched_inv_sleeper [OF inv, of t] un s'(6)
      by (cases "t = c") (auto simp: sleeper_ok_def s')
  qed (use inv un in \<open>auto simp: sched_inv_def current_ok_def s'\<close>)
  with s' show ?thesis by auto
qed

subsection \<open>Alarms\<close>

definition alarm_due :: "u64 \<Rightarrow> alarm \<Rightarrow> bool" where
  "alarm_due time a \<longleftrightarrow> al_wakeup_time a \<le> time \<and> al_wakeup_time a \<noteq> 0 \<and> al_wakeup_time a \<noteq> EXPIRED_ALARM"

definition expire_alarm :: "u64 \<Rightarrow> alarm \<Rightarrow> alarm" where
  "expire_alarm time a = (if alarm_due time a then a\<lparr>al_wakeup_time := EXPIRED_ALARM\<rparr> else a)"

definition alarm_call :: "alarm \<Rightarrow> deferred_call" where
  "alarm_call a = AlarmCall (al_callback a) (al_arg a)"

text \<open>The rest of the state, which handling alarms leaves alone.\<close>

definition same_threads :: "sys \<Rightarrow> sys \<Rightarrow> bool" where
  "same_threads s s' \<longleftrightarrow> threads s' = threads s \<and> current_thread s' = current_thread s \<and>
     ready_list s' = ready_list s \<and> sleep_list s' = sleep_list s \<and> sems s' = sems s \<and>
     system_time s' = system_time s"

lemma same_threads_inv: "same_threads s s' \<Longrightarrow> sched_inv s' = sched_inv s"
  by (cases "current_thread s") (simp_all add: same_threads_def inv_defs)

lemma handle_alarms_loop_all:
  "length (alarms s) = MAX_ALARMS \<Longrightarrow> i \<le> MAX_ALARMS \<Longrightarrow> length (deferred_calls s) \<le> DEFER_SLOTS \<Longrightarrow>
   int (length (filter (alarm_due time) (drop i (alarms s)))) \<le> num_alarms_installed s \<Longrightarrow>
   (let due = filter (alarm_due time) (drop i (alarms s)) in
    if length (deferred_calls s) + length due \<le> DEFER_SLOTS
    then \<exists>s'. handle_alarms_loop time i s = Inr s' \<and> same_threads s s' \<and>
           deferred_calls s' = deferred_calls s @ map alarm_call due \<and>
           alarms s' = take i (alarms s) @ map (expire_alarm time) (drop i (alarms s))
    else handle_alarms_loop time i s = Inl PANIC_PRIORITY_QUEUE)"
proof (induction time i s rule: handle_alarms_loop.induct)
  case (1 time i s)
  show ?case
  proof (cases "i < MAX_ALARMS \<and> num_alarms_installed s > 0")
    case False
    have no: "filter (alarm_due time) (drop i (alarms s)) = []"
    proof (cases "i < MAX_ALARMS")
      case True
      with False "1.prems"(4) have "length (filter (alarm_due time) (drop i (alarms s))) = 0" by linarith
      then show ?thesis by simp
    qed (use "1.prems" in simp)
    have "\<forall>a\<in>set (drop i (alarms s)). \<not> alarm_due time a" using no by (simp add: filter_empty_conv)
    then have "map (expire_alarm time) (drop i (alarms s)) = drop i (alarms s)"
      by (intro map_idI) (simp add: expire_alarm_def)
    moreover have "handle_alarms_loop time i s = Inr s" using False by (subst handle_alarms_loop.simps) auto
    ultimately show ?thesis using no "1.prems"(3) by (simp add: same_threads_def)
  next
    case True
    let ?a = "alarms s ! i"
    have dr: "drop i (alarms s) = ?a # drop (Suc i) (alarms s)" using True "1.prems"(1) by (simp add: Cons_nth_drop_Suc)
    have tk: "take (Suc i) xs = take i xs @ [xs ! i]" if "length xs = MAX_ALARMS" for xs :: "alarm list"
      using True that by (simp add: take_Suc_conv_app_nth)
    show ?thesis
    proof (cases "alarm_due time ?a")
      case due: True
      let ?s = "s\<lparr>alarms := (alarms s)[i := ?a\<lparr>al_wakeup_time := EXPIRED_ALARM\<rparr>],
                  num_alarms_installed := num_alarms_installed s - 1\<rparr>"
      show ?thesis
      proof (cases "length (deferred_calls s) = DEFER_SLOTS")
        case True
        then have "handle_alarms_loop time i s = Inl PANIC_PRIORITY_QUEUE"
          using \<open>i < MAX_ALARMS \<and> num_alarms_installed s > 0\<close> due
          by (subst handle_alarms_loop.simps) (simp add: alarm_due_def defer_call_def Let_def)
        then show ?thesis using True due by (simp add: dr)
      next
        case False
        let ?t = "?s\<lparr>deferred_calls := deferred_calls s @ [alarm_call ?a]\<rparr>"
        have call: "defer_call ?s (AlarmCall (al_callback ?a) (al_arg ?a)) = Inr ?t"
          using False by (simp add: defer_call_def alarm_call_def)
        have step: "handle_alarms_loop time i s = handle_alarms_loop time (i + 1) ?t"
          using True due call by (subst handle_alarms_loop.simps) (simp add: alarm_due_def Let_def)
        have rest: "drop (Suc i) (alarms ?t) = drop (Suc i) (alarms s)" by simp
        have "let due = filter (alarm_due time) (drop (i + 1) (alarms ?t)) in
          if length (deferred_calls ?t) + length due \<le> DEFER_SLOTS
          then \<exists>s'. handle_alarms_loop time (i + 1) ?t = Inr s' \<and> same_threads ?t s' \<and>
                 deferred_calls s' = deferred_calls ?t @ map alarm_call due \<and>
                 alarms s' = take (i + 1) (alarms ?t) @ map (expire_alarm time) (drop (i + 1) (alarms ?t))
          else handle_alarms_loop time (i + 1) ?t = Inl PANIC_PRIORITY_QUEUE"
          using "1.prems" True due False call
          by (intro "1.IH"(1) [OF True refl _ refl]) (auto simp: alarm_due_def dr)
        then show ?thesis
          using step due "1.prems"(1) True
          by (simp add: Let_def dr same_threads_def tk expire_alarm_def split: if_splits)
      qed
    next
      case False
      have step: "handle_alarms_loop time i s = handle_alarms_loop time (i + 1) s"
        using True False by (subst handle_alarms_loop.simps) (auto simp: alarm_due_def Let_def)
      have "let due = filter (alarm_due time) (drop (i + 1) (alarms s)) in
          if length (deferred_calls s) + length due \<le> DEFER_SLOTS
          then \<exists>s'. handle_alarms_loop time (i + 1) s = Inr s' \<and> same_threads s s' \<and>
                 deferred_calls s' = deferred_calls s @ map alarm_call due \<and>
                 alarms s' = take (i + 1) (alarms s) @ map (expire_alarm time) (drop (i + 1) (alarms s))
          else handle_alarms_loop time (i + 1) s = Inl PANIC_PRIORITY_QUEUE"
        using "1.prems" True False
        by (intro "1.IH"(2) [OF True refl]) (auto simp: alarm_due_def dr)
      then show ?thesis using step False "1.prems"(1)
        by (simp add: Let_def dr tk expire_alarm_def split: if_splits)
    qed
  qed
qed

text \<open>A success without an alarm: when every slot holds an alarm that went off and was not
  destroyed, a new alarm is reported as created although no slot is written.\<close>

lemma CreateAlarm_lost:
  assumes "\<forall>a\<in>set (alarms s). al_wakeup_time a = EXPIRED_ALARM" "length (alarms s) = MAX_ALARMS"
    "num_alarms_installed s = 0" "system_time s \<le> when"
  shows "CreateAlarmAbsolute s when cb arg = (s\<lparr>num_alarms_installed := 1\<rparr>, ESUCCESS, None)"
proof -
  have "free_alarm_slot (alarms s) = None"
    using assms(1,2) by (auto simp: free_alarm_slot_def find_None_iff)
  then show ?thesis using assms(3,4) by (simp add: CreateAlarmAbsolute_def GetSystemTimer_def)
qed

lemma HandleSleepWakeups_prologue:
  assumes "current_thread s = Some c"
  obtains s0 where "same_threads s s0" "alarms s0 = alarms s" "deferred_calls s0 = deferred_calls s"
    "num_alarms_installed s0 = num_alarms_installed s"
    "HandleSleepWakeups s = kbind (HandleAlarms s0 (system_time s)) (wakeup_loop (system_time s))"
proof
  let ?s0 = "if sleep_wakeups_posted s > 0
             then s\<lparr>sleep_wakeups_posted := sleep_wakeups_posted s - 1\<rparr> else s"
  show "HandleSleepWakeups s = kbind (HandleAlarms ?s0 (system_time s)) (wakeup_loop (system_time s))"
    using assms by (simp add: HandleSleepWakeups_def Let_def)
qed (simp_all add: same_threads_def)

lemma wakeup_loop_alarms:
  "wakeup_loop time s = Inr s' \<Longrightarrow> alarms s' = alarms s \<and> deferred_calls s' = deferred_calls s"
proof (induction time s rule: wakeup_loop.induct)
  case (1 time s)
  have wake: "wake_thread s t = Inr u \<Longrightarrow> alarms u = alarms s \<and> deferred_calls u = deferred_calls s" for t u
    by (auto simp: wake_thread_def tq_delete_def UnblockThread_def CancelSemaphoreOfThread_def
        upd_thread_def upd_sem_def split: if_splits option.splits)
  show ?case
  proof (cases "find (wakeup_due s time) (sleep_list s)")
    case None
    with "1.prems" show ?thesis by (subst (asm) wakeup_loop.simps) simp
  next
    case (Some t)
    with "1.prems" obtain u where u: "wake_thread s t = Inr u" "wakeup_loop time u = Inr s'"
      by (subst (asm) wakeup_loop.simps) (auto split: sum.splits)
    with "1.IH" [OF Some u(1) u(2)] wake [OF u(1)] show ?thesis by simp
  qed
qed

subsection \<open>Properties\<close>

text \<open>C16.  One run of the wakeup handler: every sleeping thread whose time has come, or which a
  signal interrupts, leaves the sleep list and becomes ready, in the order of the sleep list
  and behind the threads already ready; every other sleeper stays; the callbacks of exactly the
  due alarms are deferred in slot order; no assertion fails, the loop ends and the scheduler's
  invariant, including the semaphores the sleepers waited on, is kept.\<close>

theorem HandleSleepWakeups_correct:
  assumes "sched_inv s" "current_thread s = Some c" "length (alarms s) = MAX_ALARMS"
    "int (length (filter (alarm_due (system_time s)) (alarms s))) \<le> num_alarms_installed s"
    "length (deferred_calls s) + length (filter (alarm_due (system_time s)) (alarms s)) \<le> DEFER_SLOTS"
  shows "\<exists>s'. HandleSleepWakeups s = Inr s' \<and> sched_inv s' \<and> current_thread s' = Some c \<and>
     ready_list s' = ready_list s @ filter (wakeup_due s (system_time s)) (sleep_list s) \<and>
     sleep_list s' = filter (\<lambda>t. \<not> wakeup_due s (system_time s) t) (sleep_list s) \<and>
     deferred_calls s' = deferred_calls s @ map alarm_call (filter (alarm_due (system_time s)) (alarms s)) \<and>
     alarms s' = map (expire_alarm (system_time s)) (alarms s)"
proof -
  let ?t = "system_time s"
  obtain s0 where s0: "same_threads s s0" "alarms s0 = alarms s" "deferred_calls s0 = deferred_calls s"
    "num_alarms_installed s0 = num_alarms_installed s"
    "HandleSleepWakeups s = kbind (HandleAlarms s0 ?t) (wakeup_loop ?t)"
    by (rule HandleSleepWakeups_prologue [OF assms(2)])
  obtain s1 where s1: "HandleAlarms s0 ?t = Inr s1" "same_threads s0 s1"
    "deferred_calls s1 = deferred_calls s @ map alarm_call (filter (alarm_due ?t) (alarms s))"
    "alarms s1 = map (expire_alarm ?t) (alarms s)"
    using handle_alarms_loop_all [of s0 0 ?t] assms(3,4,5) s0 by (auto simp: HandleAlarms_def Let_def)
  have same: "same_threads s s1" using s0(1) s1(2) by (simp add: same_threads_def)
  have "sched_inv s1" using same_threads_inv [OF same] assms(1) by simp
  moreover have *: "current_thread s1 = Some c" "wakeup_due s1 = wakeup_due s"
    "ready_list s1 = ready_list s" "sleep_list s1 = sleep_list s"
    using same assms(2) by (simp_all add: same_threads_def wakeup_due_def fun_eq_iff)
  ultimately obtain s' where s': "wakeup_loop ?t s1 = Inr s'" "sched_inv s'" "current_thread s' = Some c"
    "ready_list s' = ready_list s @ filter (wakeup_due s ?t) (sleep_list s)"
    "sleep_list s' = filter (\<lambda>t. \<not> wakeup_due s ?t t) (sleep_list s)"
    using wakeup_loop_inv [of s1 c ?t] by auto
  with wakeup_loop_alarms [OF s'(1)] s0(5) s1 show ?thesis by simp
qed

definition sleepy_sys :: sys where
  "sleepy_sys = upd_thread 9 (th_state_update (\<lambda>_. SLEEPING)) (idle_sys\<lparr>sleep_list := [9],
     alarms := replicate MAX_ALARMS \<lparr>al_wakeup_time = 0, al_callback = 0, al_arg = 0\<rparr>\<rparr>)"

lemma sleepy_sys_inv: "sched_inv sleepy_sys"
  by (simp add: inv_defs sleepy_sys_def idle_sys_def CreateSemaphore_def)

theorem HandleSleepWakeups_correct_witness:
  "\<exists>s'. HandleSleepWakeups sleepy_sys = Inr s' \<and> ready_list s' = [1, 9] \<and> sleep_list s' = []"
proof -
  have no: "filter (alarm_due t) (alarms sleepy_sys) = []" for t
    by (simp add: sleepy_sys_def filter_empty_conv alarm_due_def)
  have len: "length (alarms sleepy_sys) = MAX_ALARMS" by (simp add: sleepy_sys_def)
  show ?thesis
    using HandleSleepWakeups_correct [OF sleepy_sys_inv _ len, of 0] unfolding no
    by (auto simp: sleepy_sys_def idle_sys_def wakeup_due_def)
qed

text \<open>When more alarms are due at once than the queue of deferred calls has free slots, the
  wakeup handler panics: 33 alarms of user programs that expire in the same timer tick are
  enough, although 256 may be installed.\<close>

lemma HandleSleepWakeups_alarm_overflow:
  assumes "current_thread s = Some c" "length (alarms s) = MAX_ALARMS" "length (deferred_calls s) \<le> DEFER_SLOTS"
    "int (length (filter (alarm_due (system_time s)) (alarms s))) \<le> num_alarms_installed s"
    "length (deferred_calls s) + length (filter (alarm_due (system_time s)) (alarms s)) > DEFER_SLOTS"
  shows "HandleSleepWakeups s = Inl PANIC_PRIORITY_QUEUE"
proof -
  obtain s0 where s0: "same_threads s s0" "alarms s0 = alarms s" "deferred_calls s0 = deferred_calls s"
    "num_alarms_installed s0 = num_alarms_installed s"
    "HandleSleepWakeups s = kbind (HandleAlarms s0 (system_time s)) (wakeup_loop (system_time s))"
    by (rule HandleSleepWakeups_prologue [OF assms(1)])
  show ?thesis
    using handle_alarms_loop_all [of s0 0 "system_time s"] assms(2-) s0 by (simp add: HandleAlarms_def Let_def)
qed

lemma HandleSleepWakeups_alarm_overflow_witness:
  "HandleSleepWakeups (idle_sys\<lparr>num_alarms_installed := 33,
     alarms := replicate 33 \<lparr>al_wakeup_time = 5, al_callback = 2, al_arg = 0\<rparr> @
               replicate 223 \<lparr>al_wakeup_time = 0, al_callback = 0, al_arg = 0\<rparr>\<rparr>) = Inl PANIC_PRIORITY_QUEUE"
proof -
  let ?as = "replicate 33 \<lparr>al_wakeup_time = 5, al_callback = 2, al_arg = 0\<rparr> @
             replicate 223 \<lparr>al_wakeup_time = 0, al_callback = 0, al_arg = 0\<rparr>"
  have due: "filter (alarm_due 5) ?as = replicate 33 \<lparr>al_wakeup_time = 5, al_callback = 2, al_arg = 0\<rparr>"
    by (simp add: filter_replicate alarm_due_def)
  show ?thesis
    by (rule HandleSleepWakeups_alarm_overflow [where c = 0])
      (simp_all add: idle_sys_def due del: filter_append)
qed

text \<open>Destroying an alarm frees its slot but never lowers the count of installed alarms, so
  each create/destroy pair leaves all slots as they were and the count one higher; once it is
  256, every creation fails with \<^verbatim>\<open>EAGAIN\<close> even with every slot free.\<close>

lemma DestroyAlarm_leaks_count:
  assumes "length (alarms s) = MAX_ALARMS" "al_wakeup_time (alarms s ! 0) = 0"
    "num_alarms_installed s < 256" "system_time s \<le> when" "when \<noteq> 0"
  shows "\<exists>s1 s2 left. CreateAlarmAbsolute s when cb arg = (s1, ESUCCESS, Some 0) \<and>
     DestroyAlarm s1 0 = (s2, ESUCCESS, Some left) \<and>
     map al_wakeup_time (alarms s2) = map al_wakeup_time (alarms s) \<and>
     num_alarms_installed s2 = num_alarms_installed s + 1"
proof -
  have "free_alarm_slot (alarms s) = Some 0"
    using assms(2) by (simp add: free_alarm_slot_def upt_conv_Cons)
  moreover have "map al_wakeup_time ((alarms s)[0 := a]) = map al_wakeup_time (alarms s)"
    if "al_wakeup_time a = 0" for a
    using assms(1,2) that by (intro nth_equalityI) (auto simp: nth_list_update)
  ultimately show ?thesis
    using assms by (auto simp: CreateAlarmAbsolute_def DestroyAlarm_def UpdateAlarm_def GetSystemTimer_def Let_def)
qed

lemma DestroyAlarm_leaks_count_witness:
  "\<exists>s1 s2 left. CreateAlarmAbsolute sleepy_sys 100 1 0 = (s1, ESUCCESS, Some 0) \<and>
     DestroyAlarm s1 0 = (s2, ESUCCESS, Some left) \<and> num_alarms_installed s2 = 1"
  using DestroyAlarm_leaks_count [of sleepy_sys 100 1 0]
  by (auto simp: sleepy_sys_def idle_sys_def)

end
