(* ===== verification/KernelSteps.thy ===== *)
theory KernelSteps
  imports Timer
begin

text \<open>
  The scheduler, semaphores, timer and signals together as one transition system.  A step is any
  operation of these components completing without a panic, in any order: this is the
  interleaving of system calls, interrupts and task switches on one CPU, each atomic under the
  scheduler lock.  Rule induction shows that the scheduler's invariant holds in every state that
  the initial states reach.
\<close>

inductive kstep :: "sys \<Rightarrow> sys \<Rightarrow> bool" where
  acquire: "\<lbrakk>current_thread s = Some c; th_state (threads s c) = RUNNING;
     AcquireSemaphore s i tm = Inr (s', b)\<rbrakk> \<Longrightarrow> kstep s s'"
| release: "ReleaseSemaphoreEx s i n = Inr (s', k) \<Longrightarrow> kstep s s'"
| fill: "FillSemaphore s i = (s', r) \<Longrightarrow> kstep s s'"
| new_sem: "\<lbrakk>sem_waiting_list (sems s i) = []; 0 \<le> cur; cur \<le> mx\<rbrakk> \<Longrightarrow>
     kstep s (upd_sem i (\<lambda>_. CreateSemaphore mx cur) s)"
| send: "SendMessage s m p = Inr s' \<Longrightarrow> kstep s s'"
| receive: "ReceiveMessage_take s m = Inr (s', p) \<Longrightarrow> kstep s s'"
| sleep: "\<lbrakk>current_thread s = Some c; th_state (threads s c) = RUNNING; SleepUntil s w = Inr (s', b)\<rbrakk>
     \<Longrightarrow> kstep s s'"
| tick: "ReceivedTimer s n = Inr s' \<Longrightarrow> kstep s s'"
| wakeups: "HandleSleepWakeups s = Inr s' \<Longrightarrow> kstep s s'"
| switch: "Schedule s irql = Inr s' \<Longrightarrow> kstep s s'"
| signal: "RaiseSignal s t n = Inr (s', e) \<Longrightarrow> kstep s s'"
| find_signal: "FindSignalToHandle s = (s', r) \<Longrightarrow> kstep s s'"
| handle_signal: "HandleSignal s n = Inr (s', h) \<Longrightarrow> kstep s s'"
| set_mask: "SetBlockedSignals s how ch protect = Inr (s', e, old) \<Longrightarrow> kstep s s'"
| pause: "PauseForSignal s = Inr (s', e) \<Longrightarrow> kstep s s'"
| suspend: "SuspendForSignal s new_mask ok protect = Inr (s', e, old) \<Longrightarrow> kstep s s'"
| resume: "kstep s (SuspendForSignal_resume s t)"
| stop: "StopThread s t = Inr s' \<Longrightarrow> kstep s s'"
| terminate: "TerminateThread s t = Inr s' \<Longrightarrow> kstep s s'"
| priority: "SetThreadPriority s t pol pri = (s', e) \<Longrightarrow> kstep s s'"
| create: "\<lbrakk>t \<notin> set (sleep_list s); \<And>i. t \<notin> set (sem_waiting_list (sems s i)); current_thread s \<noteq> Some t;
     CreateThreadEx s t pol pri = Inr s'\<rbrakk> \<Longrightarrow> kstep s s'"
| alarm: "CreateAlarmAbsolute s w cb arg = (s', e, aid) \<Longrightarrow> kstep s s'"
| unalarm: "DestroyAlarm s aid = (s', e, left) \<Longrightarrow> kstep s s'"

text \<open>Multitasking has just started: one thread runs, no thread sleeps or waits.\<close>

definition initial :: "sys \<Rightarrow> bool" where
  "initial s \<longleftrightarrow> distinct (ready_list s) \<and> sleep_list s = [] \<and>
     (\<forall>i. sem_waiting_list (sems s i) = [] \<and> 0 \<le> sem_current_count (sems s i) \<and>
          sem_current_count (sems s i) \<le> sem_max_count (sems s i)) \<and>
     (\<exists>c. current_thread s = Some c \<and> c \<notin> set (ready_list s))"

inductive reachable :: "sys \<Rightarrow> bool" where
  start: "initial s \<Longrightarrow> reachable s"
| step: "reachable s \<Longrightarrow> kstep s s' \<Longrightarrow> reachable s'"

definition good :: "sys \<Rightarrow> bool" where
  "good s \<longleftrightarrow> sched_inv s \<and> current_thread s \<noteq> None"

subsection \<open>Every step keeps the invariant\<close>

lemma good_current: "good s \<Longrightarrow> \<exists>c. current_thread s = Some c"
  by (auto simp: good_def)

text \<open>Steps that change neither lists nor semaphores nor the states of threads.\<close>

lemma good_frame:
  assumes "good s" "ready_list s' = ready_list s" "sleep_list s' = sleep_list s"
    "current_thread s' = current_thread s" "sems s' = sems s"
    "\<And>t. th_state (threads s' t) = th_state (threads s t)"
    "\<And>t. th_waiting_on_semaphore (threads s' t) = th_waiting_on_semaphore (threads s t)"
  shows "good s'"
proof -
  have inv: "sched_inv s" using assms(1) by (simp add: good_def)
  have "sched_inv s'"
    by (rule sched_inv_frame [OF inv]) (use assms sem_ok_other [OF inv] in auto)
  then show ?thesis using assms by (simp add: good_def)
qed

lemma good_upd_thread:
  "good s \<Longrightarrow> th_state (f (threads s t)) = th_state (threads s t) \<Longrightarrow>
   th_waiting_on_semaphore (f (threads s t)) = th_waiting_on_semaphore (threads s t) \<Longrightarrow>
   good (upd_thread t f s)"
  by (erule good_frame) auto

lemma BlockThread_good:
  assumes "good s" "BlockThread s r = Inr s'"
  shows "good s'"
proof -
  have inv: "sched_inv s" using assms(1) by (simp add: good_def)
  obtain c where c: "current_thread s = Some c" "th_state (threads s c) = RUNNING" "r \<noteq> RUNNING"
    using assms(2) by (auto simp: BlockThread_def split: option.splits)
  note un = running_unlisted [OF inv c(1,2)]
  have s': "ready_list s' = ready_list s" "sleep_list s' = sleep_list s" "sems s' = sems s"
    "current_thread s' = Some c" "threads s' = (threads s)(c := (threads s c)\<lparr>th_state := r\<rparr>)"
    using assms(2) c by (auto simp: BlockThread_def)
  have "sched_inv s'"
    unfolding sched_inv_def
  proof (intro conjI allI impI)
    show "sem_ok s' j" for j using sem_ok_other [OF inv] s' by simp
    show "waiter_ok s' j t" if "t \<in> set (sem_waiting_list (sems s' j))" for j t
      using that sched_inv_waiter [OF inv, of t j] un by (cases "t = c") (auto simp: waiter_ok_def s')
    show "sleeper_ok s' t" if "t \<in> set (sleep_list s')" for t
      using that sched_inv_sleeper [OF inv, of t] un by (cases "t = c") (auto simp: sleeper_ok_def s')
  qed (use inv c in \<open>auto simp: sched_inv_def current_ok_def s'\<close>)
  then show ?thesis by (simp add: good_def s')
qed

lemma ReleaseSemaphoreEx_good:
  assumes "good s" "ReleaseSemaphoreEx s i n = Inr (s', k)"
  shows "good s'"
proof (cases "n < 0")
  case False
  then have pos: "0 < sem_current_count (sems s i)" "release_loop s i n 0 = Inr (s', k)"
    using assms(2) by (auto simp: ReleaseSemaphoreEx_def)
  obtain c where "current_thread s = Some c" using good_current [OF assms(1)] by blast
  with release_loop_inv [of s c i 0 n] assms(1) pos show ?thesis by (auto simp: good_def)
qed (use assms in \<open>simp add: ReleaseSemaphoreEx_def\<close>)

lemma SendMessage_good:
  assumes "good s" "SendMessage s m p = Inr s'"
  shows "good s'"
proof -
  let ?s = "s\<lparr>msgboxes := (msgboxes s)(m := (msgboxes s m)\<lparr>mb_data := mb_data (msgboxes s m) @ [p]\<rparr>)\<rparr>"
  obtain k where "ReleaseSemaphoreEx ?s (mb_sem (msgboxes s m)) 1 = Inr (s', k)"
    using assms(2) by (auto simp: SendMessage_def ReleaseSemaphore_def Let_def)
  moreover have "good ?s" by (rule good_frame [OF assms(1)]) auto
  ultimately show ?thesis by (rule ReleaseSemaphoreEx_good [rotated])
qed

lemma TerminateThread_good:
  assumes "good s" "TerminateThread s t = Inr s'"
  shows "good s'"
proof (cases "current_thread s = Some t")
  case True
  then obtain s1 where "SendMessage s (cleaner_mbox s) t = Inr s1" "BlockThread s1 TERMINATED = Inr s'"
    using assms(2) by (auto simp: TerminateThread_def)
  then show ?thesis using SendMessage_good [OF assms(1)] BlockThread_good by blast
qed (use assms in \<open>auto simp: TerminateThread_def intro: good_upd_thread\<close>)

lemma StopThread_good:
  assumes "good s" "StopThread s t = Inr s'"
  shows "good s'"
proof (cases "current_thread s = Some t")
  case True
  then have "BlockThread (upd_thread t (th_needs_stopping_update (\<lambda>_. False)) s) STOPPED = Inr s'"
    using assms(2) by (simp add: StopThread_def)
  then show ?thesis by (rule BlockThread_good [rotated]) (simp add: good_upd_thread assms(1))
qed (use assms in \<open>auto simp: StopThread_def intro: good_upd_thread\<close>)

lemma ScheduleWithLockHeld_good:
  assumes "good s" "ScheduleWithLockHeld s = Inr s'"
  shows "good s'"
proof (cases "ready_list s")
  case (Cons n rest)
  obtain c where c: "current_thread s = Some c" using good_current [OF assms(1)] by blast
  show ?thesis
  proof (cases "n = c")
    case True
    then show ?thesis using assms c Cons ScheduleWithLockHeld_stay [of s] by auto
  next
    case False
    from ScheduleWithLockHeld_switch [OF _ c Cons False] assms show ?thesis by (auto simp: good_def)
  qed
qed (use assms ScheduleWithLockHeld_stay [of s] in auto)

lemma Schedule_good:
  assumes "good s" "Schedule s irql = Inr s'"
  shows "good s'"
proof (cases "irql > 2 \<or> scheduler_prevent s > 0")
  case True
  then have "s' = s\<lparr>postponed_task_switch := True\<rparr>" using assms(2) by (auto simp: Schedule_def)
  then show ?thesis by (intro good_frame [OF assms(1)]) auto
next
  case False
  then obtain s1 c where s1: "ScheduleWithLockHeld s = Inr s1"
    "(if th_needs_termination (threads s1 c) then TerminateThread s1 c
      else if th_needs_stopping (threads s1 c) then StopThread s1 c else Inr s1) = Inr s'"
    using assms(2) by (auto simp: Schedule_def)
  from ScheduleWithLockHeld_good [OF assms(1) s1(1)] s1(2) show ?thesis
    using TerminateThread_good [of s1 c s'] StopThread_good [of s1 c s'] by (auto split: if_splits)
qed

lemma UnblockThread_special_good:
  assumes "good s" "UnblockThread s t = Inr s'" "th_state (threads s t) \<in> {STOPPED, WAITING_FOR_SIGNAL}"
  shows "good s' \<and> threads s' = threads s"
proof -
  have inv: "sched_inv s" using assms(1) by (simp add: good_def)
  obtain c where c: "current_thread s = Some c" using good_current [OF assms(1)] by blast
  have "t \<notin> set (ready_list s)" using assms(2,3)
    by (auto simp: UnblockThread_def tq_insert_def)
  moreover have "t \<notin> set (sleep_list s)" using sched_inv_sleeper [OF inv, of t] assms(3) by (auto simp: sleeper_ok_def)
  moreover have "t \<notin> set (sem_waiting_list (sems s i))" for i
    using sched_inv_waiter [OF inv, of t i] assms(3) by (auto simp: waiter_ok_def split: if_splits)
  ultimately show ?thesis
    using UnblockThread_unlisted_inv [OF inv, of t c] assms(2,3) c by (auto simp: good_def)
qed

lemma RaiseSignal_good:
  assumes "good s" "RaiseSignal s t n = Inr (s', e)"
  shows "good s'"
proof (cases "n \<ge> SIG_UPPER_BND")
  case False
  define s1 where "s1 = upd_thread t (\<lambda>th. th\<lparr>th_signal_intr := True,
                     th_pending_signals := th_pending_signals th OR sigbit n\<rparr>) s"
  have g1: "good s1" by (rule good_frame [OF assms(1)]) (auto simp: s1_def)
  obtain s2 where s2: "(if n = SIGKILL then Inr (upd_thread t (th_needs_termination_update (\<lambda>_. True)) s1)
                  else if n = SIGSTOP then Inr (upd_thread t (th_needs_stopping_update (\<lambda>_. True)) s1)
                  else if n = SIGCONT \<and> th_state (threads s1 t) = STOPPED then UnblockThread s1 t
                  else Inr s1) = Inr s2"
    and last: "(if th_state (threads s2 t) = WAITING_FOR_SIGNAL then UnblockThread s2 t else Inr s2) = Inr s'"
  proof -
    have "kbind (if n = SIGKILL then Inr (upd_thread t (th_needs_termination_update (\<lambda>_. True)) s1)
                  else if n = SIGSTOP then Inr (upd_thread t (th_needs_stopping_update (\<lambda>_. True)) s1)
                  else if n = SIGCONT \<and> th_state (threads s1 t) = STOPPED then UnblockThread s1 t
                  else Inr s1)
       (\<lambda>s. kbind (if th_state (threads s t) = WAITING_FOR_SIGNAL then UnblockThread s t else Inr s)
               (\<lambda>s. Inr (s, ESUCCESS))) = Inr (s', e)"
      using assms(2) False by (simp only: RaiseSignal_def Let_def s1_def if_False)
    then show ?thesis using that by auto
  qed
  have "good s2"
    using s2 g1 UnblockThread_special_good [OF g1, of t s2]
    by (auto split: if_splits intro: good_upd_thread [OF g1])
  with last UnblockThread_special_good [of s2 t s'] show ?thesis by (auto split: if_splits)
qed (use assms in \<open>simp add: RaiseSignal_def\<close>)

lemma handle_alarms_loop_same: "handle_alarms_loop time i s = Inr s' \<Longrightarrow> same_threads s s'"
proof (induction "MAX_ALARMS - i" arbitrary: i s)
  case 0
  then show ?case by (subst (asm) handle_alarms_loop.simps) (auto simp: same_threads_def)
next
  case (Suc n)
  have IH: "handle_alarms_loop time (i + 1) u = Inr s' \<Longrightarrow> same_threads u s'" for u
    using Suc.hyps(1) [of "i + 1" u] Suc.hyps(2) by simp
  have same: "same_threads (s\<lparr>alarms := as, num_alarms_installed := k, deferred_calls := ds\<rparr>) s' = same_threads s s'"
    for as k ds by (simp add: same_threads_def)
  from Suc.prems show ?case
    by (subst (asm) handle_alarms_loop.simps)
      (auto simp: Let_def defer_call_def same dest!: IH [simplified] split: if_splits,
       auto simp: same_threads_def)
qed

lemma HandleSleepWakeups_good:
  assumes "good s" "HandleSleepWakeups s = Inr s'"
  shows "good s'"
proof -
  obtain c where c: "current_thread s = Some c" using good_current [OF assms(1)] by blast
  obtain s0 where s0: "same_threads s s0"
    "HandleSleepWakeups s = kbind (HandleAlarms s0 (system_time s)) (wakeup_loop (system_time s))"
    using HandleSleepWakeups_prologue [OF c] by metis
  obtain s1 where s1: "HandleAlarms s0 (system_time s) = Inr s1" "wakeup_loop (system_time s) s1 = Inr s'"
    using assms(2) s0(2) by auto
  have "same_threads s0 s1" using s1(1) handle_alarms_loop_same by (simp add: HandleAlarms_def)
  with s0(1) have same: "same_threads s s1" by (simp add: same_threads_def)
  have "sched_inv s1" using same_threads_inv [OF same] assms(1) by (simp add: good_def)
  moreover have "current_thread s1 = Some c" using same c by (simp add: same_threads_def)
  ultimately show ?thesis using wakeup_loop_inv [of s1 c "system_time s"] s1(2) by (auto simp: good_def)
qed

lemma AcquireSemaphore_good:
  assumes "good s" "current_thread s = Some c" "th_state (threads s c) = RUNNING"
    "AcquireSemaphore s i tm = Inr (s', b)"
  shows "good s'"
proof -
  have inv: "sched_inv s" using assms(1) by (simp add: good_def)
  have cur: "current_thread s' = Some c"
    using assms(2,3,4)
    by (auto simp: AcquireSemaphore_def Let_def BlockThread_def QueueForSleep_def split: if_splits)
  have "sched_inv s'"
  proof (cases "sem_current_count (sems s i) < sem_max_count (sems s i)")
    case True
    then show ?thesis using AcquireSemaphore_free [OF inv True, of tm] assms(4) by auto
  next
    case False
    then show ?thesis
      using AcquireSemaphore_try [OF inv assms(2,3) False] AcquireSemaphore_block [OF inv assms(2,3) False, of tm]
        assms(4) by (cases "tm = 0") auto
  qed
  then show ?thesis using cur by (simp add: good_def)
qed

lemma upd_sem_good:
  assumes "good s" "sem_waiting_list (f (sems s i)) = sem_waiting_list (sems s i)"
    "sem_ok (upd_sem i f s) i"
  shows "good (upd_sem i f s)"
proof -
  have inv: "sched_inv s" using assms(1) by (simp add: good_def)
  have "sem_ok (upd_sem i f s) j" for j
    using assms(3) sem_ok_other [OF inv, of "upd_sem i f s" j] by (cases "j = i") auto
  then have "sched_inv (upd_sem i f s)"
    by (intro sched_inv_frame [OF inv]) (use assms(2) in auto)
  then show ?thesis using assms(1) by (simp add: good_def)
qed

lemma FillSemaphore_good:
  assumes "good s" "FillSemaphore s i = (s', r)"
  shows "good s'"
proof (cases "sem_current_count (sems s i) \<le> sem_max_count (sems s i)")
  case True
  have inv: "sched_inv s" using assms(1) by (simp add: good_def)
  have "s' = upd_sem i (sem_current_count_update (\<lambda>_. sem_max_count (sems s i))) s"
    using True assms(2) by (simp add: FillSemaphore_def Let_def)
  then show ?thesis
    using sched_inv_sem [OF inv, of i] by (auto intro!: upd_sem_good [OF assms(1)] simp: sem_ok_def Let_def)
qed (use assms in \<open>simp add: FillSemaphore_def Let_def\<close>)

lemma CreateThreadEx_good:
  assumes "good s" "t \<notin> set (sleep_list s)" "\<And>i. t \<notin> set (sem_waiting_list (sems s i))"
    "current_thread s \<noteq> Some t" "CreateThreadEx s t pol pri = Inr s'"
  shows "good s'"
proof -
  have inv: "sched_inv s" using assms(1) by (simp add: good_def)
  have s': "ready_list s' = ready_list s @ [t]" "t \<notin> set (ready_list s)" "sleep_list s' = sleep_list s"
    "sems s' = sems s" "current_thread s' = current_thread s"
    "\<And>u. u \<noteq> t \<Longrightarrow> threads s' u = threads s u"
    using assms(5) by (auto simp: CreateThreadEx_def Let_def tq_insert_def)
  have "sched_inv s'"
    unfolding sched_inv_def
  proof (intro conjI allI impI)
    show "sem_ok s' j" for j using sem_ok_other [OF inv] s' by simp
    show "waiter_ok s' j u" if "u \<in> set (sem_waiting_list (sems s' j))" for j u
      using that sched_inv_waiter [OF inv, of u j] assms(3) [of j] s'(6) [of u]
      by (cases "u = t") (auto simp: waiter_ok_def s')
    show "sleeper_ok s' u" if "u \<in> set (sleep_list s')" for u
      using that sched_inv_sleeper [OF inv, of u] assms(2) s'(6) [of u]
      by (cases "u = t") (auto simp: sleeper_ok_def s')
    show "current_ok s'"
      using inv assms(4) s'(6) by (auto simp: sched_inv_def current_ok_def s' split: option.splits)
  qed (use inv s' in \<open>auto simp: sched_inv_def\<close>)
  then show ?thesis using assms(1) s' by (simp add: good_def)
qed

lemma SleepUntil_good:
  assumes "good s" "current_thread s = Some c" "th_state (threads s c) = RUNNING" "SleepUntil s w = Inr (s', b)"
  shows "good s'"
proof (cases "w < system_time s")
  case False
  have "current_thread s' = Some c"
    using assms(2,4) False
    by (auto simp: SleepUntil_def GetSystemTimer_def GetThread_def QueueForSleep_def BlockThread_def)
  with SleepUntil_inv [OF _ assms(2,3) False] assms(1,4) show ?thesis by (auto simp: good_def)
qed (use assms in \<open>simp add: SleepUntil_def GetSystemTimer_def\<close>)

lemma ReceivedTimer_good: "good s \<Longrightarrow> ReceivedTimer s n = Inr s' \<Longrightarrow> good s'"
  by (erule good_frame)
    (auto simp: ReceivedTimer_def defer_call_def Let_def split: if_splits option.splits)

lemma signal_masks_good:
  "good s \<Longrightarrow> FindSignalToHandle s = (s', r) \<Longrightarrow> good s'"
  "good s \<Longrightarrow> HandleSignal s n = Inr (s', h) \<Longrightarrow> good s'"
  "good s \<Longrightarrow> SetBlockedSignals s how ch protect = Inr (s', e, old) \<Longrightarrow> good s'"
  "good s \<Longrightarrow> SetThreadPriority s t pol pri = (s', e') \<Longrightarrow> good s'"
proof -
  show "good s'" if "good s" "FindSignalToHandle s = (s', r)" for s s' r
    using that by (auto simp: FindSignalToHandle_def Let_def split: option.splits if_splits intro: good_upd_thread)
  show "good s'" if "good s" "HandleSignal s n = Inr (s', h)" for s s' n h
    using that by (auto simp: HandleSignal_def Let_def split: if_splits intro!: good_upd_thread)
  show "good s'" if "good s" "SetBlockedSignals s how ch protect = Inr (s', e, old)" for s s' e old
    using that by (auto simp: SetBlockedSignals_def Let_def split: option.splits if_splits intro: good_upd_thread)
  show "good s'" if "good s" "SetThreadPriority s t pol pri = (s', e')" for s s' e'
    using that by (auto simp: SetThreadPriority_def Let_def split: if_splits intro!: good_upd_thread)
qed

lemma SuspendForSignal_good:
  assumes "good s" "SuspendForSignal s m ok protect = Inr (s', e, old)"
  shows "good s'"
proof (cases ok)
  case True
  then obtain c f where "BlockThread (upd_thread c f s) WAITING_FOR_SIGNAL = Inr s'"
    "\<And>th. th_state (f th) = th_state th" "\<And>th. th_waiting_on_semaphore (f th) = th_waiting_on_semaphore th"
    using assms(2) by (auto simp: SuspendForSignal_def Let_def)
  moreover from this have "good (upd_thread c f s)" by (simp add: good_upd_thread assms(1))
  ultimately show ?thesis using BlockThread_good by blast
qed (use assms in \<open>simp add: SuspendForSignal_def\<close>)

lemma alarms_good:
  "good s \<Longrightarrow> CreateAlarmAbsolute s w cb arg = (s', e, aid) \<Longrightarrow> good s'"
  "good s \<Longrightarrow> DestroyAlarm s aid' = (s', e, left) \<Longrightarrow> good s'"
proof -
  show "good s'" if "good s" "CreateAlarmAbsolute s w cb arg = (s', e, aid)" for aid
    using that(2) by (intro good_frame [OF that(1)])
      (auto simp: CreateAlarmAbsolute_def split: if_splits option.splits)
  show "good s'" if "good s" "DestroyAlarm s aid' = (s', e, left)"
    using that(2) by (intro good_frame [OF that(1)])
      (auto simp: DestroyAlarm_def UpdateAlarm_def Let_def split: if_splits)
qed

lemma kstep_good:
  assumes "kstep s s'" "good s"
  shows "good s'"
  using assms
proof (cases rule: kstep.cases)
  case (new_sem i cur mx)
  then show ?thesis
    using assms(2) by (auto intro!: upd_sem_good simp: CreateSemaphore_def sem_ok_def Let_def)
next
  case (receive m p)
  then show ?thesis
    by (intro good_frame [OF assms(2)]) (auto simp: ReceiveMessage_take_def Let_def split: list.splits)
next
  case (pause e)
  then show ?thesis using BlockThread_good [OF assms(2)] by (auto simp: PauseForSignal_def)
next
  case (resume t)
  then show ?thesis using assms(2) by (auto simp: SuspendForSignal_resume_def intro: good_upd_thread)
next
  case (acquire c i tm b)
  then show ?thesis using AcquireSemaphore_good assms(2) by blast
next
  case (release i n k)
  then show ?thesis using ReleaseSemaphoreEx_good assms(2) by blast
next
  case (fill i r)
  then show ?thesis using FillSemaphore_good assms(2) by blast
next
  case (send m p)
  then show ?thesis using SendMessage_good assms(2) by blast
next
  case (sleep c w b)
  then show ?thesis using SleepUntil_good assms(2) by blast
next
  case (tick n)
  then show ?thesis using ReceivedTimer_good assms(2) by blast
next
  case wakeups
  then show ?thesis using HandleSleepWakeups_good assms(2) by blast
next
  case (switch irql)
  then show ?thesis using Schedule_good assms(2) by blast
next
  case (signal t n e)
  then show ?thesis using RaiseSignal_good assms(2) by blast
next
  case (find_signal r)
  then show ?thesis using signal_masks_good(1) assms(2) by blast
next
  case (handle_signal n h)
  then show ?thesis using signal_masks_good(2) assms(2) by blast
next
  case (set_mask how ch protect e old)
  then show ?thesis using signal_masks_good(3) assms(2) by blast
next
  case (priority t pol pri e)
  then show ?thesis using signal_masks_good(4) assms(2) by blast
next
  case (suspend new_mask ok protect e old)
  then show ?thesis using SuspendForSignal_good assms(2) by blast
next
  case (stop t)
  then show ?thesis using StopThread_good assms(2) by blast
next
  case (terminate t)
  then show ?thesis using TerminateThread_good assms(2) by blast
next
  case (create t pol pri)
  then show ?thesis using CreateThreadEx_good assms(2) by blast
next
  case (alarm w cb arg e aid)
  then show ?thesis using alarms_good(1) assms(2) by blast
next
  case (unalarm aid e left)
  then show ?thesis using alarms_good(2) assms(2) by blast
qed

lemma initial_good: "initial s \<Longrightarrow> good s"
  by (auto simp: initial_def good_def inv_defs Let_def)

subsection \<open>Properties\<close>

text \<open>C17.  In every state reachable by any interleaving of semaphore operations, messages, sleeps,
  timer ticks, wakeups, signals, thread creation, termination and task switches: each semaphore's
  count is between zero and its maximum, threads wait only on a semaphore with no free unit, no
  thread is on a list twice or both ready and waiting or asleep, a thread waiting with a timeout
  is exactly one that is also asleep, and the running thread is on no list.\<close>

theorem reachable_sched_inv:
  assumes "reachable s"
  shows "sched_inv s \<and> current_thread s \<noteq> None"
  using assms
proof (induction rule: reachable.induct)
  case (start s)
  then show ?case using initial_good by (simp add: good_def)
next
  case (step s s')
  then show ?case using kstep_good by (simp add: good_def)
qed

theorem reachable_sched_inv_witness:
  "\<exists>s. reachable s \<and> sem_waiting_list (sems s 3) = [0] \<and> sched_inv s"
proof -
  have "initial idle_sys" by (simp add: initial_def idle_sys_def CreateSemaphore_def)
  then have "reachable idle_sys" by (rule start)
  moreover obtain s' where s': "AcquireSemaphore idle_sys 3 (-1) = Inr (s', True)" "sem_waiting_list (sems s' 3) = [0]"
    by (auto simp: AcquireSemaphore_def idle_sys_def CreateSemaphore_def tq_insert_def BlockThread_def)
  moreover have "kstep idle_sys s'"
    by (rule acquire [OF _ _ s'(1), where c = 0]) (simp_all add: idle_sys_def)
  ultimately have "reachable s'" by (blast intro: step)
  with reachable_sched_inv [OF this] s'(2) show ?thesis by blast
qed

end
