(* ===== verification/UserTransfer.thy ===== *)
theory UserTransfer
  imports Prelude
begin

text \<open>
  Transfers between kernel buffers and untrusted memory: kernel/vfs/transfer.c, with
  \<^verbatim>\<open>GetVirtPermissions\<close> and \<^verbatim>\<open>BytesToPages\<close> of kernel/mem/virtual.c.  Addresses are
  32-bit words, memory is a function from addresses to bytes, and the address space is the map
  from addresses to the entry that \<^verbatim>\<open>GetVirtEntry\<close> finds for their page.  A trusted kernel
  buffer is the list of its bytes and never the null pointer; the operations return its new
  contents.
\<close>

unbundle bit_operations_syntax

subsection \<open>Memory and permissions\<close>

type_synonym memory = "u32 \<Rightarrow> u8"

record vas_entry =
  ve_read :: bool
  ve_write :: bool
  ve_exec :: bool
  ve_lock :: bool
  ve_file :: bool
  ve_user :: bool
  ve_global :: bool
  ve_relocatable :: bool

type_synonym vas = "u32 \<Rightarrow> vas_entry option"

abbreviation (input) ARCH_PAGE_SIZE :: u32 where "ARCH_PAGE_SIZE \<equiv> 4096"
abbreviation (input) ARCH_USER_AREA_BASE :: u32 where "ARCH_USER_AREA_BASE \<equiv> 0x08000000"
abbreviation (input) ARCH_USER_AREA_LIMIT :: u32 where "ARCH_USER_AREA_LIMIT \<equiv> 0xC0000000"

abbreviation (input) VM_READ :: u32 where "VM_READ \<equiv> 1"
abbreviation (input) VM_WRITE :: u32 where "VM_WRITE \<equiv> 2"
abbreviation (input) VM_USER :: u32 where "VM_USER \<equiv> 4"
abbreviation (input) VM_EXEC :: u32 where "VM_EXEC \<equiv> 8"
abbreviation (input) VM_LOCK :: u32 where "VM_LOCK \<equiv> 16"
abbreviation (input) VM_FILE :: u32 where "VM_FILE \<equiv> 32"
abbreviation (input) VM_LOCAL :: u32 where "VM_LOCAL \<equiv> 256"
abbreviation (input) VM_RELOCATABLE :: u32 where "VM_RELOCATABLE \<equiv> 1024"

definition GetVirtPermissions :: "vas \<Rightarrow> u32 \<Rightarrow> u32" where
  "GetVirtPermissions vas virtual =
     (case vas virtual of
        None \<Rightarrow> 0
      | Some entry \<Rightarrow>
          (if ve_read entry then VM_READ else 0) OR
          (if ve_write entry then VM_WRITE else 0) OR
          (if ve_exec entry then VM_EXEC else 0) OR
          (if ve_lock entry then VM_LOCK else 0) OR
          (if ve_file entry then VM_FILE else 0) OR
          (if ve_user entry then VM_USER else 0) OR
          (if \<not> ve_global entry then VM_LOCAL else 0) OR
          (if ve_relocatable entry then VM_RELOCATABLE else 0))"

definition BytesToPages :: "u32 \<Rightarrow> u32" where
  "BytesToPages bytes = (bytes + ARCH_PAGE_SIZE - 1) div ARCH_PAGE_SIZE"

text \<open>The checks of one iteration of the loop over the pages.\<close>

definition page_refused :: "vas \<Rightarrow> bool \<Rightarrow> u32 \<Rightarrow> bool" where
  "page_refused vas write page =
     (let permissions = GetVirtPermissions vas (page * ARCH_PAGE_SIZE) in
      permissions = 0 \<or> permissions AND VM_READ = 0 \<or> permissions AND VM_USER = 0 \<or>
      (write \<and> permissions AND VM_WRITE = 0) \<or> (write \<and> permissions AND VM_EXEC \<noteq> 0))"

fun validate_pages :: "vas \<Rightarrow> bool \<Rightarrow> u32 \<Rightarrow> nat \<Rightarrow> errno" where
  "validate_pages vas write page 0 = ESUCCESS"
| "validate_pages vas write page (Suc n) =
     (if page_refused vas write page then EINVAL else validate_pages vas write (page + 1) n)"

definition ValidateCopy :: "vas \<Rightarrow> u32 \<Rightarrow> u32 \<Rightarrow> bool \<Rightarrow> errno" where
  "ValidateCopy vas user_addr sz write =
     (let initial_address = user_addr; final_address = initial_address + sz in
      if initial_address < ARCH_USER_AREA_BASE \<or> initial_address \<ge> ARCH_USER_AREA_LIMIT then EINVAL
      else if final_address < initial_address then EINVAL
      else if final_address < ARCH_USER_AREA_BASE \<or> final_address \<ge> ARCH_USER_AREA_LIMIT then EINVAL
      else validate_pages vas write (initial_address div ARCH_PAGE_SIZE) (unat (BytesToPages sz)))"

subsection \<open>Copying\<close>

definition read_bytes :: "memory \<Rightarrow> u32 \<Rightarrow> nat \<Rightarrow> u8 list" where
  "read_bytes m a n = map (\<lambda>i. m (a + of_nat i)) [0..<n]"

definition write_bytes :: "memory \<Rightarrow> u32 \<Rightarrow> u8 list \<Rightarrow> memory" where
  "write_bytes m a xs = (\<lambda>p. if unat (p - a) < length xs then xs ! unat (p - a) else m p)"

definition CopyIntoKernel :: "vas \<Rightarrow> memory \<Rightarrow> u8 list \<Rightarrow> u32 \<Rightarrow> u32 \<Rightarrow> u8 list \<times> errno" where
  "CopyIntoKernel vas m kernel_buf user_addr sz =
     (let status = ValidateCopy vas user_addr sz False in
      if status \<noteq> ESUCCESS then (kernel_buf, status)
      else (read_bytes m user_addr (unat sz) @ drop (unat sz) kernel_buf, ESUCCESS))"

definition CopyOutOfKernel :: "vas \<Rightarrow> memory \<Rightarrow> u8 list \<Rightarrow> u32 \<Rightarrow> u32 \<Rightarrow> memory \<times> errno" where
  "CopyOutOfKernel vas m kernel_buf user_addr sz =
     (let status = ValidateCopy vas user_addr sz True in
      if status \<noteq> ESUCCESS then (m, status)
      else (write_bytes m user_addr (take (unat sz) kernel_buf), ESUCCESS))"

subsection \<open>Transfers\<close>

datatype transfer_type = TRANSFER_INTRA_KERNEL | TRANSFER_USERMODE
datatype transfer_direction = TRANSFER_READ | TRANSFER_WRITE

record transfer =
  tr_address :: u32
  tr_length_remaining :: u64
  tr_offset :: u64
  tr_direction :: transfer_direction
  tr_type :: transfer_type
  tr_blockable :: bool

definition RevertTransfer :: "transfer \<Rightarrow> u64 \<Rightarrow> transfer" where
  "RevertTransfer untrusted amount =
     untrusted\<lparr>tr_length_remaining := tr_length_remaining untrusted + amount,
               tr_offset := tr_offset untrusted - amount,
               tr_address := tr_address untrusted - ucast amount\<rparr>"

definition transfer_amount :: "transfer \<Rightarrow> u64 \<Rightarrow> u32" where
  "transfer_amount untrusted len = ucast (min len (tr_length_remaining untrusted))"

definition advance :: "transfer \<Rightarrow> u32 \<Rightarrow> transfer" where
  "advance untrusted amount =
     untrusted\<lparr>tr_length_remaining := tr_length_remaining untrusted - ucast amount,
               tr_offset := tr_offset untrusted + ucast amount,
               tr_address := tr_address untrusted + amount\<rparr>"

definition PerformTransfer ::
    "vas \<Rightarrow> memory \<Rightarrow> u8 list \<Rightarrow> transfer \<Rightarrow> u64 \<Rightarrow> (memory \<times> u8 list \<times> transfer \<times> errno) kres" where
  "PerformTransfer vas m trusted untrusted len =
     kassert (tr_address untrusted \<noteq> 0)
      (let amount = transfer_amount untrusted len; addr = tr_address untrusted in
       if amount = 0 then Inr (m, trusted, untrusted, ESUCCESS)
       else
        let (m', trusted', result) =
          (case (tr_type untrusted, tr_direction untrusted) of
             (TRANSFER_INTRA_KERNEL, TRANSFER_READ) \<Rightarrow>
               (write_bytes m addr (take (unat amount) trusted), trusted, ESUCCESS)
           | (TRANSFER_INTRA_KERNEL, TRANSFER_WRITE) \<Rightarrow>
               (m, read_bytes m addr (unat amount) @ drop (unat amount) trusted, ESUCCESS)
           | (TRANSFER_USERMODE, TRANSFER_READ) \<Rightarrow>
               (let (m', r) = CopyOutOfKernel vas m trusted addr amount in (m', trusted, r))
           | (TRANSFER_USERMODE, TRANSFER_WRITE) \<Rightarrow>
               (let (b, r) = CopyIntoKernel vas m trusted addr amount in (m, b, r)))
        in Inr (m', trusted', if result = ESUCCESS then advance untrusted amount else untrusted, result))"

definition CreateTransfer ::
    "u32 \<Rightarrow> u64 \<Rightarrow> u64 \<Rightarrow> transfer_direction \<Rightarrow> transfer_type \<Rightarrow> transfer" where
  "CreateTransfer addr len offset direction type =
     \<lparr>tr_address = addr, tr_length_remaining = len, tr_offset = offset,
      tr_direction = direction, tr_type = type, tr_blockable = True\<rparr>"

definition CreateKernelTransfer :: "u32 \<Rightarrow> u64 \<Rightarrow> u64 \<Rightarrow> transfer_direction \<Rightarrow> transfer" where
  "CreateKernelTransfer addr len offset direction =
     CreateTransfer addr len offset direction TRANSFER_INTRA_KERNEL"

definition CreateTransferWritingToUser :: "u32 \<Rightarrow> u64 \<Rightarrow> u64 \<Rightarrow> transfer" where
  "CreateTransferWritingToUser addr len offset =
     CreateTransfer addr len offset TRANSFER_READ TRANSFER_USERMODE"

definition CreateTransferReadingFromUser :: "u32 \<Rightarrow> u64 \<Rightarrow> u64 \<Rightarrow> transfer" where
  "CreateTransferReadingFromUser addr len offset =
     CreateTransfer addr len offset TRANSFER_WRITE TRANSFER_USERMODE"

lemmas create_defs = CreateTransfer_def CreateTransferWritingToUser_def
  CreateTransferReadingFromUser_def CreateKernelTransfer_def

subsection \<open>Strings and words\<close>




text \<open>A \<^verbatim>\<open>size_t\<close> as its four bytes, little endian.\<close>

definition bytes_of_word :: "u32 \<Rightarrow> u8 list" where
  "bytes_of_word v = map (\<lambda>i. ucast (drop_bit (8 * i) v)) [0, 1, 2, 3]"

definition word_of_bytes :: "u8 list \<Rightarrow> u32" where
  "word_of_bytes bs = foldr (\<lambda>b w. ucast b OR push_bit 8 w) bs 0"

definition WriteWordToUsermode :: "vas \<Rightarrow> memory \<Rightarrow> u32 \<Rightarrow> u32 \<Rightarrow> (memory \<times> errno) kres" where
  "WriteWordToUsermode vas m location val =
     kbind (PerformTransfer vas m (bytes_of_word val) (CreateTransferWritingToUser location 4 0) 4)
       (\<lambda>(m, _, io, res). Inr (m, if tr_length_remaining io \<noteq> 0 then EINVAL else res))"

definition ReadWordFromUsermode :: "vas \<Rightarrow> memory \<Rightarrow> u32 \<Rightarrow> u32 \<Rightarrow> (u32 \<times> errno) kres" where
  "ReadWordFromUsermode vas m location output =
     kbind (PerformTransfer vas m (bytes_of_word output) (CreateTransferReadingFromUser location 4 0) 4)
       (\<lambda>(_, b, io, res). Inr (word_of_bytes b, if tr_length_remaining io \<noteq> 0 then EINVAL else res))"

lemma unat_u32_less: "unat (a :: u32) < 2 ^ 32" "unat (a :: u32) < 4294967296"
  using unsigned_less [of a, where ?'a = nat] by simp_all

subsection \<open>Validation\<close>

lemma validate_pages_iff:
  "validate_pages vas w p n = ESUCCESS \<longleftrightarrow> (\<forall>i<n. \<not> page_refused vas w (p + of_nat i))"
  by (induction n arbitrary: p) (auto simp: less_Suc_eq_0_disj add.assoc)

lemma validate_pages_error: "validate_pages vas w p n \<noteq> ESUCCESS \<Longrightarrow> validate_pages vas w p n = EINVAL"
  by (induction n arbitrary: p) (auto split: if_splits)

lemma ValidateCopy_error: "ValidateCopy vas a sz w \<noteq> ESUCCESS \<Longrightarrow> ValidateCopy vas a sz w = EINVAL"
  using validate_pages_error by (auto simp: ValidateCopy_def Let_def split: if_splits)

text \<open>Whether the page of an address may be accessed by a user-mode copy.\<close>

definition user_accessible :: "vas \<Rightarrow> bool \<Rightarrow> u32 \<Rightarrow> bool" where
  "user_accessible vas write p \<longleftrightarrow> \<not> page_refused vas write (p div ARCH_PAGE_SIZE)"

lemma user_accessible_read: "user_accessible vas True p \<Longrightarrow> user_accessible vas w p"
  by (auto simp: user_accessible_def page_refused_def Let_def)

text \<open>A range of addresses that lies within the user area.\<close>

definition in_user_area :: "u32 \<Rightarrow> nat \<Rightarrow> bool" where
  "in_user_area a n \<longleftrightarrow> unat ARCH_USER_AREA_BASE \<le> unat a \<and> unat a + n < unat ARCH_USER_AREA_LIMIT"

lemma unat_add_no_overflow: "(a :: u32) \<le> a + b \<longleftrightarrow> unat (a + b) = unat a + unat b"
proof -
  have "unat b < 4294967296" by (rule unat_u32_less)
  then show ?thesis by (auto simp: word_le_nat_alt unat_plus_if' split: if_splits)
qed

lemma ValidateCopy_iff:
  "ValidateCopy vas a sz w = ESUCCESS \<longleftrightarrow>
     in_user_area a (unat sz) \<and>
     (\<forall>i<unat (BytesToPages sz). \<not> page_refused vas w (a div ARCH_PAGE_SIZE + of_nat i))"
proof -
  have "unat sz < 4294967296" by (rule unat_u32_less)
  then have "in_user_area a (unat sz) \<longleftrightarrow> \<not> (a < ARCH_USER_AREA_BASE \<or> a \<ge> ARCH_USER_AREA_LIMIT) \<and>
     \<not> a + sz < a \<and> \<not> (a + sz < ARCH_USER_AREA_BASE \<or> a + sz \<ge> ARCH_USER_AREA_LIMIT)"
    by (auto simp: in_user_area_def word_le_nat_alt word_less_nat_alt unat_plus_if' split: if_splits)
  then show ?thesis by (simp add: ValidateCopy_def Let_def validate_pages_iff)
qed

lemma unat_page: "unat (p div ARCH_PAGE_SIZE) = unat p div 4096"
  by (simp add: unat_div)

lemma unat_BytesToPages:
  assumes "unat sz < 0xC0000000"
  shows "unat (BytesToPages sz) = (unat sz + 4095) div 4096"
proof -
  have "sz + 4096 - 1 = sz + (4095 :: u32)" by simp
  moreover have "unat (sz + (4095 :: u32)) = unat sz + 4095"
    using assms by (simp add: unat_plus_if')
  ultimately show ?thesis by (simp add: BytesToPages_def unat_page add.commute)
qed

lemma unat_add_of_nat: "unat (a :: u32) + n < 2 ^ 32 \<Longrightarrow> unat (a + of_nat n) = unat a + n"
  by (simp add: unat_plus_if' unat_of_nat)

lemma page_of_offset:
  assumes "in_user_area a n" "i \<le> n" "unat a mod 4096 = 0 \<or> 4096 dvd i"
  shows "(a + of_nat i) div ARCH_PAGE_SIZE = a div ARCH_PAGE_SIZE + of_nat (i div 4096)"
proof -
  have lim: "unat a + i < 4294967296" using assms(1,2) by (simp add: in_user_area_def)
  then have "unat ((a + of_nat i) div ARCH_PAGE_SIZE) = (unat a + i) div 4096"
    by (simp add: unat_page unat_add_of_nat)
  also have "\<dots> = unat a div 4096 + i div 4096" using assms(3) by (auto simp: div_add1_eq [of "unat a"])
  also have "\<dots> = unat (a div ARCH_PAGE_SIZE + of_nat (i div 4096))"
    using lim unat_add_of_nat [of "a div ARCH_PAGE_SIZE" "i div 4096"] by (simp add: unat_page)
  finally show ?thesis by (simp only: word_unat_eq_iff)
qed

lemma ValidateCopy_aligned:
  assumes "ValidateCopy vas a sz w = ESUCCESS" "unat a mod 4096 = 0" "i < unat sz"
  shows "user_accessible vas w (a + of_nat i)"
proof -
  have area: "in_user_area a (unat sz)" using assms(1) by (simp add: ValidateCopy_iff)
  then have "unat (BytesToPages sz) = (unat sz + 4095) div 4096"
    by (intro unat_BytesToPages) (simp add: in_user_area_def)
  with assms(3) have "i div 4096 < unat (BytesToPages sz)" by linarith
  with assms(1) page_of_offset [OF area] assms(2,3) show ?thesis
    by (simp add: ValidateCopy_iff user_accessible_def)
qed

lemma ValidateCopy_accessible:
  assumes "in_user_area a n" "\<And>i. i < n \<Longrightarrow> user_accessible vas w (a + of_nat i)"
  shows "ValidateCopy vas a (of_nat n) w = ESUCCESS"
proof -
  have n: "unat (of_nat n :: u32) = n" using assms(1) by (simp add: in_user_area_def unat_of_nat)
  have "\<not> page_refused vas w (a div ARCH_PAGE_SIZE + of_nat j)" if "j < (n + 4095) div 4096" for j
  proof -
    from that have j: "j * 4096 < n" by linarith
    with page_of_offset [OF assms(1), of "j * 4096"] assms(2) [OF j] show ?thesis
      by (simp add: user_accessible_def)
  qed
  moreover have "unat (BytesToPages (of_nat n)) = (n + 4095) div 4096"
    using unat_BytesToPages [of "of_nat n"] assms(1) unfolding n by (simp add: in_user_area_def)
  ultimately show ?thesis using assms(1) by (simp add: ValidateCopy_iff n)
qed

subsection \<open>Copies\<close>

lemma length_read_bytes [simp]: "length (read_bytes m a n) = n"
  by (simp add: read_bytes_def)

lemma read_write_bytes:
  assumes "length xs \<le> 2 ^ 32"
  shows "read_bytes (write_bytes m a xs) a (length xs) = xs"
  using assms by (auto simp: read_bytes_def write_bytes_def unat_of_nat intro!: nth_equalityI)

lemma write_bytes_other: "length xs \<le> unat (p - a) \<Longrightarrow> write_bytes m a xs p = m p"
  by (simp add: write_bytes_def)


lemma read_bytes_append:
  "read_bytes m a (j + k) = read_bytes m a j @ read_bytes m (a + of_nat j) k"
  by (induction k) (simp_all add: read_bytes_def add.assoc)

lemma write_bytes_append:
  assumes "length xs + length ys \<le> 2 ^ 32"
  shows "write_bytes (write_bytes m a xs) (a + of_nat (length xs)) ys = write_bytes m a (xs @ ys)"
proof
  fix p :: u32
  define d where "d = unat (p - a)"
  have p: "p = a + of_nat d" by (simp add: d_def)
  have d: "d < 2 ^ 32" unfolding d_def by (rule unat_u32_less)
  define q where "q = unat (p - (a + of_nat (length xs)))"
  have eq: "(of_nat d :: u32) = of_nat (length xs + q)" by (simp add: d_def q_def)
  have small: "x = y" if "(of_nat x :: u32) = of_nat y" "x < 2 ^ 32" "y < 2 ^ 32" for x y
    using arg_cong [OF that(1), of unat] that(2,3) by (simp add: unat_of_nat)
  have "q < length ys \<longleftrightarrow> length xs \<le> d \<and> d - length xs < length ys"
  proof
    assume "q < length ys"
    then have "d = length xs + q" using assms d by (intro small [OF eq]) auto
    with \<open>q < length ys\<close> show "length xs \<le> d \<and> d - length xs < length ys" by simp
  next
    assume asm: "length xs \<le> d \<and> d - length xs < length ys"
    have "(of_nat (d - length xs) :: u32) = of_nat q" using eq asm by (simp add: of_nat_diff)
    moreover have "q < 2 ^ 32" unfolding q_def by (rule unat_u32_less)
    ultimately have "d - length xs = q" using d by (intro small) auto
    with asm show "q < length ys" by simp
  qed
  moreover have "d - length xs = q" if "q < length ys"
    using small [OF eq] d assms that by simp
  ultimately show "write_bytes (write_bytes m a xs) (a + of_nat (length xs)) ys p = write_bytes m a (xs @ ys) p"
    unfolding write_bytes_def q_def [symmetric] d_def [symmetric] by (auto simp: nth_append)
qed

text \<open>Reverting a transfer undoes its advance.\<close>

lemma ucast_u64_u32 [simp]: "ucast (ucast (n :: u32) :: u64) = n"
  by (rule bit_word_eqI) (simp add: bit_unsigned_iff)

lemma RevertTransfer_advance: "RevertTransfer (advance tr n) (ucast n) = tr"
  by (simp add: RevertTransfer_def advance_def)

text \<open>The result of a user-mode transfer, by the verdict of the validation.\<close>

lemma PerformTransfer_user:
  assumes "tr_type tr = TRANSFER_USERMODE" "tr_address tr \<noteq> 0" "transfer_amount tr len = n" "n \<noteq> 0"
  shows "PerformTransfer vas m buf tr len =
    (let w = (tr_direction tr = TRANSFER_READ) in
     if ValidateCopy vas (tr_address tr) n w = ESUCCESS
     then if w then Inr (write_bytes m (tr_address tr) (take (unat n) buf), buf, advance tr n, ESUCCESS)
          else Inr (m, read_bytes m (tr_address tr) (unat n) @ drop (unat n) buf, advance tr n, ESUCCESS)
     else Inr (m, buf, tr, EINVAL))"
  using assms ValidateCopy_error [of vas "tr_address tr" n]
  by (cases "tr_direction tr")
     (auto simp: PerformTransfer_def Let_def CopyOutOfKernel_def CopyIntoKernel_def)

lemma PerformTransfer_nothing:
  "tr_address tr \<noteq> 0 \<Longrightarrow> transfer_amount tr len = 0 \<Longrightarrow>
   PerformTransfer vas m buf tr len = Inr (m, buf, tr, ESUCCESS)"
  by (simp add: PerformTransfer_def)

subsection \<open>Strings\<close>


lemma in_user_area_nonnull: "in_user_area a n \<Longrightarrow> a \<noteq> 0"
  by (auto simp: in_user_area_def)


lemma transfer_amount_fits:
  assumes "n \<le> unat (tr_length_remaining tr)" "n < 2 ^ 32"
  shows "transfer_amount tr (of_nat n) = of_nat n"
proof -
  have n: "unat (of_nat n :: u64) = n" using assms(2) by (simp add: unat_of_nat)
  with assms(1) have "min (of_nat n) (tr_length_remaining tr) = (of_nat n :: u64)"
    by (simp add: word_le_nat_alt min_absorb1)
  moreover have "take_bit 64 n = n" using assms(2) by (simp add: take_bit_nat_eq_self)
  ultimately show ?thesis by (simp add: transfer_amount_def unsigned_of_nat)
qed

text \<open>A user-mode transfer of \<open>n\<close> accessible bytes.\<close>

lemma PerformTransfer_accessible:
  assumes "tr_type tr = TRANSFER_USERMODE" "in_user_area (tr_address tr) n"
    "n \<le> unat (tr_length_remaining tr)" "n \<le> length buf"
    "\<And>i. i < n \<Longrightarrow> user_accessible vas (tr_direction tr = TRANSFER_READ) (tr_address tr + of_nat i)"
  shows "PerformTransfer vas m buf tr (of_nat n) =
    (if tr_direction tr = TRANSFER_READ
     then Inr (write_bytes m (tr_address tr) (take n buf), buf, advance tr (of_nat n), ESUCCESS)
     else Inr (m, read_bytes m (tr_address tr) n @ drop n buf, advance tr (of_nat n), ESUCCESS))"
proof -
  have n: "n < 2 ^ 32" "unat (of_nat n :: u32) = n"
    using assms(2) by (simp_all add: in_user_area_def unat_of_nat)
  have am: "transfer_amount tr (of_nat n) = of_nat n" by (rule transfer_amount_fits [OF assms(3) n(1)])
  show ?thesis
  proof (cases "n = 0")
    case True
    then show ?thesis
      using PerformTransfer_nothing [OF in_user_area_nonnull [OF assms(2)], of 0] am
      by (simp add: write_bytes_def read_bytes_def advance_def)
  next
    case False
    then have "(of_nat n :: u32) \<noteq> 0" using n(2) by (metis unat_0)
    with PerformTransfer_user [OF assms(1) in_user_area_nonnull [OF assms(2)] am]
      ValidateCopy_accessible [OF assms(2,5)] show ?thesis by (simp add: Let_def n(2))
  qed
qed



lemma word_bytes_roundtrip: "word_of_bytes (bytes_of_word v) = v"
proof (rule bit_word_eqI)
  fix n assume "n < LENGTH(32)"
  then have "n < 8 \<or> (8 \<le> n \<and> n < 16) \<or> (16 \<le> n \<and> n < 24) \<or> (24 \<le> n \<and> n < 32)" by auto
  then show "bit (word_of_bytes (bytes_of_word v)) n = bit v n"
    by (auto simp: word_of_bytes_def bytes_of_word_def bit_simps)
qed

lemma usermode_word_roundtrip:
  assumes "in_user_area dst 4" "\<And>i. i < 4 \<Longrightarrow> user_accessible vas True (dst + of_nat i)"
  shows "\<exists>m'. WriteWordToUsermode vas m dst v = Inr (m', ESUCCESS) \<and>
              ReadWordFromUsermode vas m' dst out = Inr (v, ESUCCESS)"
proof -
  have len: "length (bytes_of_word x) = 4" for x by (simp add: bytes_of_word_def)
  let ?w = "CreateTransferWritingToUser dst 4 0" and ?r = "CreateTransferReadingFromUser dst 4 0"
  let ?m = "write_bytes m dst (bytes_of_word v)"
  have "PerformTransfer vas m (bytes_of_word v) ?w 4 = Inr (?m, bytes_of_word v, advance ?w 4, ESUCCESS)"
    using PerformTransfer_accessible [of ?w 4 "bytes_of_word v" vas m] assms by (simp add: create_defs len)
  moreover have "PerformTransfer vas ?m (bytes_of_word out) ?r 4 =
      Inr (?m, bytes_of_word v, advance ?r 4, ESUCCESS)"
    using PerformTransfer_accessible [of ?r 4 "bytes_of_word out" vas ?m] assms
      user_accessible_read [of vas _ False] read_write_bytes [of "bytes_of_word v" m dst]
    by (simp add: create_defs len)
  ultimately show ?thesis
    by (simp add: WriteWordToUsermode_def ReadWordFromUsermode_def advance_def create_defs word_bytes_roundtrip)
qed

subsection \<open>Properties\<close>

text \<open>The flags of a page that user programs may read and write, and an address space with such
  pages everywhere.\<close>

definition user_page :: vas_entry where
  "user_page = \<lparr>ve_read = True, ve_write = True, ve_exec = False, ve_lock = False, ve_file = False,
     ve_user = True, ve_global = False, ve_relocatable = False\<rparr>"

lemma user_page_permissions: "vas (p * ARCH_PAGE_SIZE) = Some user_page \<Longrightarrow> \<not> page_refused vas w p"
  by (simp add: page_refused_def GetVirtPermissions_def user_page_def)

text \<open>C18.  A transfer with untrusted memory either fails with EINVAL and changes nothing, or moves
  exactly the requested amount, limited by what remains of the transfer: all addresses lie in the
  user area, for a read the bytes arrive in user memory and no other byte changes, for a write the
  bytes of user memory arrive at the start of the kernel buffer; the transfer advances by the
  amount, and RevertTransfer takes it back to where it was.  For a page-aligned address every page
  touched is one that user mode may access in the direction of the transfer.\<close>

theorem PerformTransfer_usermode:
  assumes "tr_type tr = TRANSFER_USERMODE" "tr_address tr \<noteq> 0"
    "transfer_amount tr len = n" "n \<noteq> 0" "unat n \<le> length buf"
  shows "\<exists>m' buf' tr' res. PerformTransfer vas m buf tr len = Inr (m', buf', tr', res) \<and>
    (if res = ESUCCESS
     then in_user_area (tr_address tr) (unat n) \<and>
       (\<forall>p. unat n \<le> unat (p - tr_address tr) \<longrightarrow> m' p = m p) \<and>
       read_bytes m' (tr_address tr) (unat n) = take (unat n) buf' \<and>
       drop (unat n) buf' = drop (unat n) buf \<and>
       (if tr_direction tr = TRANSFER_READ then buf' = buf else m' = m) \<and>
       tr_address tr' = tr_address tr + n \<and> RevertTransfer tr' (ucast n) = tr \<and>
       (unat (tr_address tr) mod 4096 = 0 \<longrightarrow>
          (\<forall>i<unat n. user_accessible vas (tr_direction tr = TRANSFER_READ) (tr_address tr + of_nat i)))
     else res = EINVAL \<and> m' = m \<and> buf' = buf \<and> tr' = tr)"
proof (cases "ValidateCopy vas (tr_address tr) n (tr_direction tr = TRANSFER_READ) = ESUCCESS")
  case True
  have addr: "tr_address (advance tr n) = tr_address tr + n" by (simp add: advance_def)
  have len: "length (take (unat n) buf) = unat n" "length (take (unat n) buf) \<le> 2 ^ 32"
    using assms(5) unat_u32_less(1) [of n] by auto
  have "in_user_area (tr_address tr) (unat n)" using True by (simp add: ValidateCopy_iff)
  with True PerformTransfer_user [OF assms(1-4), of vas m buf] assms(5) read_write_bytes [OF len(2)]
    ValidateCopy_aligned [OF True]
  show ?thesis
    by (auto simp: Let_def addr RevertTransfer_advance write_bytes_other len(1))
next
  case False
  then show ?thesis using PerformTransfer_user [OF assms(1-4)] by (simp add: Let_def)
qed

theorem PerformTransfer_usermode_witness:
  "\<exists>m'. PerformTransfer (\<lambda>_. Some user_page) (\<lambda>_. 0) [7, 8] (CreateTransferWritingToUser 0x08000000 2 0) 2 =
     Inr (m', [7, 8], advance (CreateTransferWritingToUser 0x08000000 2 0) 2, ESUCCESS) \<and>
   (\<forall>p. 2 \<le> unat (p - 0x08000000) \<longrightarrow> m' p = 0)"
proof -
  let ?tr = "CreateTransferWritingToUser 0x08000000 2 0" and ?vas = "\<lambda>_. Some user_page"
  have am: "transfer_amount ?tr 2 = 2" by (simp add: transfer_amount_def create_defs)
  have "ValidateCopy ?vas 0x08000000 2 True = ESUCCESS"
    by (simp add: ValidateCopy_iff user_page_permissions in_user_area_def)
  then have "PerformTransfer ?vas (\<lambda>_. 0) [7, 8] ?tr 2 =
      Inr (write_bytes (\<lambda>_. 0) 0x08000000 [7, 8], [7, 8], advance ?tr 2, ESUCCESS)"
    using PerformTransfer_user [of ?tr 2 2 ?vas "\<lambda>_. 0" "[7, 8]"] am by (simp add: create_defs)
  with PerformTransfer_usermode [of ?tr 2 2 "[7, 8]" ?vas "\<lambda>_. 0"] am show ?thesis
    by (simp add: create_defs)
qed



text \<open>The validation of an untrusted buffer counts its pages from its length alone, so when
  the buffer starts inside a page the last page it reaches is not checked: a two-byte write whose
  second byte lies on an unmapped page is accepted.\<close>

lemma ValidateCopy_misses_last_page:
  "\<exists>vas a. ValidateCopy vas a 2 True = ESUCCESS \<and> GetVirtPermissions vas ((a + 1) div ARCH_PAGE_SIZE * ARCH_PAGE_SIZE) = 0"
proof (intro exI conjI)
  let ?vas = "\<lambda>p. if p = 0x08000000 then Some user_page else None" and ?a = "0x08000FFF :: u32"
  show "ValidateCopy ?vas ?a 2 True = ESUCCESS"
    by (simp add: ValidateCopy_iff in_user_area_def BytesToPages_def user_page_permissions)
  show "GetVirtPermissions ?vas ((?a + 1) div ARCH_PAGE_SIZE * ARCH_PAGE_SIZE) = 0"
    by (simp add: GetVirtPermissions_def)
qed

end
