(* ===== verification/Mailbox.thy ===== *)
theory Mailbox
  imports UserTransfer
begin

text \<open>
  Mailboxes, the blocking byte queues of kernel/sync/mailbox.c, and the pipes of
  kernel/dev/pipe.c built on them.  A semaphore or mutex of the mailbox is its current count, as
  in theory Scheduler: acquiring needs a count below the maximum and adds one, releasing
  subtracts.  The operations describe a call that runs while no other thread is inside; \<open>None\<close>
  says that the call does not return, because the thread blocks on a semaphore.  What happens
  when calls of many threads interleave is the subject of theory MailboxProtocol.  Byte counts,
  which the capacity of the buffer bounds, are natural numbers.
\<close>

subsection \<open>Semaphores as counters\<close>

definition acquire_sem :: "nat \<Rightarrow> nat \<Rightarrow> int \<Rightarrow> (nat \<times> errno) option" where
  "acquire_sem max_count cnt timeout =
     (if cnt < max_count then Some (cnt + 1, ESUCCESS)
      else if timeout = 0 then Some (cnt, EAGAIN) else None)"

definition release_sem :: "nat \<Rightarrow> nat \<Rightarrow> nat kres" where
  "release_sem cnt n = (if cnt < n then Inl PANIC_NEGATIVE_SEMAPHORE else Inr (cnt - n))"

subsection \<open>Mailboxes\<close>

record mailbox =
  mb_data :: "u8 list"
  mb_total_size :: nat
  mb_used_size :: nat
  mb_start_pos :: nat
  mb_end_pos :: nat
  mb_full_sem :: nat
  mb_empty_sem :: nat
  mb_add_mtx :: nat
  mb_get_mtx :: nat
  mb_inner_mtx :: nat

definition MailboxCreate :: "nat \<Rightarrow> mailbox" where
  "MailboxCreate sz =
     \<lparr>mb_data = replicate sz 0, mb_total_size = sz, mb_used_size = 0, mb_start_pos = 0,
      mb_end_pos = 0, mb_full_sem = sz, mb_empty_sem = 0, mb_add_mtx = 0, mb_get_mtx = 0,
      mb_inner_mtx = 0\<rparr>"

definition MailboxWaitAddableInternal :: "mailbox \<Rightarrow> int \<Rightarrow> (mailbox \<times> errno) kres option" where
  "MailboxWaitAddableInternal mbox timeout =
     (case acquire_sem 1 (mb_add_mtx mbox) timeout of
        None \<Rightarrow> None
      | Some (c, res) \<Rightarrow>
          let mbox = mbox\<lparr>mb_add_mtx := c\<rparr> in
          if res \<noteq> ESUCCESS then Some (Inr (mbox, res))
          else case acquire_sem (mb_total_size mbox) (mb_empty_sem mbox) timeout of
                 None \<Rightarrow> None
               | Some (c, res) \<Rightarrow>
                   let mbox = mbox\<lparr>mb_empty_sem := c\<rparr> in
                   if res \<noteq> ESUCCESS
                   then obind (Some (release_sem (mb_add_mtx mbox) 1))
                          (\<lambda>c. Some (Inr (mbox\<lparr>mb_add_mtx := c\<rparr>, res)))
                   else Some (Inr (mbox, res)))"

definition MailboxWaitGettableInternal :: "mailbox \<Rightarrow> int \<Rightarrow> (mailbox \<times> errno) kres option" where
  "MailboxWaitGettableInternal mbox timeout =
     (case acquire_sem 1 (mb_get_mtx mbox) timeout of
        None \<Rightarrow> None
      | Some (c, res) \<Rightarrow>
          let mbox = mbox\<lparr>mb_get_mtx := c\<rparr> in
          if res \<noteq> ESUCCESS then Some (Inr (mbox, res))
          else case acquire_sem (mb_total_size mbox) (mb_full_sem mbox) timeout of
                 None \<Rightarrow> None
               | Some (c, res) \<Rightarrow>
                   let mbox = mbox\<lparr>mb_full_sem := c\<rparr> in
                   if res \<noteq> ESUCCESS
                   then obind (Some (release_sem (mb_get_mtx mbox) 1))
                          (\<lambda>c. Some (Inr (mbox\<lparr>mb_get_mtx := c\<rparr>, res)))
                   else Some (Inr (mbox, res)))"

text \<open>Releases of one semaphore of the mailbox.\<close>

definition release_add_mtx :: "mailbox \<Rightarrow> mailbox kres option" where
  "release_add_mtx mbox =
     Some (kbind (release_sem (mb_add_mtx mbox) 1) (\<lambda>c. Inr (mbox\<lparr>mb_add_mtx := c\<rparr>)))"

definition release_get_mtx :: "mailbox \<Rightarrow> mailbox kres option" where
  "release_get_mtx mbox =
     Some (kbind (release_sem (mb_get_mtx mbox) 1) (\<lambda>c. Inr (mbox\<lparr>mb_get_mtx := c\<rparr>)))"

definition release_inner_mtx :: "mailbox \<Rightarrow> mailbox kres option" where
  "release_inner_mtx mbox =
     Some (kbind (release_sem (mb_inner_mtx mbox) 1) (\<lambda>c. Inr (mbox\<lparr>mb_inner_mtx := c\<rparr>)))"

definition release_full_sem :: "nat \<Rightarrow> mailbox \<Rightarrow> mailbox kres option" where
  "release_full_sem n mbox =
     Some (kbind (release_sem (mb_full_sem mbox) n) (\<lambda>c. Inr (mbox\<lparr>mb_full_sem := c\<rparr>)))"

definition release_empty_sem :: "nat \<Rightarrow> mailbox \<Rightarrow> mailbox kres option" where
  "release_empty_sem n mbox =
     Some (kbind (release_sem (mb_empty_sem mbox) n) (\<lambda>c. Inr (mbox\<lparr>mb_empty_sem := c\<rparr>)))"

definition acquire_inner_mtx :: "mailbox \<Rightarrow> mailbox kres option" where
  "acquire_inner_mtx mbox =
     (case acquire_sem 1 (mb_inner_mtx mbox) (-1) of
        None \<Rightarrow> None | Some (c, _) \<Rightarrow> Some (Inr (mbox\<lparr>mb_inner_mtx := c\<rparr>)))"

lemmas release_defs = release_add_mtx_def release_get_mtx_def release_inner_mtx_def
  release_full_sem_def release_empty_sem_def acquire_inner_mtx_def release_sem_def acquire_sem_def

definition MailboxWaitAddable :: "mailbox \<Rightarrow> int \<Rightarrow> (mailbox \<times> errno) kres option" where
  "MailboxWaitAddable mbox timeout =
     obind (MailboxWaitAddableInternal mbox timeout) (\<lambda>(mbox, res).
       if res \<noteq> ESUCCESS then Some (Inr (mbox, res))
       else obind (release_empty_sem 1 mbox) (\<lambda>mbox.
            obind (release_add_mtx mbox) (\<lambda>mbox. Some (Inr (mbox, ESUCCESS)))))"

definition MailboxWaitGettable :: "mailbox \<Rightarrow> int \<Rightarrow> (mailbox \<times> errno) kres option" where
  "MailboxWaitGettable mbox timeout =
     obind (MailboxWaitGettableInternal mbox timeout) (\<lambda>(mbox, res).
       if res \<noteq> ESUCCESS then Some (Inr (mbox, res))
       else obind (release_full_sem 1 mbox) (\<lambda>mbox.
            obind (release_get_mtx mbox) (\<lambda>mbox. Some (Inr (mbox, ESUCCESS)))))"

text \<open>The loop that takes further units without blocking, and the loops over the buffer.\<close>

function acquire_more :: "nat \<Rightarrow> nat \<Rightarrow> nat \<Rightarrow> nat \<Rightarrow> nat \<times> nat" where
  "acquire_more max_count limit cnt acquisitions =
     (if acquisitions < limit
      then case acquire_sem max_count cnt 0 of
             Some (c, ESUCCESS) \<Rightarrow> acquire_more max_count limit c (acquisitions + 1)
           | _ \<Rightarrow> (cnt, acquisitions)
      else (cnt, acquisitions))"
  by pat_completeness auto
termination
  by (relation "measure (\<lambda>(max_count, limit, cnt, acquisitions). limit - acquisitions)") auto

declare acquire_more.simps [simp del]

definition put_byte :: "mailbox \<Rightarrow> u8 \<Rightarrow> mailbox" where
  "put_byte mbox c =
     mbox\<lparr>mb_data := (mb_data mbox)[mb_end_pos mbox := c],
          mb_end_pos := (mb_end_pos mbox + 1) mod mb_total_size mbox,
          mb_used_size := mb_used_size mbox + 1\<rparr>"

definition take_byte :: "mailbox \<Rightarrow> mailbox \<times> u8" where
  "take_byte mbox =
     (mbox\<lparr>mb_start_pos := (mb_start_pos mbox + 1) mod mb_total_size mbox,
           mb_used_size := mb_used_size mbox - 1\<rparr>,
      mb_data mbox ! mb_start_pos mbox)"

fun put_bytes :: "mailbox \<Rightarrow> u8 list \<Rightarrow> mailbox" where
  "put_bytes mbox [] = mbox"
| "put_bytes mbox (c # cs) = put_bytes (put_byte mbox c) cs"

fun take_bytes :: "mailbox \<Rightarrow> nat \<Rightarrow> mailbox \<times> u8 list" where
  "take_bytes mbox 0 = (mbox, [])"
| "take_bytes mbox (Suc n) =
     (let (mbox, c) = take_byte mbox; (mbox, cs) = take_bytes mbox n in (mbox, c # cs))"

text \<open>Adding returns the error number and \<^verbatim>\<open>*added\<close>; getting returns the bytes stored at \<^verbatim>\<open>c\<close>,
  whose number is \<^verbatim>\<open>*added\<close>.\<close>

definition MailboxAddMany ::
    "mailbox \<Rightarrow> int \<Rightarrow> u8 list \<Rightarrow> nat \<Rightarrow> (mailbox \<times> errno \<times> nat) kres option" where
  "MailboxAddMany mbox timeout c limit =
     (if limit = 0 then Some (Inr (mbox, EINVAL, 0))
      else obind (MailboxWaitAddableInternal mbox timeout) (\<lambda>(mbox, res).
        if res \<noteq> ESUCCESS then Some (Inr (mbox, res, 0))
        else let (cnt, acquisitions) = acquire_more (mb_total_size mbox) limit (mb_empty_sem mbox) 1 in
             obind (acquire_inner_mtx (mbox\<lparr>mb_empty_sem := cnt\<rparr>)) (\<lambda>mbox.
             obind (release_inner_mtx (put_bytes mbox (take acquisitions c))) (\<lambda>mbox.
             obind (release_add_mtx mbox) (\<lambda>mbox.
             obind (release_full_sem acquisitions mbox) (\<lambda>mbox.
             Some (Inr (mbox, ESUCCESS, acquisitions))))))))"

definition MailboxAdd :: "mailbox \<Rightarrow> int \<Rightarrow> u8 \<Rightarrow> (mailbox \<times> errno) kres option" where
  "MailboxAdd mbox timeout c =
     obind (MailboxWaitAddableInternal mbox timeout) (\<lambda>(mbox, res).
       if res \<noteq> ESUCCESS then Some (Inr (mbox, res))
       else obind (acquire_inner_mtx mbox) (\<lambda>mbox.
            obind (release_inner_mtx (put_byte mbox c)) (\<lambda>mbox.
            obind (release_add_mtx mbox) (\<lambda>mbox.
            obind (release_full_sem 1 mbox) (\<lambda>mbox. Some (Inr (mbox, ESUCCESS)))))))"

definition MailboxGet :: "mailbox \<Rightarrow> int \<Rightarrow> (mailbox \<times> errno \<times> u8 option) kres option" where
  "MailboxGet mbox timeout =
     obind (MailboxWaitGettableInternal mbox timeout) (\<lambda>(mbox, res).
       if res \<noteq> ESUCCESS then Some (Inr (mbox, res, None))
       else obind (acquire_inner_mtx mbox) (\<lambda>mbox.
            let (mbox, c) = take_byte mbox in
            obind (release_inner_mtx mbox) (\<lambda>mbox.
            obind (release_get_mtx mbox) (\<lambda>mbox.
            obind (release_empty_sem 1 mbox) (\<lambda>mbox. Some (Inr (mbox, ESUCCESS, Some c)))))))"

definition MailboxGetMany :: "mailbox \<Rightarrow> int \<Rightarrow> nat \<Rightarrow> (mailbox \<times> errno \<times> u8 list) kres option" where
  "MailboxGetMany mbox timeout limit =
     (if limit = 0 then Some (Inr (mbox, EINVAL, []))
      else obind (MailboxWaitGettableInternal mbox timeout) (\<lambda>(mbox, res).
        if res \<noteq> ESUCCESS then Some (Inr (mbox, res, []))
        else let (cnt, acquisitions) = acquire_more (mb_total_size mbox) limit (mb_full_sem mbox) 1 in
             obind (acquire_inner_mtx (mbox\<lparr>mb_full_sem := cnt\<rparr>)) (\<lambda>mbox.
             let (mbox, c) = take_bytes mbox acquisitions in
             obind (release_inner_mtx mbox) (\<lambda>mbox.
             obind (release_get_mtx mbox) (\<lambda>mbox.
             obind (release_empty_sem acquisitions mbox) (\<lambda>mbox.
             Some (Inr (mbox, ESUCCESS, c))))))))"

subsection \<open>Transfers through a mailbox\<close>

abbreviation (input) CHUNK_SIZE :: nat where "CHUNK_SIZE \<equiv> 256"

text \<open>The loop of \<^verbatim>\<open>MailboxAccess\<close>; the result of \<^verbatim>\<open>PerformTransfer\<close> is ignored there.\<close>

partial_function (option) access_loop ::
    "vas \<Rightarrow> memory \<Rightarrow> mailbox \<Rightarrow> transfer \<Rightarrow> bool \<Rightarrow> (memory \<times> mailbox \<times> transfer \<times> errno) kres option" where
  "access_loop vas m mbox tr done_any =
     (if tr_length_remaining tr = 0 then Some (Inr (m, mbox, tr, ESUCCESS))
      else
        let timeout = (if tr_blockable tr \<and> \<not> done_any then -1 else 0);
            len = min (unat (tr_length_remaining tr)) CHUNK_SIZE
        in if tr_direction tr = TRANSFER_WRITE
           then case PerformTransfer vas m (replicate CHUNK_SIZE 0) tr (of_nat len) of
                  Inl e \<Rightarrow> Some (Inl e)
                | Inr (m', c, tr', _) \<Rightarrow>
                    let transferred = unat (tr_length_remaining tr - tr_length_remaining tr')
                    in case MailboxAddMany mbox timeout c transferred of
                         None \<Rightarrow> None
                       | Some (Inl e) \<Rightarrow> Some (Inl e)
                       | Some (Inr (mbox', res, added)) \<Rightarrow>
                           if added > transferred then Some (Inl PANIC_UNKNOWN)
                           else let tr'' = (if transferred \<noteq> added
                                            then RevertTransfer tr' (of_nat (transferred - added)) else tr')
                                in if res \<noteq> ESUCCESS
                                   then Some (Inr (m', mbox', tr'', if done_any then ESUCCESS else res))
                                   else access_loop vas m' mbox' tr'' True
           else case MailboxGetMany mbox timeout len of
                  None \<Rightarrow> None
                | Some (Inl e) \<Rightarrow> Some (Inl e)
                | Some (Inr (mbox', res, c)) \<Rightarrow>
                    if res \<noteq> ESUCCESS
                    then Some (Inr (m, mbox', tr, if done_any then ESUCCESS else res))
                    else case PerformTransfer vas m c tr (of_nat (length c)) of
                           Inl e \<Rightarrow> Some (Inl e)
                         | Inr (m', _, tr', _) \<Rightarrow> access_loop vas m' mbox' tr' True)"

definition MailboxAccess ::
    "vas \<Rightarrow> memory \<Rightarrow> mailbox \<Rightarrow> transfer \<Rightarrow> (memory \<times> mailbox \<times> transfer \<times> errno) kres option" where
  "MailboxAccess vas m mbox tr =
     (if tr_length_remaining tr = 0
      then obind ((if tr_direction tr = TRANSFER_WRITE then MailboxWaitAddable else MailboxWaitGettable) mbox 0)
             (\<lambda>(mbox, res). Some (Inr (m, mbox, tr, res)))
      else access_loop vas m mbox tr False)"

subsection \<open>Pipes\<close>

abbreviation (input) PIPE_SIGNATURE :: u64 where "PIPE_SIGNATURE \<equiv> 0xa306a9b939f6d794"
abbreviation (input) PIPE_SIZE :: nat where "PIPE_SIZE \<equiv> 2048"

record pipe =
  p_sig :: u64
  p_mbox :: mailbox
  p_broken :: bool

definition CreatePipe :: pipe where
  "CreatePipe = \<lparr>p_sig = PIPE_SIGNATURE, p_mbox = MailboxCreate PIPE_SIZE, p_broken = False\<rparr>"

definition BreakPipe :: "pipe \<Rightarrow> pipe kres" where
  "BreakPipe pipe = (if p_sig pipe = PIPE_SIGNATURE then Inr (pipe\<lparr>p_broken := True\<rparr>) else Inl PANIC_UNKNOWN)"

text \<open>The last component says whether SIGPIPE is raised in the calling thread.\<close>

definition pipe_ReadWrite ::
    "vas \<Rightarrow> memory \<Rightarrow> pipe \<Rightarrow> transfer \<Rightarrow> (memory \<times> pipe \<times> transfer \<times> errno \<times> bool) kres option" where
  "pipe_ReadWrite vas m pipe tr =
     (if p_broken pipe
      then if tr_direction tr = TRANSFER_READ then Some (Inr (m, pipe, tr, ESUCCESS, False))
           else Some (Inr (m, pipe, tr, EPIPE, True))
      else obind (MailboxAccess vas m (p_mbox pipe) tr)
             (\<lambda>(m, mbox, tr, res). Some (Inr (m, pipe\<lparr>p_mbox := mbox\<rparr>, tr, res, False))))"

subsection \<open>The ring buffer as a queue\<close>

definition mb_contents :: "mailbox \<Rightarrow> u8 list" where
  "mb_contents mbox =
     map (\<lambda>i. mb_data mbox ! ((mb_start_pos mbox + i) mod mb_total_size mbox)) [0..<mb_used_size mbox]"

definition ring_ok :: "mailbox \<Rightarrow> bool" where
  "ring_ok mbox \<longleftrightarrow> 0 < mb_total_size mbox \<and> length (mb_data mbox) = mb_total_size mbox \<and>
     mb_used_size mbox \<le> mb_total_size mbox \<and> mb_start_pos mbox < mb_total_size mbox \<and>
     mb_end_pos mbox = (mb_start_pos mbox + mb_used_size mbox) mod mb_total_size mbox"

lemma length_mb_contents [simp]: "length (mb_contents mbox) = mb_used_size mbox"
  by (simp add: mb_contents_def)

lemma sem_update_ring [simp]:
  "mb_contents (mb_add_mtx_update f mbox) = mb_contents mbox" "ring_ok (mb_add_mtx_update f mbox) = ring_ok mbox"
  "mb_contents (mb_get_mtx_update f mbox) = mb_contents mbox" "ring_ok (mb_get_mtx_update f mbox) = ring_ok mbox"
  "mb_contents (mb_inner_mtx_update f mbox) = mb_contents mbox" "ring_ok (mb_inner_mtx_update f mbox) = ring_ok mbox"
  "mb_contents (mb_full_sem_update f mbox) = mb_contents mbox" "ring_ok (mb_full_sem_update f mbox) = ring_ok mbox"
  "mb_contents (mb_empty_sem_update f mbox) = mb_contents mbox" "ring_ok (mb_empty_sem_update f mbox) = ring_ok mbox"
  by (simp_all add: mb_contents_def ring_ok_def)

lemma mod_add_distinct: "i < j \<Longrightarrow> j < n \<Longrightarrow> (s + i) mod n \<noteq> (s + j) mod (n :: nat)"
  using mod_eq_dvd_iff_nat [of "s + i" "s + j" n] by (auto dest: dvd_imp_le)

lemma put_byte_ring:
  assumes "ring_ok mbox" "mb_used_size mbox < mb_total_size mbox"
  shows "ring_ok (put_byte mbox c)" "mb_contents (put_byte mbox c) = mb_contents mbox @ [c]"
proof -
  show "ring_ok (put_byte mbox c)" using assms by (simp add: ring_ok_def put_byte_def mod_Suc_eq)
  have "mb_end_pos mbox \<noteq> (mb_start_pos mbox + i) mod mb_total_size mbox" if "i < mb_used_size mbox" for i
    using mod_add_distinct [OF that assms(2), of "mb_start_pos mbox"] assms(1) by (simp add: ring_ok_def)
  moreover have "mb_end_pos mbox < length (mb_data mbox)" using assms(1) by (simp add: ring_ok_def)
  moreover have "(mb_start_pos mbox + mb_used_size mbox) mod mb_total_size mbox = mb_end_pos mbox"
    using assms(1) by (simp add: ring_ok_def)
  ultimately show "mb_contents (put_byte mbox c) = mb_contents mbox @ [c]"
    by (simp add: mb_contents_def put_byte_def)
qed

lemma take_byte_ring:
  assumes "ring_ok mbox" "0 < mb_used_size mbox" "take_byte mbox = (mbox', c)"
  shows "ring_ok mbox'" "mb_contents mbox = c # mb_contents mbox'"
proof -
  obtain n where n: "mb_used_size mbox = Suc n" using assms(2) gr0_conv_Suc by blast
  show "ring_ok mbox'"
    using assms(1,3) n by (auto simp: ring_ok_def take_byte_def mod_Suc_eq mod_simps)
  show "mb_contents mbox = c # mb_contents mbox'"
    using assms(1,3) n
    by (auto simp: mb_contents_def take_byte_def ring_ok_def mod_simps upt_conv_Cons map_Suc_upt [symmetric]
        simp del: upt_Suc)
qed

text \<open>What the buffer operations leave alone.\<close>

definition same_sems :: "mailbox \<Rightarrow> mailbox \<Rightarrow> bool" where
  "same_sems a b \<longleftrightarrow> mb_total_size b = mb_total_size a \<and> mb_full_sem b = mb_full_sem a \<and>
     mb_empty_sem b = mb_empty_sem a \<and> mb_add_mtx b = mb_add_mtx a \<and> mb_get_mtx b = mb_get_mtx a \<and>
     mb_inner_mtx b = mb_inner_mtx a"

lemma put_bytes_ring:
  "ring_ok mbox \<Longrightarrow> mb_used_size mbox + length cs \<le> mb_total_size mbox \<Longrightarrow>
   ring_ok (put_bytes mbox cs) \<and> mb_contents (put_bytes mbox cs) = mb_contents mbox @ cs \<and>
   same_sems mbox (put_bytes mbox cs) \<and> mb_used_size (put_bytes mbox cs) = mb_used_size mbox + length cs"
proof (induction cs arbitrary: mbox)
  case (Cons c cs)
  then have "mb_used_size mbox < mb_total_size mbox" by simp
  with Cons.IH [OF put_byte_ring(1) [OF Cons.prems(1)], of c] Cons.prems put_byte_ring(2) [OF Cons.prems(1), of c]
  show ?case by (simp add: put_byte_def same_sems_def)
qed (simp add: same_sems_def)

lemma take_bytes_ring:
  "ring_ok mbox \<Longrightarrow> n \<le> mb_used_size mbox \<Longrightarrow>
   \<exists>mbox'. take_bytes mbox n = (mbox', take n (mb_contents mbox)) \<and> ring_ok mbox' \<and>
     mb_contents mbox' = drop n (mb_contents mbox) \<and> same_sems mbox mbox' \<and>
     mb_used_size mbox' = mb_used_size mbox - n"
proof (induction n arbitrary: mbox)
  case (Suc n)
  obtain mbox1 c where tb: "take_byte mbox = (mbox1, c)" by fastforce
  have used: "0 < mb_used_size mbox" using Suc.prems(2) by simp
  note r = take_byte_ring [OF Suc.prems(1) used tb]
  have same: "same_sems mbox mbox1" "mb_used_size mbox1 = mb_used_size mbox - 1"
    using tb by (auto simp: take_byte_def same_sems_def)
  obtain mbox' where "take_bytes mbox1 n = (mbox', take n (mb_contents mbox1))" "ring_ok mbox'"
    "mb_contents mbox' = drop n (mb_contents mbox1)" "same_sems mbox1 mbox'"
    "mb_used_size mbox' = mb_used_size mbox1 - n"
    using Suc.IH [OF r(1)] Suc.prems(2) same(2) by force
  with same r(2) tb show ?case by (auto simp: same_sems_def)
qed (simp add: same_sems_def)

subsection \<open>Mailboxes that no thread is using\<close>

definition mb_idle :: "mailbox \<Rightarrow> bool" where
  "mb_idle mbox \<longleftrightarrow> ring_ok mbox \<and> mb_add_mtx mbox = 0 \<and> mb_get_mtx mbox = 0 \<and> mb_inner_mtx mbox = 0 \<and>
     mb_empty_sem mbox = mb_used_size mbox \<and> mb_full_sem mbox = mb_total_size mbox - mb_used_size mbox"

lemma MailboxCreate_idle: "0 < sz \<Longrightarrow> mb_idle (MailboxCreate sz) \<and> mb_contents (MailboxCreate sz) = []"
  by (simp add: mb_idle_def ring_ok_def MailboxCreate_def mb_contents_def)

lemma MailboxCreate_size [simp]:
  "mb_total_size (MailboxCreate sz) = sz" "mb_used_size (MailboxCreate sz) = 0"
  by (simp_all add: MailboxCreate_def)

lemma acquire_more_eq:
  "acquisitions \<le> limit \<Longrightarrow> cnt \<le> max_count \<Longrightarrow>
   acquire_more max_count limit cnt acquisitions =
     (let k = min (limit - acquisitions) (max_count - cnt) in (cnt + k, acquisitions + k))"
proof (induction max_count limit cnt acquisitions rule: acquire_more.induct)
  case (1 max_count limit cnt acquisitions)
  show ?case
  proof (cases "acquisitions < limit \<and> cnt < max_count")
    case True
    with "1.IH" [of "(cnt + 1, ESUCCESS)" "cnt + 1" ESUCCESS] "1.prems" show ?thesis
      by (subst acquire_more.simps) (simp add: acquire_sem_def Let_def min_def, linarith)
  next
    case False
    with "1.prems" show ?thesis by (subst acquire_more.simps) (auto simp: acquire_sem_def)
  qed
qed

text \<open>One call on an idle mailbox: what it returns and what it leaves.\<close>

lemma MailboxAddMany_idle:
  assumes "mb_idle mbox" "0 < limit" "limit \<le> length cs"
  shows "if mb_used_size mbox = mb_total_size mbox
    then MailboxAddMany mbox timeout cs limit =
           (if timeout = 0 then Some (Inr (mbox, EAGAIN, 0)) else None)
    else \<exists>mbox'. MailboxAddMany mbox timeout cs limit =
             Some (Inr (mbox', ESUCCESS, min limit (mb_total_size mbox - mb_used_size mbox))) \<and>
           mb_idle mbox' \<and> mb_total_size mbox' = mb_total_size mbox \<and>
           mb_contents mbox' =
             mb_contents mbox @ take (min limit (mb_total_size mbox - mb_used_size mbox)) cs"
proof (cases "mb_used_size mbox = mb_total_size mbox")
  case True
  with assms show ?thesis
    by (simp add: MailboxAddMany_def MailboxWaitAddableInternal_def release_defs mb_idle_def)
next
  case False
  let ?k = "min limit (mb_total_size mbox - mb_used_size mbox)"
  have ok: "ring_ok mbox" using assms(1) by (simp add: mb_idle_def)
  then have lt: "mb_used_size mbox < mb_total_size mbox" using False by (simp add: ring_ok_def)
  then have more: "acquire_more (mb_total_size mbox) limit (Suc (mb_used_size mbox)) (Suc 0) =
      (mb_used_size mbox + ?k, ?k)"
    using acquire_more_eq [of 1 limit "Suc (mb_used_size mbox)" "mb_total_size mbox"] assms(2)
    by (auto simp: Let_def min_def)
  let ?m = "mbox\<lparr>mb_add_mtx := 1, mb_empty_sem := mb_used_size mbox + ?k, mb_inner_mtx := 1\<rparr>"
  have "ring_ok ?m" "mb_contents ?m = mb_contents mbox"
    using ok by simp_all
  then have put: "ring_ok (put_bytes ?m (take ?k cs))" "same_sems ?m (put_bytes ?m (take ?k cs))"
    "mb_contents (put_bytes ?m (take ?k cs)) = mb_contents mbox @ take ?k cs"
    "mb_used_size (put_bytes ?m (take ?k cs)) = mb_used_size mbox + ?k"
    using put_bytes_ring [of ?m "take ?k cs"] lt assms(3) by auto
  let ?r = "(put_bytes ?m (take ?k cs))\<lparr>mb_inner_mtx := 0, mb_add_mtx := 0,
              mb_full_sem := mb_full_sem mbox - ?k\<rparr>"
  have "MailboxAddMany mbox timeout cs limit = Some (Inr (?r, ESUCCESS, ?k))"
    using assms(1,2) lt put(2) more
    by (simp add: MailboxAddMany_def MailboxWaitAddableInternal_def release_defs mb_idle_def same_sems_def)
  moreover have "mb_idle ?r \<and> mb_total_size ?r = mb_total_size mbox \<and> mb_contents ?r = mb_contents mbox @ take ?k cs"
    using put assms(1) by (auto simp: mb_idle_def same_sems_def)
  ultimately show ?thesis using False by auto
qed

lemma MailboxGetMany_idle:
  assumes "mb_idle mbox" "0 < limit"
  shows "if mb_used_size mbox = 0
    then MailboxGetMany mbox timeout limit =
           (if timeout = 0 then Some (Inr (mbox, EAGAIN, [])) else None)
    else \<exists>mbox'. MailboxGetMany mbox timeout limit =
             Some (Inr (mbox', ESUCCESS, take limit (mb_contents mbox))) \<and>
           mb_idle mbox' \<and> mb_total_size mbox' = mb_total_size mbox \<and>
           mb_contents mbox' = drop limit (mb_contents mbox)"
proof (cases "mb_used_size mbox = 0")
  case True
  with assms show ?thesis
    by (simp add: MailboxGetMany_def MailboxWaitGettableInternal_def release_defs mb_idle_def)
next
  case False
  let ?k = "min limit (mb_used_size mbox)" and ?f = "mb_total_size mbox - mb_used_size mbox"
  have ok: "ring_ok mbox" "mb_used_size mbox \<le> mb_total_size mbox"
    using assms(1) by (simp_all add: mb_idle_def ring_ok_def)
  then have more: "acquire_more (mb_total_size mbox) limit (Suc ?f) (Suc 0) = (?f + ?k, ?k)"
    using acquire_more_eq [of 1 limit "Suc ?f" "mb_total_size mbox"] assms(2) False
    by (auto simp: Let_def min_def)
  let ?m = "mbox\<lparr>mb_get_mtx := 1, mb_full_sem := ?f + ?k, mb_inner_mtx := 1\<rparr>"
  have m: "ring_ok ?m" "mb_contents ?m = mb_contents mbox"
    using ok by simp_all
  obtain m' where m': "take_bytes ?m ?k = (m', take ?k (mb_contents mbox))" "ring_ok m'"
    "mb_contents m' = drop ?k (mb_contents mbox)" "same_sems ?m m'" "mb_used_size m' = mb_used_size mbox - ?k"
    using take_bytes_ring [OF m(1), of ?k] m(2) by auto
  have k: "take ?k (mb_contents mbox) = take limit (mb_contents mbox)"
    "drop ?k (mb_contents mbox) = drop limit (mb_contents mbox)" by (simp_all add: min_def)
  let ?r = "m'\<lparr>mb_inner_mtx := 0, mb_get_mtx := 0, mb_empty_sem := mb_used_size mbox - ?k\<rparr>"
  have "MailboxGetMany mbox timeout limit = Some (Inr (?r, ESUCCESS, take limit (mb_contents mbox)))"
    using assms m'(1,4) more False ok(2)
    by (auto simp: MailboxGetMany_def MailboxWaitGettableInternal_def release_defs mb_idle_def same_sems_def k)
  moreover have "mb_idle ?r \<and> mb_total_size ?r = mb_total_size mbox \<and> mb_contents ?r = drop limit (mb_contents mbox)"
    using m' assms(1) ok(2) by (auto simp: mb_idle_def same_sems_def k)
  ultimately show ?thesis using False by auto
qed

subsection \<open>Transfers\<close>

text \<open>How a transfer has moved on by \<open>n\<close> bytes.\<close>

definition moved :: "transfer \<Rightarrow> transfer \<Rightarrow> nat \<Rightarrow> bool" where
  "moved tr tr' n \<longleftrightarrow> tr_type tr' = tr_type tr \<and> tr_direction tr' = tr_direction tr \<and>
     tr_blockable tr' = tr_blockable tr \<and> tr_address tr' = tr_address tr + of_nat n \<and>
     unat (tr_length_remaining tr') + n = unat (tr_length_remaining tr)"

lemma moved_refl: "moved tr tr 0"
  by (simp add: moved_def)

lemma moved_trans: "moved tr tr' j \<Longrightarrow> moved tr' tr'' k \<Longrightarrow> moved tr tr'' (j + k)"
  by (simp add: moved_def add.assoc)

lemma moved_advance:
  assumes "n \<le> unat (tr_length_remaining tr)" "n < 2 ^ 32"
  shows "moved tr (advance tr (of_nat n)) n"
proof -
  have n: "unat (ucast (of_nat n :: u32) :: u64) = n"
    using assms(2) by (simp add: unsigned_of_nat take_bit_nat_eq_self)
  with assms(1) have "unat (tr_length_remaining tr - ucast (of_nat n :: u32)) = unat (tr_length_remaining tr) - n"
    by (subst unat_sub) (simp_all add: word_le_nat_alt)
  with assms(1) show ?thesis by (simp add: moved_def advance_def)
qed

lemma moved_revert:
  assumes "moved tr tr' j" "k \<le> j" "j < 2 ^ 32"
  shows "moved tr (RevertTransfer tr' (of_nat (j - k))) k"
proof -
  have n: "unat (of_nat (j - k) :: u64) = j - k" using assms(3) by (simp add: unat_of_nat)
  have "unat (tr_length_remaining tr) < 2 ^ 64" using unsigned_less [of "tr_length_remaining tr", where ?'a = nat] by simp
  then have "unat (tr_length_remaining tr' + of_nat (j - k)) = unat (tr_length_remaining tr') + (j - k)"
    using assms(1) n by (auto simp: unat_plus_if' moved_def)
  moreover have "(ucast (of_nat (j - k) :: u64) :: u32) = of_nat (j - k)"
    using assms(3) by (simp add: unsigned_of_nat take_bit_nat_eq_self)
  ultimately show ?thesis
    using assms(1,2) by (simp add: moved_def RevertTransfer_def of_nat_diff)
qed

lemma PerformTransfer_kernel:
  assumes "tr_type tr = TRANSFER_INTRA_KERNEL" "tr_address tr \<noteq> 0"
    "n \<le> unat (tr_length_remaining tr)" "n < 2 ^ 32"
  shows "PerformTransfer vas m buf tr (of_nat n) =
    Inr (if tr_direction tr = TRANSFER_READ then write_bytes m (tr_address tr) (take n buf) else m,
         if tr_direction tr = TRANSFER_READ then buf else read_bytes m (tr_address tr) n @ drop n buf,
         advance tr (of_nat n), ESUCCESS)"
proof -
  have am: "transfer_amount tr (of_nat n) = of_nat n" by (rule transfer_amount_fits [OF assms(3,4)])
  have n: "unat (of_nat n :: u32) = n" using assms(4) by (simp add: unat_of_nat)
  show ?thesis
  proof (cases "n = 0")
    case True
    with PerformTransfer_nothing [OF assms(2), of 0] am show ?thesis
      by (simp add: write_bytes_def read_bytes_def advance_def)
  next
    case False
    then have "(of_nat n :: u32) \<noteq> 0" using n by (metis unat_0)
    with assms(1,2) am n show ?thesis
      by (cases "tr_direction tr") (simp_all add: PerformTransfer_def Let_def)
  qed
qed

text \<open>One iteration of the loop, writing: the chunk read from memory, and the part that fits.\<close>

lemma access_loop_add:
  assumes "tr_type tr = TRANSFER_INTRA_KERNEL" "tr_direction tr = TRANSFER_WRITE"
    "tr_address tr \<noteq> 0" "tr_length_remaining tr \<noteq> 0"
    "n = min (unat (tr_length_remaining tr)) CHUNK_SIZE"
    "t = (if tr_blockable tr \<and> \<not> done_any then -1 else 0)"
    "MailboxAddMany mbox t (read_bytes m (tr_address tr) n @ drop n (replicate CHUNK_SIZE 0)) n =
       Some (Inr (mbox', res, a))" "a \<le> n"
  obtains tr' where "moved tr tr' a" "access_loop vas m mbox tr done_any =
     (if res \<noteq> ESUCCESS then Some (Inr (m, mbox', tr', if done_any then ESUCCESS else res))
      else access_loop vas m mbox' tr' True)"
proof
  let ?adv = "advance tr (of_nat n)"
  let ?tr = "if n \<noteq> a then RevertTransfer ?adv (of_nat (n - a)) else ?adv"
  have n: "n \<le> unat (tr_length_remaining tr)" "n < 2 ^ 32" using assms(5) by auto
  have pt: "PerformTransfer vas m (replicate CHUNK_SIZE 0) tr (of_nat n) =
      Inr (m, read_bytes m (tr_address tr) n @ drop n (replicate CHUNK_SIZE 0), ?adv, ESUCCESS)"
    using PerformTransfer_kernel [OF assms(1,3) n] assms(2) by simp
  have mv: "moved tr ?adv n" by (rule moved_advance [OF n])
  then show "moved tr ?tr a" using moved_revert [OF mv assms(8) n(2)] by auto
  from mv have "unat (tr_length_remaining ?adv) + n = unat (tr_length_remaining tr)" by (simp add: moved_def)
  then have trd: "unat (tr_length_remaining tr - tr_length_remaining ?adv) = n"
    by (subst unat_sub) (simp_all add: word_le_nat_alt)
  show "access_loop vas m mbox tr done_any =
     (if res \<noteq> ESUCCESS then Some (Inr (m, mbox', ?tr, if done_any then ESUCCESS else res))
      else access_loop vas m mbox' ?tr True)"
    using assms(2,4,7,8) pt trd
    by (subst access_loop.simps) (simp add: Let_def assms(5,6) [symmetric])
qed

lemma access_loop_add_full:
  assumes "mb_idle mbox" "tr_type tr = TRANSFER_INTRA_KERNEL" "tr_direction tr = TRANSFER_WRITE"
    "tr_address tr \<noteq> 0" "tr_length_remaining tr \<noteq> 0" "mb_used_size mbox = mb_total_size mbox"
  obtains tr' where "moved tr tr' 0" "access_loop vas m mbox tr True = Some (Inr (m, mbox, tr', ESUCCESS))"
proof -
  let ?n = "min (unat (tr_length_remaining tr)) CHUNK_SIZE"
  have "0 < ?n" using assms(5) by (simp add: unat_gt_0)
  then have "MailboxAddMany mbox 0 (read_bytes m (tr_address tr) ?n @ drop ?n (replicate CHUNK_SIZE 0)) ?n =
      Some (Inr (mbox, EAGAIN, 0))"
    using MailboxAddMany_idle [OF assms(1), of ?n] assms(6) by simp
  from access_loop_add [OF assms(2-5) refl, of 0 True, OF _ this] that show thesis by auto
qed

lemma access_loop_add_some:
  assumes "mb_idle mbox" "tr_type tr = TRANSFER_INTRA_KERNEL" "tr_direction tr = TRANSFER_WRITE"
    "tr_address tr \<noteq> 0" "tr_length_remaining tr \<noteq> 0" "mb_used_size mbox < mb_total_size mbox"
  obtains mbox' tr' a where "0 < a" "a \<le> unat (tr_length_remaining tr)" "moved tr tr' a"
    "mb_used_size mbox + a \<le> mb_total_size mbox" "mb_idle mbox'" "mb_total_size mbox' = mb_total_size mbox"
    "mb_contents mbox' = mb_contents mbox @ read_bytes m (tr_address tr) a"
    "access_loop vas m mbox tr done_any = access_loop vas m mbox' tr' True"
proof -
  let ?n = "min (unat (tr_length_remaining tr)) CHUNK_SIZE"
  let ?a = "min ?n (mb_total_size mbox - mb_used_size mbox)"
  let ?c = "read_bytes m (tr_address tr) ?n @ drop ?n (replicate CHUNK_SIZE 0)"
  let ?t = "if tr_blockable tr \<and> \<not> done_any then -1 else 0 :: int"
  have n: "0 < ?n" using assms(5) by (simp add: unat_gt_0)
  have a: "0 < ?a" "?a \<le> ?n" "mb_used_size mbox + ?a \<le> mb_total_size mbox" using n assms(6) by auto
  have "take ?a ?c = read_bytes m (tr_address tr) ?a"
    using read_bytes_append [of m "tr_address tr" ?a "?n - ?a"] a(2) by simp
  moreover obtain mbox' where m': "MailboxAddMany mbox ?t ?c ?n = Some (Inr (mbox', ESUCCESS, ?a))" "mb_idle mbox'"
    "mb_total_size mbox' = mb_total_size mbox" "mb_contents mbox' = mb_contents mbox @ take ?a ?c"
    using MailboxAddMany_idle [OF assms(1) n, of ?c ?t] assms(6) by auto
  moreover obtain tr' where "moved tr tr' ?a" "access_loop vas m mbox tr done_any = access_loop vas m mbox' tr' True"
    using access_loop_add [OF assms(2-5) refl refl m'(1) a(2)] by auto
  ultimately show thesis using that [of ?a tr' mbox'] a(1,3) by simp
qed

lemma access_loop_write:
  assumes "mb_idle mbox" "tr_type tr = TRANSFER_INTRA_KERNEL" "tr_direction tr = TRANSFER_WRITE"
    "tr_address tr \<noteq> 0" "unat (tr_address tr) + unat (tr_length_remaining tr) < 2 ^ 32"
    "k = min (unat (tr_length_remaining tr)) (mb_total_size mbox - mb_used_size mbox)" "done_any \<or> 0 < k"
  shows "\<exists>mbox' tr'. access_loop vas m mbox tr done_any = Some (Inr (m, mbox', tr', ESUCCESS)) \<and>
     mb_idle mbox' \<and> mb_total_size mbox' = mb_total_size mbox \<and>
     mb_contents mbox' = mb_contents mbox @ read_bytes m (tr_address tr) k \<and> moved tr tr' k"
  using assms
proof (induction "unat (tr_length_remaining tr)" arbitrary: mbox tr done_any k rule: less_induct)
  case less
  consider (finished) "tr_length_remaining tr = 0"
    | (full) "tr_length_remaining tr \<noteq> 0" "mb_used_size mbox = mb_total_size mbox"
    | (some) "tr_length_remaining tr \<noteq> 0" "mb_used_size mbox < mb_total_size mbox"
    using less.prems(1) by (fastforce simp: mb_idle_def ring_ok_def)
  then show ?case
  proof cases
    case finished
    then have "access_loop vas m mbox tr done_any = Some (Inr (m, mbox, tr, ESUCCESS))"
      by (subst access_loop.simps) simp
    with finished less.prems(1,6) show ?thesis by (simp add: read_bytes_def moved_refl)
  next
    case full
    with less.prems(6,7) have "k = 0" "done_any" by auto
    with access_loop_add_full [OF less.prems(1-4) full] less.prems(1) show ?thesis
      by (simp add: read_bytes_def) metis
  next
    case some
    obtain mbox1 tr1 a where a: "0 < a" "a \<le> unat (tr_length_remaining tr)" "moved tr tr1 a"
      "mb_used_size mbox + a \<le> mb_total_size mbox" "mb_idle mbox1" "mb_total_size mbox1 = mb_total_size mbox"
      "mb_contents mbox1 = mb_contents mbox @ read_bytes m (tr_address tr) a"
      "access_loop vas m mbox tr done_any = access_loop vas m mbox1 tr1 True"
      by (rule access_loop_add_some [OF less.prems(1-4) some])
    have addr: "unat (tr_address tr1) = unat (tr_address tr) + a"
      using a(2,3) less.prems(5) unat_add_of_nat [of "tr_address tr" a] by (simp add: moved_def)
    then have nz: "tr_address tr1 \<noteq> 0" using a(1) by auto
    have used1: "mb_used_size mbox1 = mb_used_size mbox + a" using arg_cong [OF a(7), of length] by simp
    have k: "k = a + (k - a)" using less.prems(6) a(2,4) by auto
    obtain mbox' tr' where fin: "access_loop vas m mbox1 tr1 True = Some (Inr (m, mbox', tr', ESUCCESS))"
      "mb_idle mbox'" "mb_total_size mbox' = mb_total_size mbox1"
      "mb_contents mbox' = mb_contents mbox1 @ read_bytes m (tr_address tr1) (k - a)" "moved tr1 tr' (k - a)"
    proof -
      have L: "unat (tr_length_remaining tr1) = unat (tr_length_remaining tr) - a"
        and ty: "tr_type tr1 = TRANSFER_INTRA_KERNEL" "tr_direction tr1 = TRANSFER_WRITE"
        using a(3) less.prems(2,3) by (auto simp: moved_def)
      have ka: "k - a = min (unat (tr_length_remaining tr1)) (mb_total_size mbox1 - mb_used_size mbox1)"
        by (simp add: less.prems(6) L a(6) used1)
      have "unat (tr_length_remaining tr1) < unat (tr_length_remaining tr)"
        "unat (tr_address tr1) + unat (tr_length_remaining tr1) < 2 ^ 32"
        using L a(1,2) addr less.prems(5) by simp_all
      from less.hyps [OF this(1) a(5) ty nz this(2) ka, of True] that show thesis by blast
    qed
    have "read_bytes m (tr_address tr) k =
        read_bytes m (tr_address tr) a @ read_bytes m (tr_address tr1) (k - a)"
      using read_bytes_append [of m "tr_address tr" a "k - a"] a(3) k by (simp add: moved_def)
    moreover have "moved tr tr' k" using moved_trans [OF a(3) fin(5)] k by simp
    ultimately show ?thesis using fin(1-4) a(6-8) by auto
  qed
qed

lemma access_loop_get_some:
  assumes "mb_idle mbox" "tr_type tr = TRANSFER_INTRA_KERNEL" "tr_direction tr = TRANSFER_READ"
    "tr_address tr \<noteq> 0" "tr_length_remaining tr \<noteq> 0" "mb_used_size mbox \<noteq> 0"
  obtains mbox' tr' a where "0 < a" "a \<le> unat (tr_length_remaining tr)" "moved tr tr' a"
    "a \<le> mb_used_size mbox" "mb_idle mbox'" "mb_total_size mbox' = mb_total_size mbox"
    "mb_contents mbox' = drop a (mb_contents mbox)"
    "access_loop vas m mbox tr done_any =
       access_loop vas (write_bytes m (tr_address tr) (take a (mb_contents mbox))) mbox' tr' True"
proof -
  let ?n = "min (unat (tr_length_remaining tr)) CHUNK_SIZE"
  let ?a = "min ?n (mb_used_size mbox)"
  let ?t = "if tr_blockable tr \<and> \<not> done_any then -1 else 0 :: int"
  have n: "0 < ?n" using assms(5) by (simp add: unat_gt_0)
  have a: "0 < ?a" "?a \<le> unat (tr_length_remaining tr)" "?a < 2 ^ 32" "?a \<le> mb_used_size mbox"
    using n assms(6) by auto
  have c: "take ?n (mb_contents mbox) = take ?a (mb_contents mbox)"
    "drop ?n (mb_contents mbox) = drop ?a (mb_contents mbox)" by (simp_all add: min_def)
  obtain mbox' where m': "MailboxGetMany mbox ?t ?n = Some (Inr (mbox', ESUCCESS, take ?a (mb_contents mbox)))"
    "mb_idle mbox'" "mb_total_size mbox' = mb_total_size mbox" "mb_contents mbox' = drop ?a (mb_contents mbox)"
    using MailboxGetMany_idle [OF assms(1) n, of ?t] assms(6) unfolding c by auto
  have len: "length (take ?a (mb_contents mbox)) = ?a" by simp
  have "PerformTransfer vas m (take ?a (mb_contents mbox)) tr (of_nat ?a) =
      Inr (write_bytes m (tr_address tr) (take ?a (mb_contents mbox)), take ?a (mb_contents mbox),
           advance tr (of_nat ?a), ESUCCESS)"
    using PerformTransfer_kernel [OF assms(2,4) a(2,3)] assms(3) by simp
  then have "access_loop vas m mbox tr done_any =
      access_loop vas (write_bytes m (tr_address tr) (take ?a (mb_contents mbox))) mbox' (advance tr (of_nat ?a)) True"
    using assms(3,5) m'(1) len by (subst access_loop.simps) (simp add: Let_def del: length_take)
  with that moved_advance [OF a(2,3)] a(1,2,4) m'(2-4) show thesis by blast
qed

lemma access_loop_read:
  assumes "mb_idle mbox" "tr_type tr = TRANSFER_INTRA_KERNEL" "tr_direction tr = TRANSFER_READ"
    "tr_address tr \<noteq> 0" "unat (tr_address tr) + unat (tr_length_remaining tr) < 2 ^ 32"
    "k = min (unat (tr_length_remaining tr)) (mb_used_size mbox)" "done_any \<or> 0 < k"
  shows "\<exists>mbox' tr'. access_loop vas m mbox tr done_any =
       Some (Inr (write_bytes m (tr_address tr) (take k (mb_contents mbox)), mbox', tr', ESUCCESS)) \<and>
     mb_idle mbox' \<and> mb_total_size mbox' = mb_total_size mbox \<and>
     mb_contents mbox' = drop k (mb_contents mbox) \<and> moved tr tr' k"
  using assms
proof (induction "unat (tr_length_remaining tr)" arbitrary: m mbox tr done_any k rule: less_induct)
  case less
  consider (finished) "tr_length_remaining tr = 0"
    | (empty) "tr_length_remaining tr \<noteq> 0" "mb_used_size mbox = 0"
    | (some) "tr_length_remaining tr \<noteq> 0" "mb_used_size mbox \<noteq> 0"
    by blast
  then show ?case
  proof cases
    case finished
    then have "access_loop vas m mbox tr done_any = Some (Inr (m, mbox, tr, ESUCCESS))"
      by (subst access_loop.simps) simp
    with finished less.prems(1,6) show ?thesis by (simp add: write_bytes_def moved_refl)
  next
    case empty
    with less.prems(6,7) have k: "k = 0" "done_any" by auto
    have "0 < min (unat (tr_length_remaining tr)) CHUNK_SIZE" using empty(1) by (simp add: unat_gt_0)
    with empty(2) have "MailboxGetMany mbox 0 (min (unat (tr_length_remaining tr)) CHUNK_SIZE) =
        Some (Inr (mbox, EAGAIN, []))"
      using MailboxGetMany_idle [OF less.prems(1)] by simp
    with k(2) empty(1) less.prems(3) have "access_loop vas m mbox tr done_any = Some (Inr (m, mbox, tr, ESUCCESS))"
      by (subst access_loop.simps) (simp add: Let_def)
    with k(1) less.prems(1) show ?thesis by (simp add: write_bytes_def moved_refl)
  next
    case some
    obtain mbox1 tr1 a where a: "0 < a" "a \<le> unat (tr_length_remaining tr)" "moved tr tr1 a"
      "a \<le> mb_used_size mbox" "mb_idle mbox1" "mb_total_size mbox1 = mb_total_size mbox"
      "mb_contents mbox1 = drop a (mb_contents mbox)"
      "access_loop vas m mbox tr done_any =
         access_loop vas (write_bytes m (tr_address tr) (take a (mb_contents mbox))) mbox1 tr1 True"
      by (rule access_loop_get_some [OF less.prems(1-4) some])
    have addr: "unat (tr_address tr1) = unat (tr_address tr) + a"
      using a(2,3) less.prems(5) unat_add_of_nat [of "tr_address tr" a] by (simp add: moved_def)
    then have nz: "tr_address tr1 \<noteq> 0" using a(1) by auto
    have used1: "mb_used_size mbox1 = mb_used_size mbox - a" using arg_cong [OF a(7), of length] by simp
    have L: "unat (tr_length_remaining tr1) = unat (tr_length_remaining tr) - a"
      and ty: "tr_type tr1 = TRANSFER_INTRA_KERNEL" "tr_direction tr1 = TRANSFER_READ"
      and ad: "tr_address tr1 = tr_address tr + of_nat a"
      using a(3) less.prems(2,3) by (auto simp: moved_def)
    have ka: "k - a = min (unat (tr_length_remaining tr1)) (mb_used_size mbox1)"
      by (simp add: less.prems(6) L used1)
    have k: "k = a + (k - a)" using less.prems(6) a(2,4) by auto
    have lt: "unat (tr_length_remaining tr1) < unat (tr_length_remaining tr)"
      "unat (tr_address tr1) + unat (tr_length_remaining tr1) < 2 ^ 32"
      using L a(1,2) addr less.prems(5) by simp_all
    let ?m = "write_bytes m (tr_address tr) (take a (mb_contents mbox))"
    obtain mbox' tr' where fin: "access_loop vas ?m mbox1 tr1 True =
        Some (Inr (write_bytes ?m (tr_address tr1) (take (k - a) (mb_contents mbox1)), mbox', tr', ESUCCESS))"
      "mb_idle mbox'" "mb_total_size mbox' = mb_total_size mbox1"
      "mb_contents mbox' = drop (k - a) (mb_contents mbox1)" "moved tr1 tr' (k - a)"
      using less.hyps [OF lt(1) a(5) ty nz lt(2) ka, of True ?m] by blast
    have "take k (mb_contents mbox) = take a (mb_contents mbox) @ take (k - a) (mb_contents mbox1)"
      using k a(7) by (metis take_add)
    moreover have "length (take a (mb_contents mbox)) = a" using a(4) by simp
    moreover have "a + length (take (k - a) (mb_contents mbox1)) \<le> 2 ^ 32"
      using less.prems(5,6) k a(2) by simp
    ultimately have "write_bytes ?m (tr_address tr1) (take (k - a) (mb_contents mbox1)) =
        write_bytes m (tr_address tr) (take k (mb_contents mbox))"
      using write_bytes_append [of "take a (mb_contents mbox)" "take (k - a) (mb_contents mbox1)" m "tr_address tr"] ad
      by simp
    moreover have "moved tr tr' k" using moved_trans [OF a(3) fin(5)] k by simp
    moreover have "drop (k - a) (mb_contents mbox1) = drop k (mb_contents mbox)" using k a(7) by (simp add: add.commute)
    ultimately show ?thesis using fin(1-4) a(6,8) by auto
  qed
qed


subsection \<open>Properties\<close>



text \<open>What is written to a new pipe is what is read from it: a kernel buffer of at most 2048
  bytes written and then read into another buffer arrives unchanged, both calls succeed and the
  pipe is empty again; a broken pipe reads as end of file and refuses writes with EPIPE and
  SIGPIPE.\<close>

lemma pipe_roundtrip:
  assumes "0 < n" "n \<le> PIPE_SIZE" "src \<noteq> 0" "dst \<noteq> 0" "unat src + n < 2 ^ 32" "unat dst + n < 2 ^ 32"
  shows "\<exists>p1 tr1 m' p2 tr2.
     pipe_ReadWrite vas m CreatePipe (CreateKernelTransfer src (of_nat n) 0 TRANSFER_WRITE) =
       Some (Inr (m, p1, tr1, ESUCCESS, False)) \<and>
     pipe_ReadWrite vas m p1 (CreateKernelTransfer dst (of_nat n) 0 TRANSFER_READ) =
       Some (Inr (m', p2, tr2, ESUCCESS, False)) \<and>
     read_bytes m' dst n = read_bytes m src n \<and> mb_contents (p_mbox p2) = [] \<and>
     (\<exists>b. BreakPipe p2 = Inr b \<and>
        (\<forall>tr. pipe_ReadWrite vas m' b tr =
           Some (Inr (m', b, tr, if tr_direction tr = TRANSFER_READ then ESUCCESS else EPIPE,
                      tr_direction tr = TRANSFER_WRITE))))"
proof -
  let ?w = "CreateKernelTransfer src (of_nat n) 0 TRANSFER_WRITE"
  let ?r = "CreateKernelTransfer dst (of_nat n) 0 TRANSFER_READ"
  have n: "unat (of_nat n :: u64) = n" using assms(2) by (simp add: unat_of_nat)
  then have nz: "(of_nat n :: u64) \<noteq> 0" using assms(1) by auto
  have idle: "mb_idle (MailboxCreate PIPE_SIZE)" "mb_contents (MailboxCreate PIPE_SIZE) = []"
    using MailboxCreate_idle [of PIPE_SIZE] by auto
  obtain b1 tr1 where 1: "access_loop vas m (MailboxCreate PIPE_SIZE) ?w False = Some (Inr (m, b1, tr1, ESUCCESS))"
    "mb_idle b1" "mb_contents b1 = read_bytes m src n"
    using access_loop_write [OF idle(1), of ?w n False vas m] assms n idle(2)
    by (auto simp: create_defs)
  have used: "mb_used_size b1 = n" using arg_cong [OF 1(3), of length] by simp
  obtain b2 tr2 where 2: "access_loop vas m b1 ?r False =
      Some (Inr (write_bytes m dst (read_bytes m src n), b2, tr2, ESUCCESS))" "mb_contents b2 = []"
    using access_loop_read [OF 1(2), of ?r n False vas m] assms n used 1(3) by (auto simp: create_defs)
  have "read_bytes (write_bytes m dst (read_bytes m src n)) dst n = read_bytes m src n"
    using read_write_bytes [of "read_bytes m src n" m dst] assms(2) by simp
  moreover have "MailboxAccess vas m (MailboxCreate PIPE_SIZE) ?w = Some (Inr (m, b1, tr1, ESUCCESS))"
    "MailboxAccess vas m b1 ?r = Some (Inr (write_bytes m dst (read_bytes m src n), b2, tr2, ESUCCESS))"
    using 1 2 nz by (simp_all add: MailboxAccess_def create_defs)
  ultimately show ?thesis
    using 2(2) by (simp add: pipe_ReadWrite_def CreatePipe_def BreakPipe_def) (metis transfer_direction.exhaust)
qed

lemma pipe_roundtrip_witness:
  "\<exists>p1 tr1 m' p2 tr2.
     pipe_ReadWrite (\<lambda>_. None) (\<lambda>p. ucast p) CreatePipe (CreateKernelTransfer 0x1000 (of_nat 600) 0 TRANSFER_WRITE) =
       Some (Inr (\<lambda>p. ucast p, p1, tr1, ESUCCESS, False)) \<and>
     pipe_ReadWrite (\<lambda>_. None) (\<lambda>p. ucast p) p1 (CreateKernelTransfer 0x2000 (of_nat 600) 0 TRANSFER_READ) =
       Some (Inr (m', p2, tr2, ESUCCESS, False)) \<and>
     read_bytes m' 0x2000 600 = read_bytes (\<lambda>p. ucast p) 0x1000 600"
  using pipe_roundtrip [of 600 "0x1000" "0x2000" "\<lambda>_. None" "\<lambda>p. ucast p"] by simp blast

end
