(* ===== verification/MailboxProtocol.thy ===== *)
theory MailboxProtocol
  imports Mailbox
begin

text \<open>
  Mailboxes under concurrency.  Any number of threads run \<^verbatim>\<open>MailboxAddMany\<close> and
  \<^verbatim>\<open>MailboxGetMany\<close> of kernel/sync/mailbox.c at the same time; a step of the transition system is
  one operation on a semaphore or mutex, or the copy of one byte, of one thread.  The bytes added
  and got so far are recorded in the order of the copies.
\<close>

subsection \<open>The protocol\<close>

text \<open>Where a thread is in a call.  The number \<open>k\<close> is \<^verbatim>\<open>acquisitions\<close>, \<open>i\<close> the loop counter.\<close>

datatype mpc =
    Outside
  | AddWait "u8 list"            \<comment> \<open>holds \<open>add_mtx\<close>\<close>
  | AddTake "u8 list" nat        \<comment> \<open>holds \<open>add_mtx\<close>, has acquired \<open>empty_sem\<close> \<open>k\<close> times\<close>
  | AddCopy "u8 list" nat nat    \<comment> \<open>holds \<open>inner_mtx\<close> too\<close>
  | AddUnlock nat                \<comment> \<open>has released \<open>inner_mtx\<close>\<close>
  | AddRelease nat               \<comment> \<open>has released \<open>add_mtx\<close>\<close>
  | GetWait nat
  | GetTake nat nat
  | GetCopy nat nat
  | GetUnlock nat
  | GetRelease nat

record pstate =
  ps_mbox :: mailbox
  ps_pc :: "nat \<Rightarrow> mpc"
  ps_added :: "u8 list"
  ps_got :: "u8 list"

definition goto :: "nat \<Rightarrow> mpc \<Rightarrow> mailbox \<Rightarrow> pstate \<Rightarrow> pstate" where
  "goto t pc mbox s = s\<lparr>ps_mbox := mbox, ps_pc := (ps_pc s)(t := pc)\<rparr>"

text \<open>The steps of thread \<open>t\<close>, for \<open>t\<close> below the number \<open>n\<close> of threads.  When a thread stops
  acquiring units one by one is left open, which allows for the ones another thread gives back
  in between.\<close>

inductive mstep :: "nat \<Rightarrow> pstate \<Rightarrow> pstate \<Rightarrow> bool" for n :: nat where
  add_lock: "t < n \<Longrightarrow> ps_pc s t = Outside \<Longrightarrow> cs \<noteq> [] \<Longrightarrow>
     acquire_sem 1 (mb_add_mtx (ps_mbox s)) (-1) = Some (c, ESUCCESS) \<Longrightarrow>
     mstep n s (goto t (AddWait cs) ((ps_mbox s)\<lparr>mb_add_mtx := c\<rparr>) s)"
| add_first: "t < n \<Longrightarrow> ps_pc s t = AddWait cs \<Longrightarrow>
     acquire_sem (mb_total_size (ps_mbox s)) (mb_empty_sem (ps_mbox s)) (-1) = Some (c, ESUCCESS) \<Longrightarrow>
     mstep n s (goto t (AddTake cs 1) ((ps_mbox s)\<lparr>mb_empty_sem := c\<rparr>) s)"
| add_more: "t < n \<Longrightarrow> ps_pc s t = AddTake cs k \<Longrightarrow> k < length cs \<Longrightarrow>
     acquire_sem (mb_total_size (ps_mbox s)) (mb_empty_sem (ps_mbox s)) 0 = Some (c, ESUCCESS) \<Longrightarrow>
     mstep n s (goto t (AddTake cs (k + 1)) ((ps_mbox s)\<lparr>mb_empty_sem := c\<rparr>) s)"
| add_enter: "t < n \<Longrightarrow> ps_pc s t = AddTake cs k \<Longrightarrow>
     acquire_sem 1 (mb_inner_mtx (ps_mbox s)) (-1) = Some (c, ESUCCESS) \<Longrightarrow>
     mstep n s (goto t (AddCopy cs 0 k) ((ps_mbox s)\<lparr>mb_inner_mtx := c\<rparr>) s)"
| add_copy: "t < n \<Longrightarrow> ps_pc s t = AddCopy cs i k \<Longrightarrow> i < k \<Longrightarrow>
     mstep n s ((goto t (AddCopy cs (i + 1) k) (put_byte (ps_mbox s) (cs ! i)) s)
                  \<lparr>ps_added := ps_added s @ [cs ! i]\<rparr>)"
| add_leave: "t < n \<Longrightarrow> ps_pc s t = AddCopy cs k k \<Longrightarrow>
     release_sem (mb_inner_mtx (ps_mbox s)) 1 = Inr c \<Longrightarrow>
     mstep n s (goto t (AddUnlock k) ((ps_mbox s)\<lparr>mb_inner_mtx := c\<rparr>) s)"
| add_unlock: "t < n \<Longrightarrow> ps_pc s t = AddUnlock k \<Longrightarrow>
     release_sem (mb_add_mtx (ps_mbox s)) 1 = Inr c \<Longrightarrow>
     mstep n s (goto t (AddRelease k) ((ps_mbox s)\<lparr>mb_add_mtx := c\<rparr>) s)"
| add_release: "t < n \<Longrightarrow> ps_pc s t = AddRelease k \<Longrightarrow>
     release_sem (mb_full_sem (ps_mbox s)) k = Inr c \<Longrightarrow>
     mstep n s (goto t Outside ((ps_mbox s)\<lparr>mb_full_sem := c\<rparr>) s)"
| get_lock: "t < n \<Longrightarrow> ps_pc s t = Outside \<Longrightarrow> 0 < limit \<Longrightarrow>
     acquire_sem 1 (mb_get_mtx (ps_mbox s)) (-1) = Some (c, ESUCCESS) \<Longrightarrow>
     mstep n s (goto t (GetWait limit) ((ps_mbox s)\<lparr>mb_get_mtx := c\<rparr>) s)"
| get_first: "t < n \<Longrightarrow> ps_pc s t = GetWait limit \<Longrightarrow>
     acquire_sem (mb_total_size (ps_mbox s)) (mb_full_sem (ps_mbox s)) (-1) = Some (c, ESUCCESS) \<Longrightarrow>
     mstep n s (goto t (GetTake limit 1) ((ps_mbox s)\<lparr>mb_full_sem := c\<rparr>) s)"
| get_more: "t < n \<Longrightarrow> ps_pc s t = GetTake limit k \<Longrightarrow> k < limit \<Longrightarrow>
     acquire_sem (mb_total_size (ps_mbox s)) (mb_full_sem (ps_mbox s)) 0 = Some (c, ESUCCESS) \<Longrightarrow>
     mstep n s (goto t (GetTake limit (k + 1)) ((ps_mbox s)\<lparr>mb_full_sem := c\<rparr>) s)"
| get_enter: "t < n \<Longrightarrow> ps_pc s t = GetTake limit k \<Longrightarrow>
     acquire_sem 1 (mb_inner_mtx (ps_mbox s)) (-1) = Some (c, ESUCCESS) \<Longrightarrow>
     mstep n s (goto t (GetCopy 0 k) ((ps_mbox s)\<lparr>mb_inner_mtx := c\<rparr>) s)"
| get_copy: "t < n \<Longrightarrow> ps_pc s t = GetCopy i k \<Longrightarrow> i < k \<Longrightarrow> take_byte (ps_mbox s) = (mbox, b) \<Longrightarrow>
     mstep n s ((goto t (GetCopy (i + 1) k) mbox s)\<lparr>ps_got := ps_got s @ [b]\<rparr>)"
| get_leave: "t < n \<Longrightarrow> ps_pc s t = GetCopy k k \<Longrightarrow>
     release_sem (mb_inner_mtx (ps_mbox s)) 1 = Inr c \<Longrightarrow>
     mstep n s (goto t (GetUnlock k) ((ps_mbox s)\<lparr>mb_inner_mtx := c\<rparr>) s)"
| get_unlock: "t < n \<Longrightarrow> ps_pc s t = GetUnlock k \<Longrightarrow>
     release_sem (mb_get_mtx (ps_mbox s)) 1 = Inr c \<Longrightarrow>
     mstep n s (goto t (GetRelease k) ((ps_mbox s)\<lparr>mb_get_mtx := c\<rparr>) s)"
| get_release: "t < n \<Longrightarrow> ps_pc s t = GetRelease k \<Longrightarrow>
     release_sem (mb_empty_sem (ps_mbox s)) k = Inr c \<Longrightarrow>
     mstep n s (goto t Outside ((ps_mbox s)\<lparr>mb_empty_sem := c\<rparr>) s)"

text \<open>A wait for the first unit may also end with a timeout or a signal; the mutex is released.\<close>

inductive mtimeout :: "nat \<Rightarrow> pstate \<Rightarrow> pstate \<Rightarrow> bool" for n :: nat where
  add_timeout: "t < n \<Longrightarrow> ps_pc s t = AddWait cs \<Longrightarrow> release_sem (mb_add_mtx (ps_mbox s)) 1 = Inr c \<Longrightarrow>
     mtimeout n s (goto t Outside ((ps_mbox s)\<lparr>mb_add_mtx := c\<rparr>) s)"
| get_timeout: "t < n \<Longrightarrow> ps_pc s t = GetWait limit \<Longrightarrow> release_sem (mb_get_mtx (ps_mbox s)) 1 = Inr c \<Longrightarrow>
     mtimeout n s (goto t Outside ((ps_mbox s)\<lparr>mb_get_mtx := c\<rparr>) s)"

definition ps_init :: "nat \<Rightarrow> pstate" where
  "ps_init sz = \<lparr>ps_mbox = MailboxCreate sz, ps_pc = (\<lambda>_. Outside), ps_added = [], ps_got = []\<rparr>"

inductive mreach :: "nat \<Rightarrow> nat \<Rightarrow> pstate \<Rightarrow> bool" for n sz :: nat where
  mreach_init: "mreach n sz (ps_init sz)"
| mreach_step: "mreach n sz s \<Longrightarrow> mstep n s s' \<Longrightarrow> mreach n sz s'"
| mreach_timeout: "mreach n sz s \<Longrightarrow> mtimeout n s s' \<Longrightarrow> mreach n sz s'"

subsection \<open>The invariant\<close>

text \<open>What a thread has taken and not given back, by the place it is at.\<close>

fun reserved :: "mpc \<Rightarrow> nat" where
  "reserved (AddTake cs k) = k" | "reserved (AddCopy cs i k) = k - i" | "reserved _ = 0"

fun unannounced :: "mpc \<Rightarrow> nat" where
  "unannounced (AddCopy cs i k) = i" | "unannounced (AddUnlock k) = k"
| "unannounced (AddRelease k) = k" | "unannounced _ = 0"

fun claimed :: "mpc \<Rightarrow> nat" where
  "claimed (GetTake limit k) = k" | "claimed (GetCopy i k) = k - i" | "claimed _ = 0"

fun unreturned :: "mpc \<Rightarrow> nat" where
  "unreturned (GetCopy i k) = i" | "unreturned (GetUnlock k) = k"
| "unreturned (GetRelease k) = k" | "unreturned _ = 0"

fun holds_add :: "mpc \<Rightarrow> nat" where
  "holds_add (AddWait cs) = 1" | "holds_add (AddTake cs k) = 1" | "holds_add (AddCopy cs i k) = 1"
| "holds_add (AddUnlock k) = 1" | "holds_add _ = 0"

fun holds_get :: "mpc \<Rightarrow> nat" where
  "holds_get (GetWait limit) = 1" | "holds_get (GetTake limit k) = 1" | "holds_get (GetCopy i k) = 1"
| "holds_get (GetUnlock k) = 1" | "holds_get _ = 0"

fun holds_inner :: "mpc \<Rightarrow> nat" where
  "holds_inner (AddCopy cs i k) = 1" | "holds_inner (GetCopy i k) = 1" | "holds_inner _ = 0"

fun pc_ok :: "mpc \<Rightarrow> bool" where
  "pc_ok (AddTake cs k) \<longleftrightarrow> k \<le> length cs" | "pc_ok (AddCopy cs i k) \<longleftrightarrow> i \<le> k \<and> k \<le> length cs"
| "pc_ok (AddWait cs) \<longleftrightarrow> cs \<noteq> []" | "pc_ok (GetCopy i k) \<longleftrightarrow> i \<le> k" | "pc_ok _ \<longleftrightarrow> True"

definition tot :: "nat \<Rightarrow> (mpc \<Rightarrow> nat) \<Rightarrow> (nat \<Rightarrow> mpc) \<Rightarrow> nat" where
  "tot n f pcs = (\<Sum>t<n. f (pcs t))"

definition minv :: "nat \<Rightarrow> nat \<Rightarrow> pstate \<Rightarrow> bool" where
  "minv n sz s \<longleftrightarrow> (let mbox = ps_mbox s; pcs = ps_pc s in
     ring_ok mbox \<and> mb_total_size mbox = sz \<and> ps_added s = ps_got s @ mb_contents mbox \<and>
     mb_empty_sem mbox = mb_used_size mbox + tot n reserved pcs + tot n unreturned pcs \<and>
     mb_full_sem mbox + mb_used_size mbox = sz + tot n claimed pcs + tot n unannounced pcs \<and>
     mb_empty_sem mbox \<le> sz \<and> mb_full_sem mbox \<le> sz \<and>
     mb_add_mtx mbox = tot n holds_add pcs \<and> mb_add_mtx mbox \<le> 1 \<and>
     mb_get_mtx mbox = tot n holds_get pcs \<and> mb_get_mtx mbox \<le> 1 \<and>
     mb_inner_mtx mbox = tot n holds_inner pcs \<and> mb_inner_mtx mbox \<le> 1 \<and>
     (\<forall>t<n. pc_ok (pcs t)))"

lemma tot_upd: "t < n \<Longrightarrow> tot n f (pcs(t := p)) + f (pcs t) = tot n f pcs + f p"
proof -
  assume t: "t < n"
  have "tot n f q = f (q t) + (\<Sum>u\<in>{..<n} - {t}. f (q u))" for q
    using t by (simp add: tot_def sum.remove [of "{..<n}" t])
  moreover have "(\<Sum>u\<in>{..<n} - {t}. f ((pcs(t := p)) u)) = (\<Sum>u\<in>{..<n} - {t}. f (pcs u))"
    by (intro sum.cong) auto
  ultimately show ?thesis by simp
qed

lemma tot_ge: "t < n \<Longrightarrow> f (pcs t) \<le> tot n f pcs"
  unfolding tot_def by (rule member_le_sum) auto

lemma minv_init: "0 < sz \<Longrightarrow> minv n sz (ps_init sz)"
  using MailboxCreate_idle [of sz] by (simp add: minv_def ps_init_def tot_def Let_def mb_idle_def)

lemmas acquire_simps = acquire_sem_def release_sem_def

lemma totals_upd:
  assumes "t < n" "pcs t = p0"
  shows "tot n reserved (pcs(t := p)) + reserved p0 = tot n reserved pcs + reserved p"
    "tot n unannounced (pcs(t := p)) + unannounced p0 = tot n unannounced pcs + unannounced p"
    "tot n claimed (pcs(t := p)) + claimed p0 = tot n claimed pcs + claimed p"
    "tot n unreturned (pcs(t := p)) + unreturned p0 = tot n unreturned pcs + unreturned p"
    "tot n holds_add (pcs(t := p)) + holds_add p0 = tot n holds_add pcs + holds_add p"
    "tot n holds_get (pcs(t := p)) + holds_get p0 = tot n holds_get pcs + holds_get p"
    "tot n holds_inner (pcs(t := p)) + holds_inner p0 = tot n holds_inner pcs + holds_inner p"
  using tot_upd [OF assms(1), of _ pcs p] assms(2) by simp_all

lemma pc_ok_upd: "\<forall>t<n. pc_ok (pcs t) \<Longrightarrow> pc_ok p \<Longrightarrow> \<forall>u<n. pc_ok ((pcs(t := p)) u)"
  by simp

lemma minvD:
  assumes "minv n sz s"
  shows "ring_ok (ps_mbox s)" "mb_total_size (ps_mbox s) = sz"
    "ps_added s = ps_got s @ mb_contents (ps_mbox s)"
    "mb_empty_sem (ps_mbox s) = mb_used_size (ps_mbox s) + tot n reserved (ps_pc s) + tot n unreturned (ps_pc s)"
    "mb_full_sem (ps_mbox s) + mb_used_size (ps_mbox s) =
       sz + tot n claimed (ps_pc s) + tot n unannounced (ps_pc s)"
    "mb_empty_sem (ps_mbox s) \<le> sz" "mb_full_sem (ps_mbox s) \<le> sz"
    "mb_add_mtx (ps_mbox s) = tot n holds_add (ps_pc s)" "mb_add_mtx (ps_mbox s) \<le> 1"
    "mb_get_mtx (ps_mbox s) = tot n holds_get (ps_pc s)" "mb_get_mtx (ps_mbox s) \<le> 1"
    "mb_inner_mtx (ps_mbox s) = tot n holds_inner (ps_pc s)" "mb_inner_mtx (ps_mbox s) \<le> 1"
    "\<forall>t<n. pc_ok (ps_pc s t)"
  using assms by (simp_all add: minv_def Let_def)

text \<open>A step that changes semaphore counts and the place of one thread only.\<close>

lemma minv_goto:
  assumes inv: "minv n sz s" and t: "t < n" "ps_pc s t = p0" and p: "pc_ok p"
    and same: "mb_data mbox = mb_data (ps_mbox s)" "mb_total_size mbox = mb_total_size (ps_mbox s)"
      "mb_used_size mbox = mb_used_size (ps_mbox s)" "mb_start_pos mbox = mb_start_pos (ps_mbox s)"
      "mb_end_pos mbox = mb_end_pos (ps_mbox s)"
    and empty: "mb_empty_sem mbox + reserved p0 + unreturned p0 =
        mb_empty_sem (ps_mbox s) + reserved p + unreturned p" "mb_empty_sem mbox \<le> sz"
    and full: "mb_full_sem mbox + claimed p0 + unannounced p0 =
        mb_full_sem (ps_mbox s) + claimed p + unannounced p" "mb_full_sem mbox \<le> sz"
    and mtx: "mb_add_mtx mbox + holds_add p0 = mb_add_mtx (ps_mbox s) + holds_add p" "mb_add_mtx mbox \<le> 1"
      "mb_get_mtx mbox + holds_get p0 = mb_get_mtx (ps_mbox s) + holds_get p" "mb_get_mtx mbox \<le> 1"
      "mb_inner_mtx mbox + holds_inner p0 = mb_inner_mtx (ps_mbox s) + holds_inner p" "mb_inner_mtx mbox \<le> 1"
  shows "minv n sz (goto t p mbox s)"
proof -
  note d = minvD [OF inv] and u = totals_upd [where pcs = "ps_pc s" and p = p, OF t]
  have ring: "ring_ok mbox" "mb_contents mbox = mb_contents (ps_mbox s)"
    using d(1) same by (simp_all add: ring_ok_def mb_contents_def)
  have "mb_empty_sem mbox = mb_used_size mbox + tot n reserved ((ps_pc s)(t := p)) + tot n unreturned ((ps_pc s)(t := p))"
    using u(1,4) empty(1) d(4) same(3) by linarith
  moreover have "mb_full_sem mbox + mb_used_size mbox =
      sz + tot n claimed ((ps_pc s)(t := p)) + tot n unannounced ((ps_pc s)(t := p))"
    using u(2,3) full(1) d(5) same(3) by linarith
  moreover have "mb_add_mtx mbox = tot n holds_add ((ps_pc s)(t := p))"
    "mb_get_mtx mbox = tot n holds_get ((ps_pc s)(t := p))"
    "mb_inner_mtx mbox = tot n holds_inner ((ps_pc s)(t := p))"
    using u(5-7) mtx d(8,10,12) by linarith+
  ultimately show ?thesis
    unfolding minv_def Let_def goto_def
    using ring d(2,3) same(2) empty(2) full(2) mtx(2,4,6) pc_ok_upd [OF d(14) p, of t] by simp
qed

text \<open>Copying one byte in or out.\<close>

lemma minv_put:
  assumes inv: "minv n sz s" and t: "t < n" "ps_pc s t = AddCopy cs i k" "i < k"
  shows "minv n sz ((goto t (AddCopy cs (i + 1) k) (put_byte (ps_mbox s) (cs ! i)) s)
                      \<lparr>ps_added := ps_added s @ [cs ! i]\<rparr>)"
proof -
  let ?p = "AddCopy cs (i + 1) k"
  note d = minvD [OF inv] and u = totals_upd [where pcs = "ps_pc s" and p = ?p, OF t(1,2)]
  have "pc_ok (AddCopy cs i k)" using d(14) t(1,2) by metis
  then have ok: "pc_ok ?p" using t(3) by simp
  have "0 < tot n reserved (ps_pc s)"
    using tot_ge [OF t(1), of reserved "ps_pc s"] t(2,3) by simp
  then have lt: "mb_used_size (ps_mbox s) < mb_total_size (ps_mbox s)" using d(2,4,6) by linarith
  note put = put_byte_ring [OF d(1) lt, of "cs ! i"]
  have sems: "mb_total_size (put_byte m b) = mb_total_size m" "mb_used_size (put_byte m b) = mb_used_size m + 1"
    "mb_empty_sem (put_byte m b) = mb_empty_sem m" "mb_full_sem (put_byte m b) = mb_full_sem m"
    "mb_add_mtx (put_byte m b) = mb_add_mtx m" "mb_get_mtx (put_byte m b) = mb_get_mtx m"
    "mb_inner_mtx (put_byte m b) = mb_inner_mtx m" for m b by (simp_all add: put_byte_def)
  show ?thesis
    unfolding minv_def Let_def goto_def
    using put d(2-13) u t(3) pc_ok_upd [OF d(14) ok, of t] by (simp add: sems)
qed

lemma minv_take:
  assumes inv: "minv n sz s" and t: "t < n" "ps_pc s t = GetCopy i k" "i < k"
    and tb: "take_byte (ps_mbox s) = (mbox, b)"
  shows "minv n sz ((goto t (GetCopy (i + 1) k) mbox s)\<lparr>ps_got := ps_got s @ [b]\<rparr>)"
proof -
  let ?p = "GetCopy (i + 1) k"
  note d = minvD [OF inv] and u = totals_upd [where pcs = "ps_pc s" and p = ?p, OF t(1,2)]
  have ok: "pc_ok ?p" using t(3) by simp
  have "0 < tot n claimed (ps_pc s)"
    using tot_ge [OF t(1), of claimed "ps_pc s"] t(2,3) by simp
  then have lt: "0 < mb_used_size (ps_mbox s)" using d(2,5,7) by linarith
  note take = take_byte_ring [OF d(1) lt tb]
  have sems: "mb_total_size mbox = mb_total_size (ps_mbox s)" "mb_used_size (ps_mbox s) = mb_used_size mbox + 1"
    "mb_empty_sem mbox = mb_empty_sem (ps_mbox s)" "mb_full_sem mbox = mb_full_sem (ps_mbox s)"
    "mb_add_mtx mbox = mb_add_mtx (ps_mbox s)" "mb_get_mtx mbox = mb_get_mtx (ps_mbox s)"
    "mb_inner_mtx mbox = mb_inner_mtx (ps_mbox s)" using tb lt by (auto simp: take_byte_def)
  show ?thesis
    unfolding minv_def Let_def goto_def
    using take d(2-13) u t(3) pc_ok_upd [OF d(14) ok, of t] by (simp add: sems)
qed

lemma acquire_sem_Some: "acquire_sem mx cnt w = Some (c, ESUCCESS) \<Longrightarrow> cnt < mx \<and> c = cnt + 1"
  by (auto simp: acquire_sem_def split: if_splits)

lemma release_sem_Inr: "release_sem cnt k = Inr c \<Longrightarrow> k \<le> cnt \<and> c = cnt - k"
  by (auto simp: release_sem_def split: if_splits)

lemma minv_step:
  assumes inv: "minv n sz s" and "mstep n s s'"
  shows "minv n sz s'"
proof -
  note d = minvD [OF inv]
  note b = d(2,6,7,9,11,13)
  have ok: "pc_ok p" if "t < n" "ps_pc s t = p" for t p using d(14) that by auto
  from assms(2) show ?thesis
  proof cases
    case (add_copy t cs i k)
    then show ?thesis using minv_put [OF inv] by simp
  next
    case (get_copy t i k mbox b)
    then show ?thesis using minv_take [OF inv] by simp
  next
    case (add_lock t cs c)
    show ?thesis
      unfolding add_lock(1) by (rule minv_goto [OF inv add_lock(2,3)])
        (use b add_lock(4) acquire_sem_Some [OF add_lock(5)] in \<open>auto simp: Suc_le_eq\<close>)
  next
    case (add_first t cs c)
    show ?thesis
      unfolding add_first(1) by (rule minv_goto [OF inv add_first(2,3)])
        (use b ok [OF add_first(2,3)] acquire_sem_Some [OF add_first(4)] in \<open>auto simp: Suc_le_eq\<close>)
  next
    case (add_more t cs k c)
    show ?thesis
      unfolding add_more(1) by (rule minv_goto [OF inv add_more(2,3)])
        (use b ok [OF add_more(2,3)] add_more(4) acquire_sem_Some [OF add_more(5)] in \<open>auto simp: Suc_le_eq\<close>)
  next
    case (add_enter t cs k c)
    show ?thesis
      unfolding add_enter(1) by (rule minv_goto [OF inv add_enter(2,3)])
        (use b ok [OF add_enter(2,3)] acquire_sem_Some [OF add_enter(4)] in \<open>auto simp: Suc_le_eq\<close>)
  next
    case (add_leave t cs k c)
    show ?thesis
      unfolding add_leave(1) by (rule minv_goto [OF inv add_leave(2,3)])
        (use b ok [OF add_leave(2,3)] release_sem_Inr [OF add_leave(4)] in \<open>auto simp: Suc_le_eq\<close>)
  next
    case (add_unlock t k c)
    show ?thesis
      unfolding add_unlock(1) by (rule minv_goto [OF inv add_unlock(2,3)])
        (use b release_sem_Inr [OF add_unlock(4)] in \<open>auto simp: Suc_le_eq\<close>)
  next
    case (add_release t k c)
    show ?thesis
      unfolding add_release(1) by (rule minv_goto [OF inv add_release(2,3)])
        (use b release_sem_Inr [OF add_release(4)] in \<open>auto simp: Suc_le_eq\<close>)
  next
    case (get_lock t limit c)
    show ?thesis
      unfolding get_lock(1) by (rule minv_goto [OF inv get_lock(2,3)])
        (use b get_lock(4) acquire_sem_Some [OF get_lock(5)] in \<open>auto simp: Suc_le_eq\<close>)
  next
    case (get_first t limit c)
    show ?thesis
      unfolding get_first(1) by (rule minv_goto [OF inv get_first(2,3)])
        (use b acquire_sem_Some [OF get_first(4)] in \<open>auto simp: Suc_le_eq\<close>)
  next
    case (get_more t limit k c)
    show ?thesis
      unfolding get_more(1) by (rule minv_goto [OF inv get_more(2,3)])
        (use b get_more(4) acquire_sem_Some [OF get_more(5)] in \<open>auto simp: Suc_le_eq\<close>)
  next
    case (get_enter t limit k c)
    show ?thesis
      unfolding get_enter(1) by (rule minv_goto [OF inv get_enter(2,3)])
        (use b acquire_sem_Some [OF get_enter(4)] in \<open>auto simp: Suc_le_eq\<close>)
  next
    case (get_leave t k c)
    show ?thesis
      unfolding get_leave(1) by (rule minv_goto [OF inv get_leave(2,3)])
        (use b release_sem_Inr [OF get_leave(4)] in \<open>auto simp: Suc_le_eq\<close>)
  next
    case (get_unlock t k c)
    show ?thesis
      unfolding get_unlock(1) by (rule minv_goto [OF inv get_unlock(2,3)])
        (use b release_sem_Inr [OF get_unlock(4)] in \<open>auto simp: Suc_le_eq\<close>)
  next
    case (get_release t k c)
    show ?thesis
      unfolding get_release(1) by (rule minv_goto [OF inv get_release(2,3)])
        (use b release_sem_Inr [OF get_release(4)] in \<open>auto simp: Suc_le_eq\<close>)
  qed
qed

lemma minv_timeout:
  assumes inv: "minv n sz s" and "mtimeout n s s'"
  shows "minv n sz s'"
proof -
  note b = minvD(2,6,7,9,11,13) [OF inv]
  from assms(2) show ?thesis
  proof cases
    case (add_timeout t cs c)
    show ?thesis
      unfolding add_timeout(1) by (rule minv_goto [OF inv add_timeout(2,3)])
        (use b release_sem_Inr [OF add_timeout(4)] in simp_all)
  next
    case (get_timeout t limit c)
    show ?thesis
      unfolding get_timeout(1) by (rule minv_goto [OF inv get_timeout(2,3)])
        (use b release_sem_Inr [OF get_timeout(4)] in simp_all)
  qed
qed

lemma minv_reach:
  assumes "mreach n sz s" "0 < sz"
  shows "minv n sz s"
  using assms(1)
proof induction
  case mreach_init
  show ?case by (rule minv_init [OF assms(2)])
next
  case (mreach_step s s')
  then show ?case by (blast intro: minv_step)
next
  case (mreach_timeout s s')
  then show ?case by (blast intro: minv_timeout)
qed

lemma tot_ge2: "t < n \<Longrightarrow> u < n \<Longrightarrow> t \<noteq> u \<Longrightarrow> f (pcs t) + f (pcs u) \<le> tot n f pcs"
proof -
  assume *: "t < n" "u < n" "t \<noteq> u"
  then have "(\<Sum>v\<in>{t, u}. f (pcs v)) \<le> tot n f pcs" unfolding tot_def by (intro sum_mono2) auto
  with * show ?thesis by simp
qed

text \<open>A place from which the next operation is a release, with the count it gives back.\<close>

fun next_release :: "mailbox \<Rightarrow> mpc \<Rightarrow> nat kres option" where
  "next_release mbox (AddCopy cs i k) = (if i = k then Some (release_sem (mb_inner_mtx mbox) 1) else None)"
| "next_release mbox (AddUnlock k) = Some (release_sem (mb_add_mtx mbox) 1)"
| "next_release mbox (AddRelease k) = Some (release_sem (mb_full_sem mbox) k)"
| "next_release mbox (GetCopy i k) = (if i = k then Some (release_sem (mb_inner_mtx mbox) 1) else None)"
| "next_release mbox (GetUnlock k) = Some (release_sem (mb_get_mtx mbox) 1)"
| "next_release mbox (GetRelease k) = Some (release_sem (mb_empty_sem mbox) k)"
| "next_release mbox _ = None"

lemma minv_no_panic:
  assumes inv: "minv n sz s" and t: "t < n"
  shows "next_release (ps_mbox s) (ps_pc s t) \<noteq> Some (Inl e)"
proof -
  note d = minvD [OF inv]
  have "mb_used_size (ps_mbox s) \<le> sz" using d(1,2) by (simp add: ring_ok_def)
  then have "unannounced (ps_pc s t) \<le> mb_full_sem (ps_mbox s)"
    using d(5) tot_ge [OF t, of unannounced "ps_pc s"] by linarith
  moreover have "unreturned (ps_pc s t) \<le> mb_empty_sem (ps_mbox s)"
    using d(4) tot_ge [OF t, of unreturned "ps_pc s"] by linarith
  moreover have "holds_add (ps_pc s t) \<le> mb_add_mtx (ps_mbox s)" "holds_get (ps_pc s t) \<le> mb_get_mtx (ps_mbox s)"
    "holds_inner (ps_pc s t) \<le> mb_inner_mtx (ps_mbox s)"
    using d(8,10,12) tot_ge [OF t, of holds_add "ps_pc s"] tot_ge [OF t, of holds_get "ps_pc s"]
      tot_ge [OF t, of holds_inner "ps_pc s"] by simp_all
  ultimately show ?thesis by (cases "ps_pc s t") (simp_all add: release_sem_def)
qed

subsection \<open>Progress\<close>

text \<open>A state in which no thread can take a step: every thread is outside or waits for a unit.\<close>

lemma stuck_places:
  assumes inv: "minv n sz s" and stuck: "\<And>s'. \<not> mstep n s s'" and t: "t < n"
  shows "(ps_pc s t = Outside) \<or> (\<exists>cs. ps_pc s t = AddWait cs) \<or> (\<exists>l. ps_pc s t = GetWait l) \<or>
         (\<exists>cs k. ps_pc s t = AddTake cs k) \<or> (\<exists>l k. ps_pc s t = GetTake l k)"
proof -
  have rel: "\<exists>c. r = Inr c" if "next_release (ps_mbox s) (ps_pc s t) = Some r" for r
    using minv_no_panic [OF inv t] that by (cases r) auto
  have ok: "pc_ok (ps_pc s t)" using minvD(14) [OF inv] t by blast
  show ?thesis
  proof (cases "ps_pc s t")
    case (AddCopy cs i k)
    show ?thesis
    proof (cases "i = k")
      case True
      with mstep.add_leave [OF t, of s cs k] stuck rel AddCopy show ?thesis by (auto simp del: One_nat_def)
    next
      case False
      with mstep.add_copy [OF t AddCopy] ok stuck AddCopy show ?thesis by simp
    qed
  next
    case (GetCopy i k)
    show ?thesis
    proof (cases "i = k")
      case True
      with mstep.get_leave [OF t, of s k] stuck rel GetCopy show ?thesis by (auto simp del: One_nat_def)
    next
      case False
      obtain m b where "take_byte (ps_mbox s) = (m, b)" by fastforce
      with False mstep.get_copy [OF t GetCopy] ok stuck GetCopy show ?thesis by simp
    qed
  next
    case (AddUnlock k)
    with mstep.add_unlock [OF t, of s k] stuck rel show ?thesis by (auto simp del: One_nat_def)
  next
    case (AddRelease k)
    with mstep.add_release [OF t, of s k] stuck rel show ?thesis by auto
  next
    case (GetUnlock k)
    with mstep.get_unlock [OF t, of s k] stuck rel show ?thesis by (auto simp del: One_nat_def)
  next
    case (GetRelease k)
    with mstep.get_release [OF t, of s k] stuck rel show ?thesis by auto
  qed auto
qed

lemma stuck_no_take:
  assumes inv: "minv n sz s" and stuck: "\<And>s'. \<not> mstep n s s'" and t: "t < n"
  shows "ps_pc s t \<noteq> AddTake cs k" "ps_pc s t \<noteq> GetTake l k"
proof -
  have "holds_inner (ps_pc s u) = 0" if "u < n" for u
    using stuck_places [OF inv stuck that] by auto
  then have "mb_inner_mtx (ps_mbox s) = 0" using minvD(12) [OF inv] by (simp add: tot_def)
  then have free: "acquire_sem 1 (mb_inner_mtx (ps_mbox s)) (-1) = Some (1, ESUCCESS)"
    by (simp add: acquire_sem_def)
  show "ps_pc s t \<noteq> AddTake cs k" using mstep.add_enter [OF t _ free] stuck by blast
  show "ps_pc s t \<noteq> GetTake l k" using mstep.get_enter [OF t _ free] stuck by blast
qed

lemma stuck_waiting:
  assumes inv: "minv n sz s" and stuck: "\<And>s'. \<not> mstep n s s'" and sz: "0 < sz"
    and t: "t < n" "ps_pc s t = AddWait cs" and u: "u < n" "ps_pc s u = GetWait l"
  shows False
proof -
  note d = minvD [OF inv]
  have "reserved (ps_pc s v) = 0 \<and> unannounced (ps_pc s v) = 0 \<and> claimed (ps_pc s v) = 0 \<and> unreturned (ps_pc s v) = 0"
    if "v < n" for v
    using stuck_places [OF inv stuck that] stuck_no_take [OF inv stuck that] by auto
  then have zero: "tot n reserved (ps_pc s) = 0" "tot n unannounced (ps_pc s) = 0"
    "tot n claimed (ps_pc s) = 0" "tot n unreturned (ps_pc s) = 0" by (simp_all add: tot_def)
  have "\<not> mb_empty_sem (ps_mbox s) < sz"
    using mstep.add_first [OF t] stuck d(2) by (auto simp: acquire_sem_def)
  moreover have "\<not> mb_full_sem (ps_mbox s) < sz"
    using mstep.get_first [OF u] stuck d(2) by (auto simp: acquire_sem_def)
  ultimately show False using d(4-7) zero sz by linarith
qed

subsection \<open>Properties\<close>

text \<open>A reachable state: thread 0 is about to add a byte and thread 1 about to get one.\<close>

definition one_waiting :: pstate where
  "one_waiting = goto 0 (AddWait [7]) ((MailboxCreate 4)\<lparr>mb_add_mtx := 1\<rparr>) (ps_init 4)"

definition both_waiting :: pstate where
  "both_waiting = goto 1 (GetWait 3) ((MailboxCreate 4)\<lparr>mb_add_mtx := 1, mb_get_mtx := 1\<rparr>) one_waiting"

lemma both_waiting_reach: "mreach 2 4 both_waiting"
proof -
  have "mstep 2 (ps_init 4) one_waiting"
    using mstep.add_lock [of 0 2 "ps_init 4" "[7]" 1]
    by (simp add: one_waiting_def ps_init_def acquire_sem_def MailboxCreate_def)
  moreover have "mstep 2 one_waiting both_waiting"
    using mstep.get_lock [of 1 2 one_waiting 3 1]
    by (simp add: both_waiting_def one_waiting_def goto_def ps_init_def acquire_sem_def MailboxCreate_def)
  ultimately show ?thesis using mreach_init mreach_step by blast
qed

text \<open>C21.  In every state that any interleaving of calls by any number of threads reaches: the
  bytes got so far are the first bytes added, in order, and what is left is exactly what the
  mailbox holds; the buffer never overflows; at most one thread is inside the critical section of
  \<open>inner_mtx\<close>; and no release of a semaphore or mutex makes a count negative, so none panics.\<close>

theorem mailbox_fifo_concurrent:
  assumes "mreach n sz s" "0 < sz"
  shows "ps_added s = ps_got s @ mb_contents (ps_mbox s) \<and> mb_used_size (ps_mbox s) \<le> sz \<and>
    (\<forall>t<n. \<forall>u<n. holds_inner (ps_pc s t) = 1 \<and> holds_inner (ps_pc s u) = 1 \<longrightarrow> t = u) \<and>
    (\<forall>t<n. \<forall>e. next_release (ps_mbox s) (ps_pc s t) \<noteq> Some (Inl e))"
proof -
  note inv = minv_reach [OF assms]
  note d = minvD [OF inv]
  have "t = u" if *: "t < n" "u < n" "holds_inner (ps_pc s t) = 1" "holds_inner (ps_pc s u) = 1" for t u
  proof (rule ccontr)
    assume "t \<noteq> u"
    from tot_ge2 [OF *(1,2) this, of holds_inner "ps_pc s"] *(3,4) d(12,13) show False by simp
  qed
  moreover have "mb_used_size (ps_mbox s) \<le> sz" using d(1,2) by (simp add: ring_ok_def)
  ultimately show ?thesis using d(3) minv_no_panic [OF inv] by blast
qed

theorem mailbox_fifo_concurrent_witness:
  "ps_added both_waiting = ps_got both_waiting @ mb_contents (ps_mbox both_waiting)"
  using mailbox_fifo_concurrent [OF both_waiting_reach] by simp

text \<open>C22.  Writers and readers cannot deadlock: whenever some thread waits for free space and some
  thread waits for data, a thread can take a step without any timeout.\<close>

theorem mailbox_no_deadlock:
  assumes "mreach n sz s" "0 < sz" "t < n" "ps_pc s t = AddWait cs" "u < n" "ps_pc s u = GetWait limit"
  shows "\<exists>s'. mstep n s s'"
  using stuck_waiting [OF minv_reach [OF assms(1,2)] _ assms(2-6)] by blast

theorem mailbox_no_deadlock_witness: "\<exists>s'. mstep 2 both_waiting s'"
  by (rule mailbox_no_deadlock [OF both_waiting_reach, of 0 "[7]" 1 3])
     (simp_all add: both_waiting_def one_waiting_def goto_def)

end
