(* ===== verification/TimeConv.thy ===== *)
theory TimeConv
  imports Prelude
begin

text \<open>
  Conversions between calendar dates and time values, microseconds since 1601:
  libc/common/timeconv.c, with \<^verbatim>\<open>localtime\<close> and \<^verbatim>\<open>mktime\<close> of libc/hosted/time/time.c that rest
  on it.  All quantities are integers; \<open>TimeStructToValue_bounds\<close> shows that the 64-bit
  arithmetic of the C code does not wrap, and the 8-bit fields of the result are reduced modulo
  256 where the code may exceed them.
\<close>

record ostime =
  ot_sec :: int
  ot_min :: int
  ot_hour :: int
  ot_day :: int
  ot_month :: int
  ot_year :: int
  ot_microsec :: int

abbreviation (input) SECS_PER_DAY :: int where "SECS_PER_DAY \<equiv> 86400"
abbreviation (input) SECS_BETWEEN_1970_AND_1601 :: int where "SECS_BETWEEN_1970_AND_1601 \<equiv> 11644473600"

definition IsLeapYear :: "int \<Rightarrow> bool" where
  "IsLeapYear year \<longleftrightarrow> year mod 4 = 0 \<and> (year mod 100 \<noteq> 0 \<or> year mod 400 = 0)"

definition cumulative_days_in_months :: "int list" where
  "cumulative_days_in_months = [0, 31, 59, 90, 120, 151, 181, 212, 243, 273, 304, 334, 365]"

abbreviation (input) cumulative_days :: "int \<Rightarrow> int" where
  "cumulative_days i \<equiv> cumulative_days_in_months ! nat i"

function leap_loop :: "int \<Rightarrow> int \<Rightarrow> int \<Rightarrow> int" where
  "leap_loop year i leaps =
     (if i < year then leap_loop year (i + 4) (if IsLeapYear i then leaps + 1 else leaps) else leaps)"
  by pat_completeness auto
termination
  by (relation "measure (\<lambda>(year, i, leaps). nat (year - i))") auto

declare leap_loop.simps [simp del]

definition GetFullLeapYearsSince1601 :: "int \<Rightarrow> int" where
  "GetFullLeapYearsSince1601 year = leap_loop year 1604 0"

definition TimeStructToValue :: "ostime \<Rightarrow> int" where
  "TimeStructToValue t =
     (if ot_year t < 1601 \<or> ot_year t > 2400 then 0
      else if ot_month t < 1 \<or> ot_month t > 12 then 0
      else if ot_day t < 1 \<or> ot_day t > 31 then 0
      else let total_secs = ot_sec t + ot_min t * 60 + ot_hour t * 3600;
               days = ot_day t - 1 + cumulative_days (ot_month t - 1);
               days = (if IsLeapYear (ot_year t) \<and> ot_month t \<ge> 3 then days + 1 else days);
               days = days + 365 * (ot_year t - 1601) + GetFullLeapYearsSince1601 (ot_year t);
               total_secs = total_secs + days * SECS_PER_DAY
           in total_secs * 1000000 + ot_microsec t)"

text \<open>The inner loop over the months: the month reached (13 past December) and the days left.\<close>

function month_loop :: "int \<Rightarrow> int \<Rightarrow> int \<Rightarrow> int \<times> int" where
  "month_loop year days_left i =
     (if i \<le> 12
      then let days = cumulative_days i; leap = (if i \<ge> 2 \<and> IsLeapYear year then 1 else 0)
           in if days_left \<ge> days + leap then month_loop year days_left (i + 1)
              else (i, days_left - (cumulative_days (i - 1) +
                                    (if i - 1 \<ge> 2 \<and> IsLeapYear year then 1 else 0)))
      else (i, days_left))"
  by pat_completeness auto
termination
  by (relation "measure (\<lambda>(year, days_left, i). nat (13 - i))") auto

declare month_loop.simps [simp del]

text \<open>The outer loop over the years; the month before the first iteration is not initialised.\<close>

function year_loop :: "int \<Rightarrow> int \<Rightarrow> int \<Rightarrow> int \<times> int \<times> int" where
  "year_loop year month days_left =
     (if year > 2400 then (year, month, days_left)
      else let (month, days_left) = month_loop year days_left 1
           in if month = 13
              then year_loop (year + 1) month (days_left - (if IsLeapYear year then 366 else 365))
              else (year, month, days_left))"
  by pat_completeness auto
termination
  by (relation "measure (\<lambda>(year, month, days_left). nat (2401 - year))") auto

declare year_loop.simps [simp del]

definition TimeValueToStruct :: "int \<Rightarrow> ostime" where
  "TimeValueToStruct t =
     (let microsec = t mod 1000000; t = t div 1000000;
          (year, month, days_left) = year_loop 1601 0 (t div SECS_PER_DAY)
      in \<lparr>ot_sec = t mod 60, ot_min = t div 60 mod 60, ot_hour = t div 3600 mod 24,
          ot_day = (days_left + 1) mod 256, ot_month = month, ot_year = year, ot_microsec = microsec\<rparr>)"

definition GetWeekday :: "int \<Rightarrow> int" where
  "GetWeekday t = (1 + t div 1000000 div SECS_PER_DAY) mod 7 + 1"

text \<open>Unix times are unsigned 64-bit values.\<close>

definition TimeValueToUnixTime :: "int \<Rightarrow> int" where
  "TimeValueToUnixTime t = (t div 1000000 - SECS_BETWEEN_1970_AND_1601) mod 2 ^ 64"

definition UnixTimeToTimeValue :: "int \<Rightarrow> int" where
  "UnixTimeToTimeValue t = (t + SECS_BETWEEN_1970_AND_1601) mod 2 ^ 64 * 1000000 mod 2 ^ 64"

subsection \<open>The hosted library\<close>

record tm =
  tm_sec :: int
  tm_min :: int
  tm_hour :: int
  tm_mday :: int
  tm_mon :: int
  tm_year :: int
  tm_yday :: int
  tm_wday :: int

text \<open>\<^verbatim>\<open>localtime\<close> without the time zone name and offset, which come from a system call.\<close>

definition localtime :: "int \<Rightarrow> tm" where
  "localtime timer =
     (let t = UnixTimeToTimeValue timer; days_since_1601 = t div 1000000 div SECS_PER_DAY;
          ost = TimeValueToStruct t
      in \<lparr>tm_sec = ot_sec ost, tm_min = ot_min ost, tm_hour = ot_hour ost, tm_mday = ot_day ost,
          tm_mon = ot_month ost - 1, tm_year = ot_year ost - 1900,
          tm_yday = cumulative_days (ot_month ost - 1) + ot_day ost - 1,
          tm_wday = (1 + days_since_1601) mod 7\<rparr>)"

text \<open>The result -1 with EOVERFLOW is \<open>Inl\<close>.  The 8-bit fields of the structure truncate.\<close>

definition mktime :: "tm \<Rightarrow> errno + int" where
  "mktime timeptr =
     (let ost = \<lparr>ot_sec = tm_sec timeptr mod 256, ot_min = tm_min timeptr mod 256,
                 ot_hour = tm_hour timeptr mod 256, ot_day = tm_mday timeptr mod 256,
                 ot_month = (tm_mon timeptr + 1) mod 256, ot_year = tm_year timeptr + 1900,
                 ot_microsec = 0\<rparr>
      in if ot_year ost < 1970 then Inl EOVERFLOW
         else Inr (TimeValueToUnixTime (TimeStructToValue ost)))"

subsection \<open>The calendar\<close>

definition year_length :: "int \<Rightarrow> int" where
  "year_length y = (if IsLeapYear y then 366 else 365)"

text \<open>Days before a month of a year, and the length of a month.\<close>

definition days_before :: "int \<Rightarrow> int \<Rightarrow> int" where
  "days_before y m = cumulative_days (m - 1) + (if IsLeapYear y \<and> m \<ge> 3 then 1 else 0)"

definition month_length :: "int \<Rightarrow> int \<Rightarrow> int" where
  "month_length y m = (if m = 2 then if IsLeapYear y then 29 else 28
                       else if m \<in> {4, 6, 9, 11} then 30 else 31)"

text \<open>A proper date and time of day, in the years the conversion supports.\<close>

definition valid_time :: "ostime \<Rightarrow> bool" where
  "valid_time t \<longleftrightarrow> 0 \<le> ot_sec t \<and> ot_sec t < 60 \<and> 0 \<le> ot_min t \<and> ot_min t < 60 \<and>
     0 \<le> ot_hour t \<and> ot_hour t < 24 \<and> 1601 \<le> ot_year t \<and> ot_year t \<le> 2400 \<and>
     1 \<le> ot_month t \<and> ot_month t \<le> 12 \<and> 1 \<le> ot_day t \<and>
     ot_day t \<le> month_length (ot_year t) (ot_month t) \<and> 0 \<le> ot_microsec t \<and> ot_microsec t < 1000000"

lemma leap_loop_add: "leap_loop year i leaps = leaps + leap_loop year i 0"
proof (induction "nat (year - i)" arbitrary: i leaps rule: less_induct)
  case less
  show ?case
  proof (cases "i < year")
    case True
    then have IH: "leap_loop year (i + 4) l = l + leap_loop year (i + 4) 0" for l by (intro less) simp
    show ?thesis using True by (subst (1 2) leap_loop.simps) (simp add: IH [of "leaps + 1"] IH [of leaps] IH [of 1])
  qed (simp add: leap_loop.simps)
qed

lemma leap_loop_Suc:
  assumes "i mod 4 = 0"
  shows "leap_loop (year + 1) i 0 = leap_loop year i 0 + (if i \<le> year \<and> IsLeapYear year then 1 else 0)"
  using assms
proof (induction "nat (year - i)" arbitrary: i rule: less_induct)
  case less
  consider "i < year" | "i = year" | "year < i" by linarith
  then show ?case
  proof cases
    case 1
    then have IH: "leap_loop (year + 1) (i + 4) 0 =
        leap_loop year (i + 4) 0 + (if i + 4 \<le> year \<and> IsLeapYear year then 1 else 0)"
      using less by (intro less.hyps) auto
    have "i + 4 \<le> year" if "year mod 4 = 0" using that 1 less.prems by presburger
    then have "i + 4 \<le> year" if "IsLeapYear year" using that by (simp add: IsLeapYear_def)
    with 1 IH show ?thesis
      by (subst (1 2) leap_loop.simps)
         (auto simp: leap_loop_add [of _ _ 1])
  qed (simp_all add: leap_loop.simps)
qed

text \<open>Days from 1601 to the start of a year, as the code counts them.\<close>

definition year_days :: "int \<Rightarrow> int" where
  "year_days y = 365 * (y - 1601) + GetFullLeapYearsSince1601 y"

lemma year_days_1601: "year_days 1601 = 0"
  by (simp add: year_days_def GetFullLeapYearsSince1601_def leap_loop.simps)

lemma year_days_Suc:
  assumes "1601 \<le> y"
  shows "year_days (y + 1) = year_days y + year_length y"
proof -
  have "1604 \<le> y" if "y mod 4 = 0" using that assms by presburger
  then have "1604 \<le> y" if "IsLeapYear y" using that by (simp add: IsLeapYear_def)
  then show ?thesis
    using leap_loop_Suc [of 1604 y]
    by (auto simp: year_days_def GetFullLeapYearsSince1601_def year_length_def)
qed

lemma year_days_mono:
  assumes "1601 \<le> y" "y \<le> z"
  shows "year_days y \<le> year_days z"
  using assms(2,1)
proof (induction z rule: int_ge_induct)
  case (step z)
  then show ?case using year_days_Suc [of z] by (simp add: year_length_def split: if_splits)
qed simp

lemma month_cases: "1 \<le> m \<Longrightarrow> m \<le> 12 \<Longrightarrow> m = 1 \<or> m = 2 \<or> m = 3 \<or> m = 4 \<or> m = 5 \<or> m = 6 \<or>
    m = 7 \<or> m = 8 \<or> m = 9 \<or> m = 10 \<or> m = 11 \<or> m = (12 :: int)"
  by presburger

lemma month_loop_finds:
  assumes "1 \<le> m" "m \<le> 12" "0 \<le> k" "k < month_length y m"
  shows "month_loop y (days_before y m + k) 1 = (m, k)"
  using month_cases [OF assms(1,2)] assms(3,4)
  by (elim disjE; cases "IsLeapYear y";
      simp add: month_loop.simps days_before_def month_length_def cumulative_days_in_months_def)

lemma month_loop_past: "year_length y \<le> d \<Longrightarrow> month_loop y d 1 = (13, d)"
  by (cases "IsLeapYear y")
     (simp_all add: month_loop.simps year_length_def cumulative_days_in_months_def)

lemma days_before_bound:
  assumes "1 \<le> m" "m \<le> 12" "0 \<le> k" "k < month_length y m"
  shows "0 \<le> days_before y m + k" "days_before y m + k < year_length y"
  using month_cases [OF assms(1,2)] assms(3,4)
  by (elim disjE; cases "IsLeapYear y";
      simp add: year_length_def days_before_def month_length_def cumulative_days_in_months_def)+

lemma year_loop_finds:
  assumes "1601 \<le> y" "y \<le> z" "z \<le> 2400" "1 \<le> m" "m \<le> 12" "0 \<le> k" "k < month_length z m"
  shows "year_loop y m0 (year_days z - year_days y + days_before z m + k) = (z, m, k)"
  using assms
proof (induction "nat (z - y)" arbitrary: y m0 rule: less_induct)
  case less
  note b = days_before_bound [OF less.prems(4-7)]
  show ?case
  proof (cases "y = z")
    case True
    with month_loop_finds [OF less.prems(4-7)] less.prems show ?thesis by (subst year_loop.simps) simp
  next
    case False
    with less.prems have y: "y < z" "y + 1 \<le> z" "1601 \<le> y + 1" by simp_all
    then have "year_days y + year_length y \<le> year_days z"
      using year_days_mono [of "y + 1" z] year_days_Suc [OF less.prems(1)] by simp
    with b(1) have "month_loop y (year_days z - year_days y + days_before z m + k) 1 =
        (13, year_days z - year_days y + days_before z m + k)" by (intro month_loop_past) simp
    then have "year_loop y m0 (year_days z - year_days y + days_before z m + k) =
        year_loop (y + 1) 13 (year_days z - year_days (y + 1) + days_before z m + k)"
      using less.prems(1-3) y(1) year_days_Suc [OF less.prems(1)]
      by (subst year_loop.simps) (simp add: year_length_def algebra_simps)
    also have "\<dots> = (z, m, k)" using less.prems y by (intro less.hyps) auto
    finally show ?thesis .
  qed
qed

subsection \<open>Dates and values\<close>

definition day_number :: "ostime \<Rightarrow> int" where
  "day_number t = year_days (ot_year t) + days_before (ot_year t) (ot_month t) + (ot_day t - 1)"

lemma month_length_le: "month_length y m \<le> 31"
  by (simp add: month_length_def)

lemma TimeStructToValue_eq:
  assumes "1601 \<le> ot_year t" "ot_year t \<le> 2400" "1 \<le> ot_month t" "ot_month t \<le> 12" "1 \<le> ot_day t" "ot_day t \<le> 31"
  shows "TimeStructToValue t =
    ((ot_sec t + 60 * (ot_min t + 60 * (ot_hour t + 24 * day_number t))) * 1000000 + ot_microsec t)"
  using assms by (auto simp: TimeStructToValue_def day_number_def year_days_def days_before_def Let_def algebra_simps)

lemma div_mod_unique: "0 \<le> r \<Longrightarrow> r < n \<Longrightarrow> (r + n * q) div n = q \<and> (r + n * q) mod n = (r :: int)"
  by simp

lemma split_time:
  fixes d h mi sec us :: int
  assumes "0 \<le> sec" "sec < 60" "0 \<le> mi" "mi < 60" "0 \<le> h" "h < 24" "0 \<le> us" "us < 1000000"
    and v: "v = (sec + 60 * (mi + 60 * (h + 24 * d))) * 1000000 + us"
  shows "v mod 1000000 = us" "v div 1000000 mod 60 = sec" "v div 1000000 div 60 mod 60 = mi"
    "v div 1000000 div 3600 mod 24 = h" "v div 1000000 div 86400 = d"
proof -
  define r where "r = h + 24 * d"
  define q where "q = mi + 60 * r"
  define p where "p = sec + 60 * q"
  note defs = p_def q_def r_def
  have v': "v = us + 1000000 * p" by (simp add: v defs)
  have 1: "v div 1000000 = p" "v mod 1000000 = us"
    using div_mod_unique [OF assms(7,8), of p] unfolding v' by blast+
  have 2: "p div 60 = q" "p mod 60 = sec" "q div 60 = r" "q mod 60 = mi" "r div 24 = d" "r mod 24 = h"
    using div_mod_unique [OF assms(1,2), of q] div_mod_unique [OF assms(3,4), of r]
      div_mod_unique [OF assms(5,6), of d] unfolding defs by blast+
  have "p div 3600 = r" using zdiv_zmult2_eq [of 60 p 60] by (simp add: 2)
  moreover from this have "p div 86400 = d" using zdiv_zmult2_eq [of 24 p 3600] by (simp add: 2)
  ultimately show "v mod 1000000 = us" "v div 1000000 mod 60 = sec" "v div 1000000 div 60 mod 60 = mi"
    "v div 1000000 div 3600 mod 24 = h" "v div 1000000 div 86400 = d"
    by (simp_all only: 1 2)
qed

lemma TimeValueToStruct_valid:
  assumes "valid_time t"
  shows "TimeValueToStruct (TimeStructToValue t) = t"
proof -
  let ?v = "TimeStructToValue t"
  have b: "1601 \<le> ot_year t" "ot_year t \<le> 2400" "1 \<le> ot_month t" "ot_month t \<le> 12" "0 \<le> ot_day t - 1"
    "ot_day t - 1 < month_length (ot_year t) (ot_month t)" "ot_day t \<le> 31"
    using assms month_length_le [of "ot_year t" "ot_month t"] by (auto simp: valid_time_def)
  have v: "?v = (ot_sec t + 60 * (ot_min t + 60 * (ot_hour t + 24 * day_number t))) * 1000000 + ot_microsec t"
    using b by (intro TimeStructToValue_eq) auto
  have "0 \<le> ot_sec t" "ot_sec t < 60" "0 \<le> ot_min t" "ot_min t < 60" "0 \<le> ot_hour t" "ot_hour t < 24"
    "0 \<le> ot_microsec t" "ot_microsec t < 1000000" using assms by (auto simp: valid_time_def)
  note sp = split_time [OF this v]
  have yl: "year_loop 1601 0 (day_number t) = (ot_year t, ot_month t, ot_day t - 1)"
    using year_loop_finds [of 1601 "ot_year t" "ot_month t" "ot_day t - 1" 0] b
    by (simp add: year_days_1601 day_number_def)
  have "(ot_day t - 1 + 1) mod 256 = ot_day t" using b(5,7) by simp
  then show ?thesis
    by (simp only: TimeValueToStruct_def Let_def sp yl prod.case) simp
qed

text \<open>Every day number is that of a date.\<close>

lemma days_before_step:
  assumes "1 \<le> m" "m \<le> 12"
  shows "days_before y m + month_length y m = (if m = 12 then year_length y else days_before y (m + 1))"
  using month_cases [OF assms]
  by (elim disjE; simp add: days_before_def month_length_def year_length_def cumulative_days_in_months_def)

lemma day_in_year:
  assumes "0 \<le> r" "r < year_length y"
  shows "\<exists>m. 1 \<le> m \<and> m \<le> 12 \<and> days_before y m \<le> r \<and> r < days_before y m + month_length y m"
proof -
  have "r < days_before y n + month_length y n \<Longrightarrow>
      \<exists>m. 1 \<le> m \<and> m \<le> 12 \<and> days_before y m \<le> r \<and> r < days_before y m + month_length y m"
    if "1 \<le> n" "n \<le> 12" for n
    using that
  proof (induction n rule: int_ge_induct)
    case base
    with assms(1) show ?case by (intro exI [of _ 1]) (simp add: days_before_def cumulative_days_in_months_def)
  next
    case (step n)
    then show ?case
      using days_before_step [of n y] by (cases "days_before y (n + 1) \<le> r") (auto intro: exI [of _ "n + 1"])
  qed
  from this [of 12] assms(2) days_before_step [of 12 y] show ?thesis by simp
qed

lemma day_in_calendar:
  assumes "0 \<le> d" "d < year_days 2401"
  shows "\<exists>y. 1601 \<le> y \<and> y \<le> 2400 \<and> year_days y \<le> d \<and> d < year_days y + year_length y"
proof -
  have "d < year_days z \<Longrightarrow> \<exists>y. 1601 \<le> y \<and> y < z \<and> year_days y \<le> d \<and> d < year_days y + year_length y"
    if "1601 \<le> z" for z
    using that
  proof (induction z rule: int_ge_induct)
    case base
    with assms(1) show ?case by (simp add: year_days_1601)
  next
    case (step z)
    show ?case
    proof (cases "d < year_days z")
      case True
      with step.IH show ?thesis by force
    next
      case False
      with step year_days_Suc [of z] show ?thesis by (intro exI [of _ z]) simp
    qed
  qed
  from this [of 2401] assms(2) show ?thesis by force
qed

text \<open>The last representable moment: the end of the year 2400.\<close>

definition max_value :: int where
  "max_value = year_days 2401 * 86400 * 1000000"

lemma year_days_le: "1601 \<le> y \<Longrightarrow> year_days y \<le> 366 * (y - 1601)"
proof (induction y rule: int_ge_induct)
  case (step y)
  then show ?case using year_days_Suc [of y] by (simp add: year_length_def split: if_splits)
qed (simp add: year_days_1601)

lemma day_number_bounds:
  assumes "1601 \<le> ot_year t" "ot_year t \<le> 2400" "1 \<le> ot_month t" "ot_month t \<le> 12" "1 \<le> ot_day t" "ot_day t \<le> 31"
  shows "0 \<le> day_number t" "day_number t \<le> 293200"
proof -
  have "0 \<le> days_before (ot_year t) (ot_month t)" "days_before (ot_year t) (ot_month t) \<le> 335"
    using month_cases [OF assms(3,4)] by (auto simp: days_before_def cumulative_days_in_months_def)
  then show "0 \<le> day_number t" "day_number t \<le> 293200"
    using assms year_days_mono [of 1601 "ot_year t"] year_days_le [of "ot_year t"]
    by (simp_all add: day_number_def year_days_1601)
qed

lemma zdiv_less_mult:
  assumes "0 < n" "a < b * n"
  shows "a div n < (b :: int)"
proof -
  have "a div n * n \<le> a" using div_mult_mod_eq [of a n] pos_mod_sign [OF assms(1), of a] by linarith
  with assms(2) have "a div n * n < b * n" by linarith
  with assms(1) show ?thesis by (simp only: mult_less_cancel_right_pos)
qed

lemma value_has_date:
  assumes "0 \<le> v" "v < max_value"
  obtains t where "valid_time t" "TimeStructToValue t = v"
proof -
  define s where "s = v div 1000000"
  define d where "d = s div 86400"
  define r where "r = s mod 86400"
  have s: "0 \<le> s" "s < year_days 2401 * 86400"
    using assms by (simp_all add: s_def max_value_def pos_imp_zdiv_nonneg_iff zdiv_less_mult)
  have d: "0 \<le> d" "d < year_days 2401" using s by (simp_all add: d_def pos_imp_zdiv_nonneg_iff zdiv_less_mult)
  obtain y where y: "1601 \<le> y" "y \<le> 2400" "year_days y \<le> d" "d < year_days y + year_length y"
    using day_in_calendar [OF d] by blast
  obtain m where m: "1 \<le> m" "m \<le> 12" "days_before y m \<le> d - year_days y"
    "d - year_days y < days_before y m + month_length y m"
    using day_in_year [of "d - year_days y" y] y(3,4) by auto
  let ?t = "\<lparr>ot_sec = r mod 60, ot_min = r div 60 mod 60, ot_hour = r div 3600,
      ot_day = d - year_days y - days_before y m + 1, ot_month = m, ot_year = y, ot_microsec = v mod 1000000\<rparr>"
  have r: "0 \<le> r" "r < 86400" by (simp_all add: r_def)
  then have h: "0 \<le> r div 3600" "r div 3600 < 24" by (simp_all add: pos_imp_zdiv_nonneg_iff zdiv_less_mult)
  have valid: "valid_time ?t" using y m h by (simp add: valid_time_def)
  have "r = r mod 60 + 60 * (r div 60 mod 60 + 60 * (r div 60 div 60))" by simp
  moreover have "r div 60 div 60 = r div 3600" using zdiv_zmult2_eq [of 60 r 60] by simp
  moreover have "s = r + 86400 * d" by (simp add: r_def d_def)
  moreover have "v = s * 1000000 + v mod 1000000" by (simp add: s_def)
  moreover have "TimeStructToValue ?t =
      (r mod 60 + 60 * (r div 60 mod 60 + 60 * (r div 3600 + 24 * d))) * 1000000 + v mod 1000000"
    using y m month_length_le [of y m] by (subst TimeStructToValue_eq) (simp_all add: day_number_def)
  ultimately have "TimeStructToValue ?t = v" by (simp add: algebra_simps)
  with valid that show thesis by blast
qed

lemma TimeStructToValue_bounds:
  assumes "0 \<le> ot_sec t" "ot_sec t < 256" "0 \<le> ot_min t" "ot_min t < 256" "0 \<le> ot_hour t" "ot_hour t < 256"
    "0 \<le> ot_microsec t" "ot_microsec t < 2 ^ 31"
  shows "0 \<le> TimeStructToValue t \<and> TimeStructToValue t < 2 ^ 63"
proof (cases "1601 \<le> ot_year t \<and> ot_year t \<le> 2400 \<and> 1 \<le> ot_month t \<and> ot_month t \<le> 12 \<and> 1 \<le> ot_day t \<and> ot_day t \<le> 31")
  case True
  then have "TimeStructToValue t =
      (ot_sec t + 60 * (ot_min t + 60 * (ot_hour t + 24 * day_number t))) * 1000000 + ot_microsec t"
    by (intro TimeStructToValue_eq) auto
  moreover have "0 \<le> day_number t" "day_number t \<le> 293200" using day_number_bounds [of t] True by auto
  ultimately show ?thesis using assms by simp
qed (auto simp: TimeStructToValue_def)

lemma year_days_1970: "year_days 1970 = 134774"
  by (simp add: year_days_def GetFullLeapYearsSince1601_def leap_loop.simps IsLeapYear_def)

lemma max_value_bound: "max_value < 2 ^ 63"
  using year_days_le [of 2401] by (simp add: max_value_def)

lemma TimeStructToValue_inverse: "0 \<le> v \<Longrightarrow> v < max_value \<Longrightarrow>
    TimeStructToValue (TimeValueToStruct v) = v \<and> valid_time (TimeValueToStruct v)"
  by (metis value_has_date TimeValueToStruct_valid)

lemma year_from_1970:
  assumes "valid_time t" "134774 * 86400 * 1000000 \<le> TimeStructToValue t"
  shows "1970 \<le> ot_year t"
proof (rule ccontr)
  assume "\<not> 1970 \<le> ot_year t"
  then have y: "ot_year t + 1 \<le> 1970" by simp
  have b: "1601 \<le> ot_year t" "ot_year t \<le> 2400" "1 \<le> ot_month t" "ot_month t \<le> 12" "0 \<le> ot_day t - 1"
    "ot_day t - 1 < month_length (ot_year t) (ot_month t)" "ot_day t \<le> 31"
    using assms(1) month_length_le [of "ot_year t" "ot_month t"] by (auto simp: valid_time_def)
  have "day_number t < year_days (ot_year t + 1)"
    using days_before_bound(2) [OF b(3-6)] year_days_Suc [OF b(1)] by (simp add: day_number_def)
  also have "\<dots> \<le> 134774" using year_days_mono [of "ot_year t + 1" 1970] b(1) y year_days_1970 by simp
  finally have "day_number t \<le> 134773" by simp
  moreover have "TimeStructToValue t =
      (ot_sec t + 60 * (ot_min t + 60 * (ot_hour t + 24 * day_number t))) * 1000000 + ot_microsec t"
    using b by (intro TimeStructToValue_eq) auto
  ultimately show False using assms by (simp add: valid_time_def)
qed

text \<open>In a leap year the day of the year that \<^verbatim>\<open>localtime\<close> reports is one too low from March on.\<close>

lemma localtime_yday:
  assumes "UnixTimeToTimeValue u = TimeStructToValue t" "valid_time t"
  shows "tm_yday (localtime u) = days_before (ot_year t) (ot_month t) + (ot_day t - 1)
           - (if IsLeapYear (ot_year t) \<and> 3 \<le> ot_month t then 1 else 0)"
  using TimeValueToStruct_valid [OF assms(2)] by (simp add: localtime_def assms(1) days_before_def Let_def)

subsection \<open>Properties\<close>

text \<open>C23.  The two conversions are inverse to each other: every proper date and time of day from
  1601 to 2400 survives the way to a time value and back, and every time value up to the end of
  2400 is turned into a proper date whose value it is.\<close>

theorem time_roundtrip:
  shows "(valid_time t \<longrightarrow> TimeValueToStruct (TimeStructToValue t) = t) \<and>
    (0 \<le> v \<and> v < max_value \<longrightarrow>
       valid_time (TimeValueToStruct v) \<and> TimeStructToValue (TimeValueToStruct v) = v)"
  using TimeValueToStruct_valid TimeStructToValue_inverse by blast

theorem time_roundtrip_witness:
  "TimeValueToStruct (TimeStructToValue
     \<lparr>ot_sec = 1, ot_min = 2, ot_hour = 3, ot_day = 29, ot_month = 2, ot_year = 2024, ot_microsec = 5\<rparr>) =
     \<lparr>ot_sec = 1, ot_min = 2, ot_hour = 3, ot_day = 29, ot_month = 2, ot_year = 2024, ot_microsec = 5\<rparr>"
  using time_roundtrip [of "\<lparr>ot_sec = 1, ot_min = 2, ot_hour = 3, ot_day = 29, ot_month = 2, ot_year = 2024,
    ot_microsec = 5\<rparr>"] by (simp add: valid_time_def month_length_def IsLeapYear_def)

text \<open>The library's calendar functions agree: breaking a Unix time down with localtime and
  putting it together again with mktime returns it, for every time from 1970 to the end of 2400.\<close>

lemma mktime_localtime:
  assumes "0 \<le> u" "(u + SECS_BETWEEN_1970_AND_1601) * 1000000 < max_value"
  shows "mktime (localtime u) = Inr u"
proof -
  let ?v = "(u + SECS_BETWEEN_1970_AND_1601) * 1000000" and ?t = "TimeValueToStruct (UnixTimeToTimeValue u)"
  have v: "UnixTimeToTimeValue u = ?v" using assms max_value_bound by (simp add: UnixTimeToTimeValue_def)
  then have t: "valid_time ?t" "TimeStructToValue ?t = ?v" using TimeStructToValue_inverse [of ?v] assms by auto
  have "1970 \<le> ot_year ?t" using year_from_1970 [OF t(1)] t(2) assms(1) by simp
  moreover have "ot_day ?t \<le> 31" using t(1) month_length_le [of "ot_year ?t" "ot_month ?t"] by (simp add: valid_time_def)
  moreover have "ot_microsec ?t = 0" using v by (simp add: TimeValueToStruct_def Let_def split: prod.split)
  moreover from this have eq: "\<lparr>ot_sec = ot_sec ?t, ot_min = ot_min ?t, ot_hour = ot_hour ?t, ot_day = ot_day ?t,
      ot_month = ot_month ?t, ot_year = ot_year ?t, ot_microsec = 0\<rparr> = ?t" by (intro ostime.equality) simp_all
  ultimately have "mktime (localtime u) = Inr (TimeValueToUnixTime (TimeStructToValue ?t))"
    using t(1) by (simp add: mktime_def localtime_def Let_def valid_time_def) (simp only: eq)
  also have "TimeValueToUnixTime (TimeStructToValue ?t) = u"
    using assms max_value_bound by (simp add: t(2) TimeValueToUnixTime_def)
  finally show ?thesis .
qed

lemma mktime_localtime_witness: "mktime (localtime 1700000000) = Inr 1700000000"
proof -
  have "year_days 1970 \<le> year_days 2401 \<and> year_days 2401 \<ge> 160000"
    using year_days_mono [of 1970 2401] year_days_1970
    by (simp add: year_days_def GetFullLeapYearsSince1601_def leap_loop.simps IsLeapYear_def)
  then have "(1700000000 + SECS_BETWEEN_1970_AND_1601) * 1000000 < max_value" by (simp add: max_value_def)
  then show ?thesis by (intro mktime_localtime) simp_all
qed

end
