(* ===== verification/LibcSort.thy ===== *)
theory LibcSort
  imports Prelude
begin

text \<open>
  Sorting and searching: libc/common/stdlib/search_sort.c.  An array is the list of its elements
  of \<^verbatim>\<open>size\<close> bytes each; sizes and indices are natural numbers below \<open>2 ^ 32\<close>, with the
  wrap-around of \<^verbatim>\<open>size_t\<close> written out where the code can meet it.  \<open>None\<close> is an access
  outside the array, for which the C program has no defined behaviour.
\<close>

subsection \<open>Sorting\<close>

text \<open>The three loops of \<^verbatim>\<open>Merge\<close>, over what is left of the two temporary copies.\<close>

fun merge_loop :: "('a \<Rightarrow> 'a \<Rightarrow> int) \<Rightarrow> 'a list \<Rightarrow> 'a list \<Rightarrow> 'a list \<Rightarrow> nat \<Rightarrow> 'a list" where
  "merge_loop compar (x # xs) (y # ys) arr out_index =
     (if compar x y \<le> 0 then merge_loop compar xs (y # ys) (arr[out_index := x]) (out_index + 1)
      else merge_loop compar (x # xs) ys (arr[out_index := y]) (out_index + 1))"
| "merge_loop compar (x # xs) [] arr out_index = merge_loop compar xs [] (arr[out_index := x]) (out_index + 1)"
| "merge_loop compar [] (y # ys) arr out_index = merge_loop compar [] ys (arr[out_index := y]) (out_index + 1)"
| "merge_loop compar [] [] arr out_index = arr"

definition Merge :: "('a \<Rightarrow> 'a \<Rightarrow> int) \<Rightarrow> 'a list \<Rightarrow> nat \<Rightarrow> nat \<Rightarrow> nat \<Rightarrow> 'a list option" where
  "Merge compar arr low mid high =
     (let count_1 = mid - low + 1; count_2 = high - mid in
      if length arr \<le> high then None
      else Some (merge_loop compar (take count_1 (drop low arr)) (take count_2 (drop (mid + 1) arr)) arr low))"

function MergeSort :: "('a \<Rightarrow> 'a \<Rightarrow> int) \<Rightarrow> 'a list \<Rightarrow> nat \<Rightarrow> nat \<Rightarrow> 'a list option" where
  "MergeSort compar arr low high =
     (if low < high
      then let mid = low + (high - low) div 2 in
           case MergeSort compar arr low mid of
             None \<Rightarrow> None
           | Some arr \<Rightarrow> (case MergeSort compar arr (mid + 1) high of
                            None \<Rightarrow> None
                          | Some arr \<Rightarrow> Merge compar arr low mid high)
      else Some arr)"
  by pat_completeness auto
termination
  by (relation "measure (\<lambda>(compar, arr, low, high). high - low)") auto

declare MergeSort.simps [simp del]

definition wrap32 :: "int \<Rightarrow> nat" where
  "wrap32 x = nat (x mod 2 ^ 32)"

definition qsort :: "'a list \<Rightarrow> nat \<Rightarrow> ('a \<Rightarrow> 'a \<Rightarrow> int) \<Rightarrow> 'a list option" where
  "qsort base nmemb compar = MergeSort compar base 0 (wrap32 (int nmemb - 1))"

subsection \<open>Searching\<close>

datatype search_result = Found nat | NotFound | OutOfBounds

partial_function (option) bsearch_loop ::
    "'k \<Rightarrow> 'a list \<Rightarrow> ('k \<Rightarrow> 'a \<Rightarrow> int) \<Rightarrow> nat \<Rightarrow> nat \<Rightarrow> search_result option" where
  "bsearch_loop key base compar low high =
     (if low \<le> high
      then let mid = low + (high - low) div 2 in
           if length base \<le> mid then Some OutOfBounds
           else let compare_result = compar key (base ! mid) in
                if compare_result = 0 then Some (Found mid)
                else if compare_result < 0 then bsearch_loop key base compar low (wrap32 (int mid - 1))
                else bsearch_loop key base compar (wrap32 (int mid + 1)) high
      else Some NotFound)"

definition bsearch :: "'k \<Rightarrow> 'a list \<Rightarrow> nat \<Rightarrow> ('k \<Rightarrow> 'a \<Rightarrow> int) \<Rightarrow> search_result option" where
  "bsearch key base nmemb compar = bsearch_loop key base compar 0 (wrap32 (int nmemb - 1))"

subsection \<open>Merging\<close>

text \<open>What a comparison function must satisfy.\<close>

definition total_preorder :: "('a \<Rightarrow> 'a \<Rightarrow> int) \<Rightarrow> bool" where
  "total_preorder compar \<longleftrightarrow>
     (\<forall>x y. compar x y \<le> 0 \<or> compar y x \<le> 0) \<and>
     (\<forall>x y z. compar x y \<le> 0 \<and> compar y z \<le> 0 \<longrightarrow> compar x z \<le> 0)"

abbreviation (input) ordered :: "('a \<Rightarrow> 'a \<Rightarrow> int) \<Rightarrow> 'a list \<Rightarrow> bool" where
  "ordered compar \<equiv> sorted_wrt (\<lambda>x y. compar x y \<le> 0)"

lemma total_preorderD:
  assumes "total_preorder compar"
  shows "\<not> compar x y \<le> 0 \<Longrightarrow> compar y x \<le> 0" "compar x x \<le> 0"
    "compar x y \<le> 0 \<Longrightarrow> compar y z \<le> 0 \<Longrightarrow> compar x z \<le> 0"
  using assms unfolding total_preorder_def by blast+

text \<open>The merge of two lists that the loops write.\<close>

fun merged :: "('a \<Rightarrow> 'a \<Rightarrow> int) \<Rightarrow> 'a list \<Rightarrow> 'a list \<Rightarrow> 'a list" where
  "merged compar (x # xs) (y # ys) =
     (if compar x y \<le> 0 then x # merged compar xs (y # ys) else y # merged compar (x # xs) ys)"
| "merged compar (x # xs) [] = x # xs"
| "merged compar [] ys = ys"

lemma mset_merged [simp]: "mset (merged compar xs ys) = mset xs + mset ys"
  by (induction compar xs ys rule: merged.induct) auto

lemma length_merged [simp]: "length (merged compar xs ys) = length xs + length ys"
  by (induction compar xs ys rule: merged.induct) auto

lemma set_merged [simp]: "set (merged compar xs ys) = set xs \<union> set ys"
  by (induction compar xs ys rule: merged.induct) auto

lemma merged_Nil2 [simp]: "merged compar xs [] = xs"
  by (cases xs) auto

lemma ordered_merged:
  "total_preorder compar \<Longrightarrow> ordered compar xs \<Longrightarrow> ordered compar ys \<Longrightarrow> ordered compar (merged compar xs ys)"
proof (induction compar xs ys rule: merged.induct)
  case (1 compar x xs y ys)
  note t = total_preorderD [OF "1.prems"(1)]
  show ?case
  proof (cases "compar x y \<le> 0")
    case True
    then have "\<forall>z\<in>set ys. compar x z \<le> 0" using "1.prems"(3) t(3) [OF True] by simp
    with True "1.IH"(1) [OF True] "1.prems" show ?thesis by auto
  next
    case False
    note yx = t(1) [OF False]
    then have "\<forall>z\<in>set xs. compar y z \<le> 0" using "1.prems"(2) t(3) [OF yx] by simp
    with False yx "1.IH"(2) [OF False] "1.prems" show ?thesis by auto
  qed
qed auto

text \<open>Elements that compare equal to a given one keep their order.\<close>

definition equivalent :: "('a \<Rightarrow> 'a \<Rightarrow> int) \<Rightarrow> 'a \<Rightarrow> 'a \<Rightarrow> bool" where
  "equivalent compar a x \<longleftrightarrow> compar a x \<le> 0 \<and> compar x a \<le> 0"

lemma filter_merged:
  "total_preorder compar \<Longrightarrow> ordered compar xs \<Longrightarrow>
   filter (equivalent compar a) (merged compar xs ys) =
   filter (equivalent compar a) xs @ filter (equivalent compar a) ys"
proof (induction compar xs ys rule: merged.induct)
  case (1 compar x xs y ys)
  note t = total_preorderD [OF "1.prems"(1)]
  show ?case
  proof (cases "compar x y \<le> 0")
    case True
    with "1.IH"(1) [OF True] "1.prems" show ?thesis by auto
  next
    case False
    have none: "filter (equivalent compar a) (x # xs) = []" if "equivalent compar a y"
    proof -
      have "\<not> equivalent compar a z" if "z \<in> set (x # xs)" for z
      proof
        assume "equivalent compar a z"
        then have "compar z y \<le> 0"
          using t(3) [of z a y] \<open>equivalent compar a y\<close> by (simp add: equivalent_def)
        moreover have "compar x z \<le> 0" using "1.prems"(2) that t(2) [of x] by auto
        ultimately have "compar x y \<le> 0" by (rule t(3) [rotated])
        with False show False by simp
      qed
      then show ?thesis by (auto simp: filter_empty_conv)
    qed
    show ?thesis
    proof (cases "equivalent compar a y")
      case True
      with none have n: "\<not> equivalent compar a x" "filter (equivalent compar a) xs = []"
        by (auto split: if_splits)
      with True "1.IH"(2) [OF False] "1.prems" False show ?thesis by simp
    next
      case no: False
      with "1.IH"(2) [OF False] "1.prems" False show ?thesis by simp
    qed
  qed
qed auto

lemma merge_loop_merged:
  assumes "k + length xs + length ys \<le> length arr"
  shows "merge_loop compar xs ys arr k =
    take k arr @ merged compar xs ys @ drop (k + length xs + length ys) arr"
  using assms
proof (induction compar xs ys arr k rule: merge_loop.induct)
  case (1 compar x xs y ys arr k)
  then show ?case by (auto simp: take_Suc_conv_app_nth)
qed (auto simp: take_Suc_conv_app_nth)

subsection \<open>Merge sort\<close>

definition segment :: "'a list \<Rightarrow> nat \<Rightarrow> nat \<Rightarrow> 'a list" where
  "segment arr low high = take (Suc high - low) (drop low arr)"

text \<open>An array whose segment has been sorted in place, stably.\<close>

definition sorts :: "('a \<Rightarrow> 'a \<Rightarrow> int) \<Rightarrow> 'a list \<Rightarrow> 'a list \<Rightarrow> bool" where
  "sorts compar xs ys \<longleftrightarrow> ordered compar ys \<and> mset ys = mset xs \<and>
     (\<forall>a. filter (equivalent compar a) ys = filter (equivalent compar a) xs)"

lemma sorts_length: "sorts compar xs ys \<Longrightarrow> length ys = length xs"
  unfolding sorts_def by (metis size_mset)

lemma sorts_merged:
  assumes "total_preorder compar" "sorts compar xs1 ys1" "sorts compar xs2 ys2"
  shows "sorts compar (xs1 @ xs2) (merged compar ys1 ys2)"
  using assms ordered_merged [of compar ys1 ys2] filter_merged [of compar ys1 _ ys2] by (simp add: sorts_def)

lemma length_segment: "low \<le> high \<Longrightarrow> high < length arr \<Longrightarrow> length (segment arr low high) = Suc high - low"
  by (simp add: segment_def)

lemma segment_split:
  assumes "low \<le> mid" "mid < high" "high < length arr"
  shows "segment arr low high = segment arr low mid @ segment arr (Suc mid) high"
proof -
  have "Suc high - low = (Suc mid - low) + (high - mid)" using assms by simp
  then have "take (Suc high - low) (drop low arr) =
      take (Suc mid - low) (drop low arr) @ take (high - mid) (drop (Suc mid - low) (drop low arr))"
    by (simp only: take_add)
  with assms show ?thesis by (simp add: segment_def)
qed

lemma Merge_sorts:
  assumes "total_preorder compar" "low \<le> mid" "mid < high" "high < length arr"
    "sorts compar (segment arr low mid) s1" "sorts compar (segment arr (Suc mid) high) s2"
    "arr2 = take low arr @ s1 @ s2 @ drop (Suc high) arr"
  obtains s where "Merge compar arr2 low mid high = Some (take low arr @ s @ drop (Suc high) arr)"
    "sorts compar (segment arr low high) s"
proof -
  have len: "length s1 = Suc mid - low" "length s2 = high - mid"
    using sorts_length [OF assms(5)] sorts_length [OF assms(6)] assms(2-4) by (simp_all add: length_segment)
  have low: "length (take low arr) = low" using assms(2-4) by simp
  have len2: "length arr2 = length arr" using assms(2-4,7) len by simp
  have parts: "take (mid - low + 1) (drop low arr2) = s1" "take (high - mid) (drop (mid + 1) arr2) = s2"
    "take low arr2 = take low arr" "drop (low + length s1 + length s2) arr2 = drop (Suc high) arr"
    using assms(2-4) len low by (simp_all add: assms(7))
  have "Merge compar arr2 low mid high = Some (take low arr @ merged compar s1 s2 @ drop (Suc high) arr)"
    using merge_loop_merged [of low s1 s2 arr2 compar] assms(2-4) len len2 parts
    by (simp add: Merge_def Let_def)
  with that sorts_merged [OF assms(1,5,6)] segment_split [OF assms(2-4)] show thesis by simp
qed

lemma MergeSort_sorts:
  assumes "total_preorder compar" "low \<le> high" "high < length arr"
  shows "\<exists>s. MergeSort compar arr low high = Some (take low arr @ s @ drop (Suc high) arr) \<and>
             sorts compar (segment arr low high) s"
  using assms
proof (induction "high - low" arbitrary: arr low high rule: less_induct)
  case less
  show ?case
  proof (cases "low < high")
    case False
    with less.prems have eq: "low = high" by simp
    have "take low arr @ segment arr low low @ drop (Suc low) arr = arr"
      using less.prems eq by (simp add: segment_def id_take_nth_drop [symmetric] take_Suc_conv_app_nth
          Cons_nth_drop_Suc [symmetric])
    moreover have "MergeSort compar arr low high = Some arr" using False by (subst MergeSort.simps) simp
    moreover have "length (segment arr low low) = 1" using less.prems eq by (simp add: length_segment)
    then obtain x where "segment arr low low = [x]" by (cases "segment arr low low") auto
    ultimately show ?thesis
      using eq by (intro exI [of _ "segment arr low low"]) (simp add: sorts_def)
  next
    case True
    define mid where "mid = low + (high - low) div 2"
    have mid: "low \<le> mid" "mid < high" "mid < length arr" "mid - low < high - low" "high - Suc mid < high - low"
      using True less.prems by (auto simp: mid_def)
    obtain s1 where s1: "MergeSort compar arr low mid = Some (take low arr @ s1 @ drop (Suc mid) arr)"
      "sorts compar (segment arr low mid) s1"
      using less.hyps [OF mid(4) less.prems(1) mid(1,3)] by blast
    define arr1 where "arr1 = take low arr @ s1 @ drop (Suc mid) arr"
    have l1: "length s1 = Suc mid - low" using sorts_length [OF s1(2)] mid by (simp add: length_segment)
    have a1: "length arr1 = length arr" "take (Suc mid) arr1 = take low arr @ s1"
      "drop (Suc mid) arr1 = drop (Suc mid) arr"
      using mid less.prems l1 by (auto simp: arr1_def)
    then have seg: "segment arr1 (Suc mid) high = segment arr (Suc mid) high" "drop (Suc high) arr1 = drop (Suc high) arr"
      using mid(2) drop_drop [of "high - mid" "Suc mid" arr1] drop_drop [of "high - mid" "Suc mid" arr]
      by (simp_all add: segment_def)
    obtain s2 where s2: "MergeSort compar arr1 (Suc mid) high = Some (take (Suc mid) arr1 @ s2 @ drop (Suc high) arr1)"
      "sorts compar (segment arr (Suc mid) high) s2"
      using less.hyps [OF mid(5) less.prems(1), of arr1] mid(2) less.prems(3) a1(1) seg by auto
    obtain s where s: "Merge compar (take low arr @ s1 @ s2 @ drop (Suc high) arr) low mid high =
        Some (take low arr @ s @ drop (Suc high) arr)" "sorts compar (segment arr low high) s"
      using Merge_sorts [OF less.prems(1) mid(1,2) less.prems(3) s1(2) s2(2) refl] by blast
    have "MergeSort compar arr low high = Merge compar (take low arr @ s1 @ s2 @ drop (Suc high) arr) low mid high"
      using True s1(1) s2(1) a1 seg
      by (subst MergeSort.simps) (simp add: Let_def mid_def [symmetric] arr1_def [symmetric])
    with s show ?thesis by auto
  qed
qed

lemma MergeSort_outside:
  assumes "low < high" "length arr \<le> high"
  shows "MergeSort compar arr low high = None"
proof -
  have keep: "length arr' = length arr" if "MergeSort compar arr lo hi = Some arr'" for arr arr' :: "'a list" and lo hi
    using that
  proof (induction "hi - lo" arbitrary: arr arr' lo hi rule: less_induct)
    case less
    have ml: "length (merge_loop compar xs ys zs k) = length zs" for xs ys zs k
      by (induction compar xs ys zs k rule: merge_loop.induct) auto
    show ?case
    proof (cases "lo < hi")
      case True
      let ?mid = "lo + (hi - lo) div 2"
      from less.prems True obtain a b where ab: "MergeSort compar arr lo ?mid = Some a"
        "MergeSort compar a (?mid + 1) hi = Some b" "Merge compar b lo ?mid hi = Some arr'"
        by (subst (asm) MergeSort.simps) (auto simp: Let_def split: option.splits)
      have "length a = length arr" "length b = length a"
        using less.hyps [OF _ ab(1)] less.hyps [OF _ ab(2)] True by auto
      with ab(3) show ?thesis by (auto simp: Merge_def ml Let_def split: if_splits)
    next
      case False
      with less.prems show ?thesis by (subst (asm) MergeSort.simps) simp
    qed
  qed
  show ?thesis
  proof (rule ccontr)
    assume "MergeSort compar arr low high \<noteq> None"
    with assms(1) obtain a b arr' where ab: "MergeSort compar arr low (low + (high - low) div 2) = Some a"
      "MergeSort compar a (low + (high - low) div 2 + 1) high = Some b"
      "Merge compar b low (low + (high - low) div 2) high = Some arr'"
      by (subst (asm) MergeSort.simps) (auto simp: Let_def split: option.splits)
    with keep [OF ab(1)] keep [OF ab(2)] assms(2) show False by (simp add: Merge_def)
  qed
qed

subsection \<open>Binary search\<close>

text \<open>The comparisons of a key with the elements of an array are not increasing: the key is first
  above, then equal to, then below them.\<close>

definition searchable :: "'k \<Rightarrow> 'a list \<Rightarrow> ('k \<Rightarrow> 'a \<Rightarrow> int) \<Rightarrow> bool" where
  "searchable key base compar \<longleftrightarrow>
     (\<forall>i j. i < j \<and> j < length base \<longrightarrow>
        (compar key (base ! i) < 0 \<longrightarrow> compar key (base ! j) < 0) \<and>
        (compar key (base ! j) > 0 \<longrightarrow> compar key (base ! i) > 0))"

lemma searchableD:
  assumes "searchable key base compar" "i \<le> j" "j < length base"
  shows "compar key (base ! i) < 0 \<Longrightarrow> compar key (base ! j) < 0"
    "compar key (base ! j) > 0 \<Longrightarrow> compar key (base ! i) > 0"
proof -
  have "i = j \<or> i < j" using assms(2) by auto
  then show "compar key (base ! i) < 0 \<Longrightarrow> compar key (base ! j) < 0"
    "compar key (base ! j) > 0 \<Longrightarrow> compar key (base ! i) > 0"
    using assms(1) [unfolded searchable_def, THEN spec [of _ i], THEN spec [of _ j]] assms(3) by auto
qed

lemma wrap32_small: "0 \<le> x \<Longrightarrow> x < 2 ^ 32 \<Longrightarrow> wrap32 x = nat x"
  by (simp add: wrap32_def)

lemma bsearch_loop_correct:
  assumes "searchable key base compar" "length base < 2 ^ 32" "high < length base" "low \<le> Suc high"
    "0 < low \<or> compar key (base ! 0) \<ge> 0"
    "\<And>i. i < low \<Longrightarrow> compar key (base ! i) > 0" "\<And>i. high < i \<Longrightarrow> i < length base \<Longrightarrow> compar key (base ! i) < 0"
  shows "\<exists>r. bsearch_loop key base compar low high = Some r \<and>
    (case r of Found i \<Rightarrow> i < length base \<and> compar key (base ! i) = 0
             | NotFound \<Rightarrow> \<forall>i<length base. compar key (base ! i) \<noteq> 0
             | OutOfBounds \<Rightarrow> False)"
  using assms(3-)
proof (induction "Suc high - low" arbitrary: low high rule: less_induct)
  case less
  show ?case
  proof (cases "low \<le> high")
    case False
    then have "low = Suc high" using less.prems(2) by simp
    then have "compar key (base ! i) \<noteq> 0" if "i < length base" for i
      using less.prems(4) [of i] less.prems(5) [of i] that by (cases "i < low") auto
    with False show ?thesis by (subst bsearch_loop.simps) simp
  next
    case True
    define mid where "mid = low + (high - low) div 2"
    have mid: "low \<le> mid" "mid \<le> high" "mid < length base" using True less.prems(1) by (auto simp: mid_def)
    let ?c = "compar key (base ! mid)"
    have unfold: "bsearch_loop key base compar low high =
        (if ?c = 0 then Some (Found mid)
         else if ?c < 0 then bsearch_loop key base compar low (wrap32 (int mid - 1))
         else bsearch_loop key base compar (wrap32 (int mid + 1)) high)"
      using True mid by (subst bsearch_loop.simps) (simp add: Let_def mid_def)
    consider "?c = 0" | "?c < 0" | "?c > 0" by linarith
    then show ?thesis
    proof cases
      case 1
      with unfold mid show ?thesis by simp
    next
      case 2
      have "mid \<noteq> 0"
        using 2 less.prems(3) mid(1) by (metis le_zero_eq not_less_zero linorder_not_less)
      then obtain m where m: "mid = Suc m" by (cases mid) auto
      then have w: "wrap32 (int mid - 1) = m" using mid(3) assms(2) by (simp add: wrap32_small)
      have "\<exists>r. bsearch_loop key base compar low m = Some r \<and>
          (case r of Found i \<Rightarrow> i < length base \<and> compar key (base ! i) = 0
             | NotFound \<Rightarrow> \<forall>i<length base. compar key (base ! i) \<noteq> 0 | OutOfBounds \<Rightarrow> False)"
      proof (rule less.hyps)
        show "compar key (base ! i) < 0" if "m < i" "i < length base" for i
          using searchableD(1) [OF assms(1) _ that(2), of mid] 2 that(1) m by simp
      qed (use mid m less.prems in auto)
      with 2 unfold w show ?thesis by simp
    next
      case 3
      have w: "wrap32 (int mid + 1) = Suc mid" using mid(3) assms(2) by (simp add: wrap32_small)
      have "\<exists>r. bsearch_loop key base compar (Suc mid) high = Some r \<and>
          (case r of Found i \<Rightarrow> i < length base \<and> compar key (base ! i) = 0
             | NotFound \<Rightarrow> \<forall>i<length base. compar key (base ! i) \<noteq> 0 | OutOfBounds \<Rightarrow> False)"
      proof (rule less.hyps)
        show "compar key (base ! i) > 0" if "i < Suc mid" for i
          using searchableD(2) [OF assms(1) _ mid(3), of i] 3 that by simp
      qed (use mid less.prems in auto)
      with 3 unfold w show ?thesis by simp
    qed
  qed
qed

lemma bsearch_loop_below:
  assumes "\<And>i. i < length base \<Longrightarrow> compar key (base ! i) < 0" "length base < 2 ^ 31" "high < length base"
  shows "bsearch_loop key base compar 0 high = Some OutOfBounds"
  using assms(3)
proof (induction high rule: less_induct)
  case (less high)
  have mid: "high div 2 < length base" using less.prems by simp
  note c = assms(1) [OF mid]
  show ?case
  proof (cases "high div 2")
    case 0
    have "wrap32 (int (high div 2) - 1) = 2 ^ 32 - 1" by (simp add: 0 wrap32_def)
    moreover have "bsearch_loop key base compar 0 (2 ^ 32 - 1) = Some OutOfBounds"
      using assms(2) by (subst bsearch_loop.simps) simp
    ultimately show ?thesis using mid c by (subst bsearch_loop.simps) (simp add: Let_def)
  next
    case (Suc m)
    have "wrap32 (int (high div 2) - 1) = m" using Suc mid assms(2) by (simp add: wrap32_small)
    moreover have "bsearch_loop key base compar 0 m = Some OutOfBounds" using Suc mid by (intro less.IH) simp_all
    ultimately show ?thesis using mid c by (subst bsearch_loop.simps) (simp add: Let_def)
  qed
qed

subsection \<open>Properties\<close>

definition int_compar :: "int \<Rightarrow> int \<Rightarrow> int" where
  "int_compar a b = a - b"

text \<open>C24.  qsort sorts: for a comparison function that is a total preorder, the array it leaves is
  ordered, has the same elements, and elements that compare equal keep their order.\<close>

theorem qsort_correct:
  assumes "total_preorder compar" "base \<noteq> []" "length base < 2 ^ 32"
  shows "\<exists>s. qsort base (length base) compar = Some s \<and> ordered compar s \<and> mset s = mset base \<and>
     (\<forall>a. filter (equivalent compar a) s = filter (equivalent compar a) base)"
proof -
  have high: "wrap32 (int (length base) - 1) = length base - 1" "length base - 1 < length base"
    using assms(2,3) by (cases base; simp add: wrap32_small)+
  have "segment base 0 (length base - 1) = base" using assms(2) by (simp add: segment_def)
  with MergeSort_sorts [OF assms(1) _ high(2), of 0] assms(2) show ?thesis
    by (auto simp: qsort_def high(1) sorts_def)
qed

theorem qsort_correct_witness:
  "\<exists>s. qsort [3, 1, 2] 3 int_compar = Some s \<and> ordered int_compar s \<and> mset s = mset [3, 1, 2]"
proof -
  have "total_preorder int_compar" by (auto simp: total_preorder_def int_compar_def)
  from qsort_correct [OF this, of "[3, 1, 2]"] show ?thesis by (auto simp: numeral_3_eq_3)
qed

text \<open>C25.  Binary search: in an array ordered consistently with the comparisons of the key, and
  whose first element is not above the key, bsearch returns a matching element if there is one
  and reports that there is none otherwise; it always ends and stays inside the array.\<close>

theorem bsearch_correct:
  assumes "searchable key base compar" "base \<noteq> []" "length base < 2 ^ 32" "compar key (base ! 0) \<ge> 0"
  shows "(\<exists>i<length base. compar key (base ! i) = 0 \<and> bsearch key base (length base) compar = Some (Found i)) \<or>
    ((\<forall>i<length base. compar key (base ! i) \<noteq> 0) \<and> bsearch key base (length base) compar = Some NotFound)"
proof -
  have high: "wrap32 (int (length base) - 1) = length base - 1" "length base - 1 < length base"
    using assms(2,3) by (cases base; simp add: wrap32_small)+
  obtain r where "bsearch key base (length base) compar = Some r"
    "case r of Found i \<Rightarrow> i < length base \<and> compar key (base ! i) = 0
             | NotFound \<Rightarrow> \<forall>i<length base. compar key (base ! i) \<noteq> 0 | OutOfBounds \<Rightarrow> False"
  proof -
    have "\<exists>r. bsearch_loop key base compar 0 (length base - 1) = Some r \<and>
        (case r of Found i \<Rightarrow> i < length base \<and> compar key (base ! i) = 0
           | NotFound \<Rightarrow> \<forall>i<length base. compar key (base ! i) \<noteq> 0 | OutOfBounds \<Rightarrow> False)"
      by (rule bsearch_loop_correct [OF assms(1,3) high(2)]) (use assms(4) in auto)
    with that show thesis by (auto simp: bsearch_def high(1))
  qed
  then show ?thesis by (cases r) auto
qed

theorem bsearch_correct_witness:
  "(\<exists>i<length [10, 20 :: int]. int_compar 20 ([10, 20] ! i) = 0 \<and>
      bsearch 20 [10, 20] (length [10, 20 :: int]) int_compar = Some (Found i)) \<or>
   ((\<forall>i<length [10, 20 :: int]. int_compar 20 ([10, 20] ! i) \<noteq> 0) \<and>
      bsearch 20 [10, 20] (length [10, 20 :: int]) int_compar = Some NotFound)"
  by (rule bsearch_correct)
     (auto simp: searchable_def int_compar_def less_Suc_eq)

text \<open>The unsigned index arithmetic runs out of the array at the low end: searching for a key
  below the first element makes the upper index wrap around and an element far outside the array
  is read, and sorting an empty array starts with a wrapped upper index too.\<close>

lemma search_sort_underflow:
  assumes "\<And>i. i < length base \<Longrightarrow> compar key (base ! i) < 0" "base \<noteq> []" "length base < 2 ^ 31"
  shows "bsearch key base (length base) compar = Some OutOfBounds \<and> qsort [] 0 compar' = None"
proof -
  have high: "wrap32 (int (length base) - 1) = length base - 1" "length base - 1 < length base"
    using assms(2,3) by (cases base; simp add: wrap32_small)+
  have "bsearch key base (length base) compar = Some OutOfBounds"
    using bsearch_loop_below [of base compar key, OF assms(1,3) high(2)] by (simp add: bsearch_def high(1))
  moreover have "qsort [] 0 compar' = None"
    using MergeSort_outside [of 0 "2 ^ 32 - 1" "[]" compar'] by (simp add: qsort_def wrap32_def)
  ultimately show ?thesis ..
qed

lemma search_sort_underflow_witness:
  "bsearch 5 [10, 20] (length [10, 20 :: int]) int_compar = Some OutOfBounds \<and> qsort [] 0 int_compar = None"
  by (rule search_sort_underflow) (auto simp: less_Suc_eq_0_disj int_compar_def)

end
