(* ===== verification/LibcString.thy ===== *)
theory LibcString
  imports UserTransfer
begin

text \<open>
  The string functions of libc/common/string.c and common/cmn_string.h, the character classes of
  libc/common/ctype.c, and the number parsers of libc/common/stdlib/atoi.c and
  libc/hosted/stdlib/strtol.c, over the byte memory of theory UserTransfer.  A pointer is an
  address, with \<open>None\<close> for the null pointer where a function may return it.  Loops that look for
  a terminating zero may run for ever on a memory without one: these functions have an outer
  \<open>option\<close>, \<open>None\<close> meaning that they do not return.
\<close>

subsection \<open>Characters\<close>

definition toupper :: "int \<Rightarrow> int" where "toupper c = (if c \<ge> 97 \<and> c \<le> 122 then c - 32 else c)"
definition tolower :: "int \<Rightarrow> int" where "tolower c = (if c \<ge> 65 \<and> c \<le> 90 then c + 32 else c)"
definition isupper :: "int \<Rightarrow> bool" where "isupper c \<longleftrightarrow> c \<ge> 65 \<and> c \<le> 90"
definition islower :: "int \<Rightarrow> bool" where "islower c \<longleftrightarrow> c \<ge> 97 \<and> c \<le> 122"
definition isalpha :: "int \<Rightarrow> bool" where "isalpha c \<longleftrightarrow> isupper c \<or> islower c"
definition isdigit :: "int \<Rightarrow> bool" where "isdigit c \<longleftrightarrow> c \<ge> 48 \<and> c \<le> 57"
definition isalnum :: "int \<Rightarrow> bool" where "isalnum c \<longleftrightarrow> isalpha c \<or> isdigit c"
definition iscntrl :: "int \<Rightarrow> bool" where "iscntrl c \<longleftrightarrow> c < 32 \<or> c = 127"
definition isblank :: "int \<Rightarrow> bool" where "isblank c \<longleftrightarrow> c = 9 \<or> c = 32"
definition isprint :: "int \<Rightarrow> bool" where "isprint c \<longleftrightarrow> \<not> iscntrl c"
definition isgraph :: "int \<Rightarrow> bool" where "isgraph c \<longleftrightarrow> isprint c \<and> c \<noteq> 32"
definition isspace :: "int \<Rightarrow> bool" where
  "isspace c \<longleftrightarrow> c = 32 \<or> c = 12 \<or> c = 10 \<or> c = 13 \<or> c = 9 \<or> c = 11"
definition ispunct :: "int \<Rightarrow> bool" where "ispunct c \<longleftrightarrow> isprint c \<and> \<not> isspace c \<and> \<not> isalnum c"
definition isxdigit :: "int \<Rightarrow> bool" where
  "isxdigit c \<longleftrightarrow> isdigit c \<or> (c \<ge> 65 \<and> c \<le> 70) \<or> (c \<ge> 97 \<and> c \<le> 102)"

text \<open>A \<^verbatim>\<open>char\<close> read as an \<^verbatim>\<open>int\<close>: plain \<^verbatim>\<open>char\<close> is signed on x86.\<close>

abbreviation (input) char_int :: "u8 \<Rightarrow> int" where "char_int c \<equiv> sint c"

subsection \<open>Memory blocks\<close>

fun memset :: "memory \<Rightarrow> u32 \<Rightarrow> u8 \<Rightarrow> nat \<Rightarrow> memory" where
  "memset m addr c 0 = m"
| "memset m addr c (Suc n) = memset (m(addr := c)) (addr + 1) c n"

text \<open>The forward loop of \<^verbatim>\<open>memcpy\<close> and of the first branch of \<^verbatim>\<open>memmove\<close>.\<close>

fun copy_forward :: "memory \<Rightarrow> u32 \<Rightarrow> u32 \<Rightarrow> nat \<Rightarrow> memory" where
  "copy_forward m a b 0 = m"
| "copy_forward m a b (Suc n) = copy_forward (m(a := m b)) (a + 1) (b + 1) n"


definition memcpy :: "memory \<Rightarrow> u32 \<Rightarrow> u32 \<Rightarrow> nat \<Rightarrow> memory" where
  "memcpy m dst src n = copy_forward m dst src n"


fun memchr :: "memory \<Rightarrow> u32 \<Rightarrow> u8 \<Rightarrow> nat \<Rightarrow> u32 option" where
  "memchr m ptr c 0 = None"
| "memchr m ptr c (Suc n) = (if m ptr = c then Some ptr else memchr m (ptr + 1) c n)"

fun memcmp :: "memory \<Rightarrow> u32 \<Rightarrow> u32 \<Rightarrow> nat \<Rightarrow> int" where
  "memcmp m a b 0 = 0"
| "memcmp m a b (Suc n) =
     (if m a < m b then -1 else if m a > m b then 1 else memcmp m (a + 1) (b + 1) n)"

subsection \<open>Strings\<close>

partial_function (option) strlen_loop :: "memory \<Rightarrow> u32 \<Rightarrow> u32 \<Rightarrow> u32 option" where
  "strlen_loop m str len = (if m (str + len) \<noteq> 0 then strlen_loop m str (len + 1) else Some len)"

definition strlen :: "memory \<Rightarrow> u32 \<Rightarrow> u32 option" where
  "strlen m str = strlen_loop m str 0"

partial_function (option) strcmp :: "memory \<Rightarrow> u32 \<Rightarrow> u32 \<Rightarrow> int option" where
  "strcmp m s1 s2 =
     (if m s1 \<noteq> 0 \<and> m s1 = m s2 then strcmp m (s1 + 1) (s2 + 1) else Some (uint (m s1) - uint (m s2)))"

fun strncmp :: "memory \<Rightarrow> u32 \<Rightarrow> u32 \<Rightarrow> nat \<Rightarrow> int" where
  "strncmp m s1 s2 0 = 0"
| "strncmp m s1 s2 (Suc n) =
     (if m s1 \<noteq> 0 \<and> m s1 = m s2 then strncmp m (s1 + 1) (s2 + 1) n else uint (m s1) - uint (m s2))"

partial_function (option) strcpy :: "memory \<Rightarrow> u32 \<Rightarrow> u32 \<Rightarrow> memory option" where
  "strcpy m dst src =
     (let c = m src; m' = m(dst := c) in if c \<noteq> 0 then strcpy m' (dst + 1) (src + 1) else Some m')"

partial_function (option) string_end :: "memory \<Rightarrow> u32 \<Rightarrow> u32 option" where
  "string_end m dst = (if m dst \<noteq> 0 then string_end m (dst + 1) else Some dst)"

definition strcat :: "memory \<Rightarrow> u32 \<Rightarrow> u32 \<Rightarrow> memory option" where
  "strcat m dst src = (case string_end m dst of None \<Rightarrow> None | Some e \<Rightarrow> strcpy m e src)"

fun strncpy :: "memory \<Rightarrow> u32 \<Rightarrow> u32 \<Rightarrow> nat \<Rightarrow> memory" where
  "strncpy m dst src 0 = m"
| "strncpy m dst src (Suc n) =
     (if m src \<noteq> 0 then strncpy (m(dst := m src)) (dst + 1) (src + 1) n
      else strncpy (m(dst := 0)) (dst + 1) src n)"

fun strncat_loop :: "memory \<Rightarrow> u32 \<Rightarrow> u32 \<Rightarrow> nat \<Rightarrow> memory" where
  "strncat_loop m dst src 0 = m(dst := 0)"
| "strncat_loop m dst src (Suc n) =
     (if m src \<noteq> 0 then strncat_loop (m(dst := m src)) (dst + 1) (src + 1) n else m(dst := 0))"

definition strncat :: "memory \<Rightarrow> u32 \<Rightarrow> u32 \<Rightarrow> nat \<Rightarrow> memory option" where
  "strncat m dst src n = map_option (\<lambda>e. strncat_loop m e src n) (string_end m dst)"

partial_function (option) strchr :: "memory \<Rightarrow> u32 \<Rightarrow> u8 \<Rightarrow> u32 option option" where
  "strchr m s c =
     (if m s = c then Some (Some s) else if m s \<noteq> 0 then strchr m (s + 1) c else Some None)"

partial_function (option) strrchr_loop :: "memory \<Rightarrow> u32 \<Rightarrow> u8 \<Rightarrow> u32 option \<Rightarrow> u32 option option" where
  "strrchr_loop m s c result =
     (if m s \<noteq> 0 then strrchr_loop m (s + 1) c (if m s = c then Some s else result) else Some result)"

definition strrchr :: "memory \<Rightarrow> u32 \<Rightarrow> u8 \<Rightarrow> u32 option option" where
  "strrchr m s c = strrchr_loop m s c None"

text \<open>Whether a byte occurs in the string at \<^verbatim>\<open>s2\<close>: the inner loop of the next functions.\<close>

partial_function (option) occurs :: "memory \<Rightarrow> u8 \<Rightarrow> u32 \<Rightarrow> bool option" where
  "occurs m c s2 = (if m s2 \<noteq> 0 then if c = m s2 then Some True else occurs m c (s2 + 1) else Some False)"

partial_function (option) strspn_loop :: "memory \<Rightarrow> u32 \<Rightarrow> u32 \<Rightarrow> bool \<Rightarrow> u32 \<Rightarrow> u32 option" where
  "strspn_loop m s1 s2 wanted i =
     (if m (s1 + i) \<noteq> 0
      then case occurs m (m (s1 + i)) s2 of
             None \<Rightarrow> None
           | Some found \<Rightarrow> if found = wanted then strspn_loop m s1 s2 wanted (i + 1) else Some i
      else Some i)"

definition strspn :: "memory \<Rightarrow> u32 \<Rightarrow> u32 \<Rightarrow> u32 option" where
  "strspn m s1 s2 = strspn_loop m s1 s2 True 0"

definition strcspn :: "memory \<Rightarrow> u32 \<Rightarrow> u32 \<Rightarrow> u32 option" where
  "strcspn m s1 s2 = strspn_loop m s1 s2 False 0"

partial_function (option) strpbrk :: "memory \<Rightarrow> u32 \<Rightarrow> u32 \<Rightarrow> u32 option option" where
  "strpbrk m s s2 =
     (if m s \<noteq> 0
      then case occurs m (m s) s2 of
             None \<Rightarrow> None
           | Some found \<Rightarrow> if found then Some (Some s) else strpbrk m (s + 1) s2
      else Some None)"

partial_function (option) strstr_loop :: "memory \<Rightarrow> u32 \<Rightarrow> u32 \<Rightarrow> nat \<Rightarrow> u32 option option" where
  "strstr_loop m haystack needle n =
     (if m haystack \<noteq> 0
      then if memcmp m haystack needle n = 0 then Some (Some haystack)
           else strstr_loop m (haystack + 1) needle n
      else Some None)"

definition strstr :: "memory \<Rightarrow> u32 \<Rightarrow> u32 \<Rightarrow> u32 option option" where
  "strstr m haystack needle =
     (case strlen m needle of
        None \<Rightarrow> None
      | Some n \<Rightarrow> if n = 0 then Some (Some haystack) else strstr_loop m haystack needle (unat n))"

partial_function (option) strcasecmp :: "memory \<Rightarrow> u32 \<Rightarrow> u32 \<Rightarrow> int option" where
  "strcasecmp m s1 s2 =
     (if m s1 \<noteq> 0 \<and> tolower (char_int (m s1)) = tolower (char_int (m s2)) then strcasecmp m (s1 + 1) (s2 + 1)
      else Some (tolower (uint (m s1)) - tolower (uint (m s2))))"

fun strncasecmp :: "memory \<Rightarrow> u32 \<Rightarrow> u32 \<Rightarrow> nat \<Rightarrow> int" where
  "strncasecmp m s1 s2 0 = 0"
| "strncasecmp m s1 s2 (Suc n) =
     (if m s1 \<noteq> 0 \<and> tolower (char_int (m s1)) = tolower (char_int (m s2)) then strncasecmp m (s1 + 1) (s2 + 1) n
      else tolower (uint (m s1)) - tolower (uint (m s2)))"

text \<open>\<^verbatim>\<open>strxfrm\<close>: the loop runs while \<^verbatim>\<open>n-- > 1\<close>; the length is taken at the advanced pointer.\<close>

fun strxfrm_loop :: "memory \<Rightarrow> u32 \<Rightarrow> u32 \<Rightarrow> nat \<Rightarrow> memory \<times> u32" where
  "strxfrm_loop m dst src 0 = (m, dst)"
| "strxfrm_loop m dst src (Suc k) =
     (if m src \<noteq> 0 then strxfrm_loop (m(dst := m src)) (dst + 1) (src + 1) k else (m(dst := 0), dst))"

definition strxfrm :: "memory \<Rightarrow> u32 option \<Rightarrow> u32 \<Rightarrow> nat \<Rightarrow> (memory \<times> u32) option" where
  "strxfrm m dst src n =
     (if n = 0 then Some (case dst of None \<Rightarrow> m | Some d \<Rightarrow> m(d := 0), 0)
      else case dst of
             None \<Rightarrow> None
           | Some d \<Rightarrow> let (m, d) = strxfrm_loop m d src (n - 1); m = m(d := 0)
                       in map_option (Pair m) (strlen m d))"

text \<open>\<^verbatim>\<open>strcoll\<close> with the addresses of its two local arrays.\<close>

definition strcoll :: "memory \<Rightarrow> u32 \<Rightarrow> u32 \<Rightarrow> u32 \<Rightarrow> u32 \<Rightarrow> int option" where
  "strcoll m out1 out2 s1 s2 =
     (case (strxfrm m None s1 0, strxfrm m None s2 0) of
        (Some (_, n1), Some (_, n2)) \<Rightarrow>
          (case strxfrm m (Some out1) s1 (unat (1 + n1)) of
             None \<Rightarrow> None
           | Some (m, _) \<Rightarrow> (case strxfrm m (Some out2) s2 (unat (1 + n2)) of
                              None \<Rightarrow> None
                            | Some (m, _) \<Rightarrow> strcmp m out1 out2))
      | _ \<Rightarrow> None)"

text \<open>\<^verbatim>\<open>strtok\<close>, with its static pointer as state.  The result is the new memory, the new static
  pointer and the token.\<close>

partial_function (option) strtok_scan :: "memory \<Rightarrow> u32 \<Rightarrow> u32 \<Rightarrow> u32 \<Rightarrow> u32 option \<Rightarrow> (bool \<times> u32 option) option" where
  "strtok_scan m p delim i token =
     (if m (p + i) \<noteq> 0
      then case occurs m (m (p + i)) delim of
             None \<Rightarrow> None
           | Some found \<Rightarrow> if found then strtok_scan m p delim (i + 1) (Some (p + i)) else Some (False, None)
      else Some (True, token))"

definition strtok :: "memory \<Rightarrow> u32 option \<Rightarrow> u32 option \<Rightarrow> u32 \<Rightarrow> (memory \<times> u32 option \<times> u32 option) option" where
  "strtok m saved s delim =
     (case (case s of Some p \<Rightarrow> Some p | None \<Rightarrow> saved) of
        None \<Rightarrow> Some (m, None, None)
      | Some p \<Rightarrow>
          (case strtok_scan m p delim 0 None of
             None \<Rightarrow> None
           | Some (False, _) \<Rightarrow> Some (m, None, None)
           | Some (True, token) \<Rightarrow>
               (case strspn_loop m p delim False 0 of
                  None \<Rightarrow> None
                | Some i \<Rightarrow> if m (p + i) \<noteq> 0 then Some (m(p + i := 0), Some (p + i + 1), token)
                            else Some (m, None, token))))"

subsection \<open>Numbers\<close>

partial_function (option) skip_spaces :: "memory \<Rightarrow> u32 \<Rightarrow> u32 option" where
  "skip_spaces m p = (if m p \<noteq> 0 \<and> isspace (char_int (m p)) then skip_spaces m (p + 1) else Some p)"

text \<open>Signed overflow of \<^verbatim>\<open>val\<close> is undefined in C; the model computes the exact value.\<close>

partial_function (option) atoi_loop :: "memory \<Rightarrow> u32 \<Rightarrow> int \<Rightarrow> int option" where
  "atoi_loop m p val =
     (if m p \<noteq> 0 \<and> isdigit (char_int (m p)) then atoi_loop m (p + 1) (val * 10 + (char_int (m p) - 48))
      else Some val)"

definition atoi :: "memory \<Rightarrow> u32 \<Rightarrow> int option" where
  "atoi m str =
     (case skip_spaces m str of
        None \<Rightarrow> None
      | Some p \<Rightarrow> let negate = (m p = 45); p = (if m p = 43 \<or> m p = 45 then p + 1 else p)
                  in map_option (\<lambda>v. if negate then - v else v) (atoi_loop m p 0))"

definition IsDigitInBase :: "int \<Rightarrow> int \<Rightarrow> bool" where
  "IsDigitInBase c base \<longleftrightarrow> (isdigit c \<and> c - 48 < base) \<or> tolower c - 97 + 10 < base"

text \<open>The macro \<^verbatim>\<open>STRTO\<close>, for the limits of the type.  The result is the value, the address stored
  at \<^verbatim>\<open>endptr\<close> (None where it is not written) and the error number set, if any.  The product
  wraps in the type; the sum is checked.  The branches for a prefix can never be taken: base 0 is
  refused first, and the test for the letter of a hexadecimal prefix looks at the character that
  has just been compared with the digit 0.\<close>

record int_type =
  it_min :: int
  it_max :: int
  it_unsigned :: bool

definition wrap_type :: "int_type \<Rightarrow> int \<Rightarrow> int" where
  "wrap_type ty x = (x - it_min ty) mod (it_max ty - it_min ty + 1) + it_min ty"

definition in_type :: "int_type \<Rightarrow> int \<Rightarrow> bool" where
  "in_type ty x \<longleftrightarrow> it_min ty \<le> x \<and> x \<le> it_max ty"

partial_function (option) strto_loop ::
    "int_type \<Rightarrow> memory \<Rightarrow> u32 \<Rightarrow> bool \<Rightarrow> int \<Rightarrow> u32 \<Rightarrow> bool \<Rightarrow> int \<Rightarrow> (int \<times> u32 option \<times> errno option) option" where
  "strto_loop ty m start negate base p any_digits val =
     (let c = char_int (m p) in
      if m p \<noteq> 0 \<and> IsDigitInBase c base
      then let val = wrap_type ty (val * base);
               digit_val = (if isdigit c then c - 48 else tolower c - 97 + 10)
           in if negate
              then if it_unsigned ty \<and> digit_val > 0 then Some (0, None, Some ERANGE)
                   else if \<not> in_type ty (val - digit_val) then Some (it_min ty, None, Some ERANGE)
                   else strto_loop ty m start negate base (p + 1) True (val - digit_val)
              else if \<not> in_type ty (val + digit_val) then Some (it_max ty, None, Some ERANGE)
                   else strto_loop ty m start negate base (p + 1) True (val + digit_val)
      else Some (val, Some (if any_digits then p else start), None))"

definition strto :: "int_type \<Rightarrow> memory \<Rightarrow> u32 \<Rightarrow> int \<Rightarrow> (int \<times> u32 option \<times> errno option) option" where
  "strto ty m str base =
     (if base < 2 \<or> base > 36 then Some (0, None, Some EINVAL)
      else case skip_spaces m str of
             None \<Rightarrow> None
           | Some p \<Rightarrow> let negate = (m p = 45); p = (if m p = 43 \<or> m p = 45 then p + 1 else p)
                       in strto_loop ty m str negate base p False 0)"

definition strtol :: "memory \<Rightarrow> u32 \<Rightarrow> int \<Rightarrow> (int \<times> u32 option \<times> errno option) option" where
  "strtol = strto \<lparr>it_min = - (2 ^ 31), it_max = 2 ^ 31 - 1, it_unsigned = False\<rparr>"

definition strtoll :: "memory \<Rightarrow> u32 \<Rightarrow> int \<Rightarrow> (int \<times> u32 option \<times> errno option) option" where
  "strtoll = strto \<lparr>it_min = - (2 ^ 63), it_max = 2 ^ 63 - 1, it_unsigned = False\<rparr>"

definition strtoul :: "memory \<Rightarrow> u32 \<Rightarrow> int \<Rightarrow> (int \<times> u32 option \<times> errno option) option" where
  "strtoul = strto \<lparr>it_min = 0, it_max = 2 ^ 32 - 1, it_unsigned = True\<rparr>"

definition strtoull :: "memory \<Rightarrow> u32 \<Rightarrow> int \<Rightarrow> (int \<times> u32 option \<times> errno option) option" where
  "strtoull = strto \<lparr>it_min = 0, it_max = 2 ^ 64 - 1, it_unsigned = True\<rparr>"

subsection \<open>Copying\<close>

lemma write_bytes_upd: "length xs < 2 ^ 32 \<Longrightarrow> write_bytes (m(a := c)) (a + 1) xs = write_bytes m a (c # xs)"
proof
  fix p :: u32
  assume len: "length xs < 2 ^ 32"
  show "write_bytes (m(a := c)) (a + 1) xs p = write_bytes m a (c # xs) p"
  proof (cases "p = a")
    case True
    have "unat (- 1 :: u32) = 2 ^ 32 - 1" by (simp add: unsigned_minus_1_eq_mask mask_eq_exp_minus_1)
    with True len show ?thesis by (simp add: write_bytes_def)
  next
    case False
    then have nz: "unat (p - a) \<noteq> 0" by (simp add: unat_eq_zero)
    have "unat (p - (a + 1)) = unat (p - a) - 1"
      using unat_minus_one [of "p - a"] False by (simp add: diff_diff_eq)
    with nz False show ?thesis by (auto simp: write_bytes_def nth_Cons')
  qed
qed

lemma write_bytes_single: "write_bytes m a [c] = m(a := c)"
  by (auto simp: write_bytes_def fun_eq_iff unat_eq_zero)


lemma read_bytes_Suc: "read_bytes m a (Suc n) = m a # read_bytes m (a + 1) n"
  by (simp add: read_bytes_def upt_conv_Cons map_Suc_upt [symmetric] add.assoc del: upt_Suc)

lemma read_bytes_snoc: "read_bytes m a (Suc n) = read_bytes m a n @ [m (a + of_nat n)]"
  by (simp add: read_bytes_def)




subsection \<open>Strings in memory\<close>

fun cstr :: "memory \<Rightarrow> u32 \<Rightarrow> cstring \<Rightarrow> bool" where
  "cstr m p [] \<longleftrightarrow> m p = 0"
| "cstr m p (c # s) \<longleftrightarrow> c \<noteq> 0 \<and> m p = c \<and> cstr m (p + 1) s"

lemma cstr_read: "cstr m p s \<longleftrightarrow> 0 \<notin> set s \<and> read_bytes m p (Suc (length s)) = s @ [0]"
proof (induction s arbitrary: p)
  case Nil
  show ?case by (simp add: read_bytes_def)
next
  case (Cons c s)
  then show ?case by (auto simp: read_bytes_Suc [of m p "Suc (length s)"])
qed

text \<open>Comparison of strings as \<^verbatim>\<open>strcmp\<close> defines it.\<close>

fun cstring_cmp :: "cstring \<Rightarrow> cstring \<Rightarrow> int" where
  "cstring_cmp [] [] = 0"
| "cstring_cmp [] (d # ds) = - uint d"
| "cstring_cmp (c # cs) [] = uint c"
| "cstring_cmp (c # cs) (d # ds) = (if c = d then cstring_cmp cs ds else uint c - uint d)"

lemma strlen_cstr: "cstr m (str + len) s \<Longrightarrow> strlen_loop m str len = Some (len + of_nat (length s))"
proof (induction s arbitrary: len)
  case Nil
  then show ?case by (subst strlen_loop.simps) simp
next
  case (Cons c s)
  then show ?case by (subst strlen_loop.simps) (simp add: add.assoc)
qed

lemma strcmp_cstr: "cstr m p a \<Longrightarrow> cstr m q b \<Longrightarrow> strcmp m p q = Some (cstring_cmp a b)"
proof (induction a b arbitrary: p q rule: cstring_cmp.induct)
  case (4 c cs d ds)
  then show ?case by (subst strcmp.simps) auto
qed (subst strcmp.simps, auto)+

lemma strncmp_cstr:
  "cstr m p a \<Longrightarrow> cstr m q b \<Longrightarrow> strncmp m p q n = cstring_cmp (take n a) (take n b)"
proof (induction a b arbitrary: p q n rule: cstring_cmp.induct)
  case (1 p q n)
  then show ?case by (cases n) auto
next
  case (2 d ds p q n)
  then show ?case by (cases n) auto
next
  case (3 c cs p q n)
  then show ?case by (cases n) auto
next
  case (4 c cs d ds p q n)
  then show ?case by (cases n) auto
qed

text \<open>Where a copy may go without touching its source.\<close>

definition apart :: "u32 \<Rightarrow> nat \<Rightarrow> u32 \<Rightarrow> nat \<Rightarrow> bool" where
  "apart p j q k \<longleftrightarrow> (\<forall>x<j. \<forall>y<k. p + of_nat x \<noteq> q + of_nat y)"

lemma apart_tail: "apart p (Suc j) q (Suc k) \<Longrightarrow> apart (p + 1) j (q + 1) k"
proof -
  assume *: "apart p (Suc j) q (Suc k)"
  have "p + of_nat (Suc x) \<noteq> q + of_nat (Suc y)" if "x < j" "y < k" for x y
    using * that unfolding apart_def by blast
  then show ?thesis by (simp add: apart_def add.assoc)
qed

lemma apart_head: "apart p (Suc j) q (Suc k) \<Longrightarrow> x < Suc k \<Longrightarrow> p \<noteq> q + of_nat x"
proof -
  assume "apart p (Suc j) q (Suc k)" "x < Suc k"
  then have "p + of_nat 0 \<noteq> q + of_nat x" unfolding apart_def by blast
  then show ?thesis by simp
qed

lemma cstr_upd: "(\<And>i. i \<le> length s \<Longrightarrow> p + of_nat i \<noteq> a) \<Longrightarrow> cstr (m(a := c)) p s = cstr m p s"
proof (induction s arbitrary: p)
  case Nil
  from Nil [of 0] show ?case by simp
next
  case (Cons d s)
  have "p + 1 + of_nat i \<noteq> a" if "i \<le> length s" for i
    using Cons.prems [of "Suc i"] that by (simp add: add.assoc)
  with Cons.IH [of "p + 1"] Cons.prems [of 0] show ?case by simp
qed

lemma strcpy_cstr:
  "cstr m src s \<Longrightarrow> length s < 2 ^ 32 - 1 \<Longrightarrow> apart dst (Suc (length s)) src (Suc (length s)) \<Longrightarrow>
   strcpy m dst src = Some (write_bytes m dst (s @ [0]))"
proof (induction s arbitrary: m dst src)
  case Nil
  then show ?case by (subst strcpy.simps) (simp add: write_bytes_single)
next
  case (Cons c s)
  have "src + 1 + of_nat i \<noteq> dst" if "i \<le> length s" for i
    using apart_head [OF Cons.prems(3), of "Suc i"] that by (auto simp: add.assoc)
  then have cs: "cstr (m(dst := c)) (src + 1) s" using cstr_upd [of s "src + 1" dst m c] Cons.prems(1) by simp
  have "strcpy (m(dst := c)) (dst + 1) (src + 1) = Some (write_bytes (m(dst := c)) (dst + 1) (s @ [0]))"
    by (rule Cons.IH [OF cs]) (use Cons.prems(2,3) in \<open>simp_all add: apart_tail\<close>)
  also have "write_bytes (m(dst := c)) (dst + 1) (s @ [0]) = write_bytes m dst ((c # s) @ [0])"
    using write_bytes_upd [of "s @ [0]" m dst c] Cons.prems(2) by simp
  finally show ?case using Cons.prems(1) by (subst strcpy.simps) (simp add: Let_def del: fun_upd_apply)
qed

lemma string_end_cstr: "cstr m p s \<Longrightarrow> string_end m p = Some (p + of_nat (length s))"
proof (induction s arbitrary: p)
  case Nil
  then show ?case by (subst string_end.simps) simp
next
  case (Cons c s)
  then show ?case by (subst string_end.simps) (simp add: add.assoc)
qed

lemma occurs_cstr: "cstr m q ds \<Longrightarrow> c \<noteq> 0 \<Longrightarrow> occurs m c q = Some (c \<in> set ds)"
proof (induction ds arbitrary: q)
  case Nil
  then show ?case by (subst occurs.simps) simp
next
  case (Cons d ds)
  then show ?case by (subst occurs.simps) auto
qed

lemma strspn_loop_cstr:
  "cstr m (p + i) s \<Longrightarrow> cstr m q ds \<Longrightarrow>
   strspn_loop m p q wanted i = Some (i + of_nat (length (takeWhile (\<lambda>c. (c \<in> set ds) = wanted) s)))"
proof (induction s arbitrary: i)
  case Nil
  then show ?case by (subst strspn_loop.simps) simp
next
  case (Cons c s)
  then have "occurs m c q = Some (c \<in> set ds)" by (intro occurs_cstr) auto
  with Cons show ?case by (subst strspn_loop.simps) (auto simp: add.assoc)
qed

lemma strtok_scan_nondelim:
  "cstr m (p + i) s \<Longrightarrow> cstr m q ds \<Longrightarrow> \<not> set s \<subseteq> set ds \<Longrightarrow> strtok_scan m p q i token = Some (False, None)"
proof (induction s arbitrary: i token)
  case (Cons c s)
  then have "occurs m c q = Some (c \<in> set ds)" by (intro occurs_cstr) auto
  with Cons show ?case by (subst strtok_scan.simps) (auto simp: add.assoc)
qed simp

lemma strchr_cstr:
  "cstr m p s \<Longrightarrow> c \<noteq> 0 \<Longrightarrow> strchr m p c =
     Some (if c \<in> set s then Some (p + of_nat (length (takeWhile ((\<noteq>) c) s))) else None)"
proof (induction s arbitrary: p)
  case Nil
  then show ?case by (subst strchr.simps) simp
next
  case (Cons d s)
  then show ?case by (subst strchr.simps) (auto simp: add.assoc)
qed

lemma atoi_loop_digits:
  "read_bytes m p (length ds) = ds \<Longrightarrow> (\<And>d. d \<in> set ds \<Longrightarrow> 48 \<le> uint d \<and> uint d \<le> 57) \<Longrightarrow>
   \<not> isdigit (sint (m (p + of_nat (length ds)))) \<Longrightarrow>
   atoi_loop m p val = Some (foldl (\<lambda>v d. v * 10 + (uint d - 48)) val ds)"
proof (induction ds arbitrary: p val)
  case Nil
  then show ?case by (subst atoi_loop.simps) simp
next
  case (Cons d ds)
  have mem: "m p = d" "read_bytes m (p + 1) (length ds) = ds" using Cons.prems(1) by (simp_all add: read_bytes_Suc)
  have d: "48 \<le> uint d" "uint d \<le> 57" using Cons.prems(2) [of d] by auto
  have "sint d = uint d" using d by (simp add: sint_uint signed_take_bit_int_eq_self)
  moreover have "d \<noteq> 0" using d by auto
  moreover have "atoi_loop m (p + 1) (val * 10 + (uint d - 48)) =
      Some (foldl (\<lambda>v d. v * 10 + (uint d - 48)) (val * 10 + (uint d - 48)) ds)"
    using Cons.prems mem(2) by (intro Cons.IH) (simp_all add: add.assoc)
  ultimately show ?case using d mem(1) by (subst atoi_loop.simps) (simp add: isdigit_def)
qed

lemma cstring_cmp_zero: "0 \<notin> set a \<Longrightarrow> 0 \<notin> set b \<Longrightarrow> cstring_cmp a b = 0 \<longleftrightarrow> a = b"
  by (induction a b rule: cstring_cmp.induct) (auto simp: word_uint_eq_iff)

lemma cstring_cmp_less:
  "0 \<notin> set a \<Longrightarrow> 0 \<notin> set b \<Longrightarrow> cstring_cmp a b < 0 \<longleftrightarrow> ord_class.lexordp a b"
proof (induction a b rule: cstring_cmp.induct)
  case (2 d ds)
  then have "0 < uint d" by (simp add: word_neq_0_conv word_less_alt)
  then show ?case by simp
next
  case (3 c cs)
  have "0 \<le> uint c" by simp
  then show ?case by simp
next
  case (4 c cs d ds)
  then show ?case by (auto simp: word_less_alt word_uint_eq_iff)
qed simp

lemma cstr_no_zero: "cstr m p s \<Longrightarrow> 0 \<notin> set s"
  by (simp add: cstr_read)

lemma write_bytes_same: "length xs \<le> 2 ^ 32 \<Longrightarrow> read_bytes m a (length xs) = xs \<Longrightarrow> write_bytes m a xs = m"
proof
  fix p :: u32
  assume "length xs \<le> 2 ^ 32" "read_bytes m a (length xs) = xs"
  then have "xs ! i = m (a + of_nat i)" if "i < length xs" for i
    using that by (metis (no_types, lifting) nth_map_upt diff_zero add_0 read_bytes_def)
  moreover have "a + of_nat (unat (p - a)) = p" by simp
  ultimately show "write_bytes m a xs p = m p" by (simp add: write_bytes_def)
qed

lemma strcat_cstr:
  assumes "cstr m d a" "cstr m q b" "length a + length b < 2 ^ 32 - 1"
    "apart (d + of_nat (length a)) (Suc (length b)) q (Suc (length b))"
  shows "\<exists>m'. strcat m d q = Some m' \<and> cstr m' d (a @ b)"
proof -
  let ?m = "write_bytes m (d + of_nat (length a)) (b @ [0])"
  have cat: "strcat m d q = Some ?m"
    using assms string_end_cstr [OF assms(1)] strcpy_cstr [OF assms(2) _ assms(4)] by (simp add: strcat_def)
  have "read_bytes m d (length a) = a"
    using assms(1) read_bytes_snoc [of m d "length a"] by (simp add: cstr_read)
  then have "write_bytes m d a = m" using assms(3) by (intro write_bytes_same) auto
  then have "?m = write_bytes m d ((a @ b) @ [0])"
    using write_bytes_append [of a "b @ [0]" m d] assms(3) by simp
  then have "cstr ?m d (a @ b)"
    using read_write_bytes [of "(a @ b) @ [0]" m d] assms cstr_no_zero [OF assms(1)] cstr_no_zero [OF assms(2)]
    by (simp add: cstr_read)
  with cat show ?thesis by blast
qed

subsection \<open>Properties\<close>



text \<open>C27.  The string functions compute what their names say for strings in memory: strlen the
  length; strcmp zero exactly for equal strings and a negative value exactly when the first is
  lexicographically smaller in unsigned byte order; strcat, for a source apart from where it is
  copied to, leaves the concatenation at the destination.\<close>

theorem string_functions_correct:
  assumes "cstr m p a" "cstr m q b" "length a + length b < 2 ^ 32 - 1"
    "apart (p + of_nat (length a)) (Suc (length b)) q (Suc (length b))"
  shows "strlen m p = Some (of_nat (length a)) \<and>
    (\<exists>r. strcmp m p q = Some r \<and> (r = 0 \<longleftrightarrow> a = b) \<and> (r < 0 \<longleftrightarrow> ord_class.lexordp a b)) \<and>
    (\<exists>m'. strcat m p q = Some m' \<and> cstr m' p (a @ b))"
  using strlen_cstr [of m p 0 a] strcmp_cstr [OF assms(1,2)] strcat_cstr [OF assms] assms(1)
    cstring_cmp_zero [of a b] cstring_cmp_less [of a b] cstr_no_zero [OF assms(1)] cstr_no_zero [OF assms(2)]
  by (simp add: strlen_def)

theorem string_functions_correct_witness:
  "\<exists>m'. strcat ((\<lambda>_. 0)(100 := 65, 200 := 66)) 100 200 = Some m' \<and> cstr m' 100 ([65] @ [66])"
proof -
  let ?m = "((\<lambda>_. 0)(100 := 65, 200 := 66)) :: memory"
  have "cstr ?m 100 [65]" "cstr ?m 200 [66]" by simp_all
  moreover have "apart (100 + of_nat (length [65 :: u8])) (Suc (length [66 :: u8])) 200 (Suc (length [66 :: u8]))"
    by (auto simp: apart_def less_Suc_eq)
  ultimately show ?thesis using string_functions_correct [of ?m 100 "[65]" 200 "[66]"] by simp
qed

text \<open>strtok never finds a token: for any string with a character that is not a delimiter it
  returns the null pointer, although such a string has a token.\<close>

lemma strtok_returns_null:
  assumes "cstr m p s" "cstr m d ds" "\<not> set s \<subseteq> set ds"
  shows "strtok m saved (Some p) d = Some (m, None, None)"
  using strtok_scan_nondelim [of m p 0 s d ds None] assms by (simp add: strtok_def)

lemma strtok_returns_null_witness:
  "strtok ((\<lambda>_. 0)(100 := 65, 101 := 32, 102 := 66, 200 := 32)) None (Some 100) 200 =
     Some ((\<lambda>_. 0)(100 := 65, 101 := 32, 102 := 66, 200 := 32), None, None)"
  by (rule strtok_returns_null [of _ _ "[65, 32, 66]" _ "[32]"]) simp_all

text \<open>Other observations: \<^verbatim>\<open>strcoll\<close> finds all strings equal, since \<^verbatim>\<open>strxfrm\<close> always returns 0,
  and \<^verbatim>\<open>strtol\<close> takes every character below the letters as a digit.\<close>

lemma strlen_at_zero: "m d = 0 \<Longrightarrow> strlen m d = Some 0"
  unfolding strlen_def by (subst strlen_loop.simps) simp

lemma strcoll_always_equal: "strcoll m out1 out2 s1 s2 = Some 0"
proof -
  have "strlen (m'(d := 0)) d = Some 0" for m' :: memory and d by (simp add: strlen_at_zero)
  moreover have "strcmp (m(out1 := 0, out2 := 0)) out1 out2 = Some 0" by (subst strcmp.simps) simp
  ultimately show ?thesis by (simp add: strcoll_def strxfrm_def)
qed

lemma strtol_accepts_space:
  assumes "cstr m p [49, 32, 50]"
  shows "strtol m p 10 = Some (-448, Some (p + 3), None)"
proof -
  have mem: "m p = 49" "m (p + 1) = 32" "m (p + 2) = 50" "m (p + 3) = 0"
    using assms by (simp_all add: add.assoc)
  let ?ty = "\<lparr>it_min = - (2 ^ 31), it_max = 2 ^ 31 - 1, it_unsigned = False\<rparr>"
  note defs = IsDigitInBase_def isdigit_def tolower_def wrap_type_def in_type_def
  have "strto_loop ?ty m p False 10 p False 0 = strto_loop ?ty m p False 10 (p + 1) True 1"
    by (subst strto_loop.simps) (simp add: mem defs)
  also have "\<dots> = strto_loop ?ty m p False 10 (p + 2) True (-45)"
    by (subst strto_loop.simps) (simp add: mem defs add.assoc)
  also have "\<dots> = strto_loop ?ty m p False 10 (p + 3) True (-448)"
    by (subst strto_loop.simps) (simp add: mem defs add.assoc)
  also have "\<dots> = Some (-448, Some (p + 3), None)"
    by (subst strto_loop.simps) (simp add: mem)
  finally have "strto_loop ?ty m p False 10 p False 0 = Some (-448, Some (p + 3), None)" .
  moreover have "skip_spaces m p = Some p" by (subst skip_spaces.simps) (simp add: mem isspace_def)
  ultimately show ?thesis by (simp add: strtol_def strto_def mem)
qed

end
