(* ===== verification/PhysMem.thy ===== *)
theory PhysMem
  imports UserTransfer
begin

text \<open>
  The allocators of physical pages (kernel/mem/physical.c) and of swap slots
  (kernel/mem/swapfile.c).  Both keep one bit per page in an array of machine words; the physical
  allocator adds a stack of the free page numbers once the kernel has virtual memory.  Page numbers
  and counts are natural numbers; physical addresses are 32-bit words.  What the two promise is one
  interface, the locale \<open>page_allocator\<close>, which both implement.

  A call of \<^verbatim>\<open>EvictPagesIfNeeded\<close> that \<^verbatim>\<open>AllocPhys\<close> defers is counted in the state, and
  the last mode passed to \<^verbatim>\<open>SetDiskCaches\<close> is recorded there.  The spinlocks make the
  operations atomic.
\<close>

subsection \<open>Physical memory\<close>

datatype diskcache_mode = DISKCACHE_NORMAL | DISKCACHE_REDUCE | DISKCACHE_TOSS

record phys =
  ph_allocation_bitmap :: "u32 list"
  ph_allocation_stack :: "nat list option"   \<comment> \<open>None: not yet set up; the last element is the top\<close>
  ph_pages_left :: nat
  ph_total_pages :: nat
  ph_highest_page_index :: nat
  ph_evictions_deferred :: nat
  ph_cache_mode :: diskcache_mode

abbreviation (input) BITS_PER_ENTRY :: nat where "BITS_PER_ENTRY \<equiv> 32"
abbreviation (input) NUM_RESERVE_PAGES :: nat where "NUM_RESERVE_PAGES \<equiv> 32"

text \<open>The bitmap has \<^verbatim>\<open>BITMAP_ENTRIES\<close> words; on x86 they are 32768.\<close>

definition MAX_MEMORY_PAGES :: "phys \<Rightarrow> nat" where
  "MAX_MEMORY_PAGES p = BITS_PER_ENTRY * length (ph_allocation_bitmap p)"

definition IsBitmapEntryFree :: "phys \<Rightarrow> nat \<Rightarrow> bool" where
  "IsBitmapEntryFree p index =
     (let base = index div BITS_PER_ENTRY; offset = index mod BITS_PER_ENTRY in
      ph_allocation_bitmap p ! base AND push_bit offset 1 \<noteq> 0)"

definition AllocateBitmapEntry :: "phys \<Rightarrow> nat \<Rightarrow> phys kres" where
  "AllocateBitmapEntry p index =
     kassert (IsBitmapEntryFree p index)
       (let base = index div BITS_PER_ENTRY; offset = index mod BITS_PER_ENTRY; bm = ph_allocation_bitmap p in
        Inr (p\<lparr>ph_allocation_bitmap := bm[base := bm ! base AND NOT (push_bit offset 1)]\<rparr>))"

definition DeallocateBitmapEntry :: "phys \<Rightarrow> nat \<Rightarrow> phys kres" where
  "DeallocateBitmapEntry p index =
     kassert (\<not> IsBitmapEntryFree p index)
       (let base = index div BITS_PER_ENTRY; offset = index mod BITS_PER_ENTRY; bm = ph_allocation_bitmap p in
        Inr (p\<lparr>ph_allocation_bitmap := bm[base := bm ! base OR push_bit offset 1]\<rparr>))"

definition PushIndex :: "phys \<Rightarrow> nat \<Rightarrow> phys kres" where
  "PushIndex p index =
     kassert (index \<le> ph_highest_page_index p)
       (Inr (p\<lparr>ph_allocation_stack := map_option (\<lambda>st. st @ [index]) (ph_allocation_stack p)\<rparr>))"

definition PopIndex :: "phys \<Rightarrow> (phys \<times> nat) kres" where
  "PopIndex p =
     (case ph_allocation_stack p of
        None \<Rightarrow> Inl PANIC_UNHANDLED_KERNEL_EXCEPTION
      | Some st \<Rightarrow> kassert (st \<noteq> []) (Inr (p\<lparr>ph_allocation_stack := Some (butlast st)\<rparr>, last st)))"

text \<open>The loop of \<^verbatim>\<open>RemoveStackEntry\<close> removes the first occurrence.\<close>

fun remove_entry :: "nat \<Rightarrow> nat list \<Rightarrow> nat list" where
  "remove_entry index [] = []"
| "remove_entry index (x # xs) = (if x = index then xs else x # remove_entry index xs)"

definition RemoveStackEntry :: "phys \<Rightarrow> nat \<Rightarrow> phys" where
  "RemoveStackEntry p index = p\<lparr>ph_allocation_stack := map_option (remove_entry index) (ph_allocation_stack p)\<rparr>"

definition DeallocPhys :: "phys \<Rightarrow> u32 \<Rightarrow> phys kres" where
  "DeallocPhys p addr =
     kassert (unat addr mod 4096 = 0)
       (let page = unat addr div 4096 in
        kbind (DeallocateBitmapEntry (p\<lparr>ph_pages_left := ph_pages_left p + 1\<rparr>) page) (\<lambda>p.
        kbind (if ph_allocation_stack p \<noteq> None then PushIndex p page else Inr p) (\<lambda>p.
        Inr (if ph_pages_left p > NUM_RESERVE_PAGES * 2 then p\<lparr>ph_cache_mode := DISKCACHE_NORMAL\<rparr> else p))))"

fun dealloc_contiguous :: "phys \<Rightarrow> u32 \<Rightarrow> nat \<Rightarrow> phys kres" where
  "dealloc_contiguous p addr 0 = Inr p"
| "dealloc_contiguous p addr (Suc n) =
     kbind (DeallocPhys p addr) (\<lambda>p. dealloc_contiguous p (addr + ARCH_PAGE_SIZE) n)"

definition DeallocPhysContiguous :: "phys \<Rightarrow> u32 \<Rightarrow> u32 \<Rightarrow> phys kres" where
  "DeallocPhysContiguous p addr bytes = dealloc_contiguous p addr (unat (BytesToPages bytes))"

text \<open>The scan of the bitmap during boot: page 0, then downwards from the last page.\<close>

partial_function (option) bitmap_scan :: "phys \<Rightarrow> nat \<Rightarrow> nat option" where
  "bitmap_scan p index =
     (if IsBitmapEntryFree p index then Some index
      else bitmap_scan p ((index + MAX_MEMORY_PAGES p - 1) mod MAX_MEMORY_PAGES p))"

definition AllocPhys :: "phys \<Rightarrow> (phys \<times> u32) kres option" where
  "AllocPhys p =
     (if ph_pages_left p = 0 then Some (Inl PANIC_OUT_OF_PHYS)
      else
        let p = (if ph_pages_left p \<le> NUM_RESERVE_PAGES
                 then p\<lparr>ph_evictions_deferred := ph_evictions_deferred p + 1\<rparr> else p) in
        obind (if ph_allocation_stack p = None then map_option (\<lambda>i. Inr (p, i)) (bitmap_scan p 0)
               else Some (PopIndex p)) (\<lambda>(p, index).
        Some (kbind (AllocateBitmapEntry p index) (\<lambda>p.
          Inr (p\<lparr>ph_pages_left := ph_pages_left p - 1\<rparr>, of_nat index * ARCH_PAGE_SIZE)))))"

text \<open>The inner loop of \<^verbatim>\<open>AllocPhysContiguous\<close>, from \<open>start_index\<close> up to \<open>index\<close>; it returns the
  final value of \<open>start_index\<close> too.\<close>

function take_run :: "phys \<Rightarrow> nat \<Rightarrow> nat \<Rightarrow> (phys \<times> nat) kres" where
  "take_run p start_index index =
     (if start_index \<le> index
      then kbind (AllocateBitmapEntry p start_index) (\<lambda>p. take_run (RemoveStackEntry p start_index) (start_index + 1) index)
      else Inr (p, start_index))"
  by pat_completeness auto
termination
  by (relation "measure (\<lambda>(p, i, n). Suc n - i)") auto

function contiguous_loop :: "phys \<Rightarrow> nat \<Rightarrow> nat \<Rightarrow> nat \<Rightarrow> u32 \<Rightarrow> nat \<Rightarrow> (phys \<times> u32) kres" where
  "contiguous_loop p index max_index pages boundary cnt =
     (if index < max_index
      then let crossed_boundary = (boundary \<noteq> 0 \<and> index mod unat (boundary div ARCH_PAGE_SIZE) = 0) in
           if \<not> IsBitmapEntryFree p index \<or> crossed_boundary
           then contiguous_loop p (index + 1) max_index pages boundary 0
           else if cnt + 1 = pages
           then kbind (take_run p (index + 1 - (cnt + 1)) index) (\<lambda>(p, start_index).
                  Inr (p, of_nat start_index * ARCH_PAGE_SIZE))
           else contiguous_loop p (index + 1) max_index pages boundary (cnt + 1)
      else Inr (p, 0))"
  by pat_completeness auto
termination
  by (relation "measure (\<lambda>(p, i, n, _). n - i)") auto

declare take_run.simps [simp del] contiguous_loop.simps [simp del]

definition AllocPhysContiguous :: "phys \<Rightarrow> u32 \<Rightarrow> u32 \<Rightarrow> u32 \<Rightarrow> u32 \<Rightarrow> (phys \<times> u32) kres" where
  "AllocPhysContiguous p bytes min_addr max_addr boundary =
     (if ph_allocation_stack p = None then Inr (p, 0)
      else
        let pages = unat (BytesToPages bytes);
            min_index = unat ((min_addr + ARCH_PAGE_SIZE - 1) div ARCH_PAGE_SIZE);
            max_index = (if max_addr = 0 then ph_highest_page_index p + 1 else unat (max_addr div ARCH_PAGE_SIZE)) in
        if pages + NUM_RESERVE_PAGES \<ge> ph_pages_left p then Inr (p, 0)
        else contiguous_loop p min_index max_index pages boundary 0)"




text \<open>The part of \<^verbatim>\<open>ReinitPhys\<close> after the stack has been mapped.\<close>

fun push_free :: "phys \<Rightarrow> nat list \<Rightarrow> phys kres" where
  "push_free p [] = Inr p"
| "push_free p (i # is) = kbind (if IsBitmapEntryFree p i then PushIndex p i else Inr p) (\<lambda>p. push_free p is)"

fun reclaim_pages :: "(u32 \<Rightarrow> u32) \<Rightarrow> phys \<Rightarrow> u32 \<Rightarrow> nat \<Rightarrow> phys kres" where
  "reclaim_pages ArchVirtualToPhysical p region 0 = Inr p"
| "reclaim_pages ArchVirtualToPhysical p region (Suc n) =
     kbind (DeallocPhys p (ArchVirtualToPhysical region)) (\<lambda>p.
       reclaim_pages ArchVirtualToPhysical (p\<lparr>ph_total_pages := ph_total_pages p + 1\<rparr>) (region + ARCH_PAGE_SIZE) n)"

definition ReclaimBitmapSpace :: "(u32 \<Rightarrow> u32) \<Rightarrow> u32 \<Rightarrow> phys \<Rightarrow> phys kres" where
  "ReclaimBitmapSpace ArchVirtualToPhysical end_bitmap p =
     (let unreachable_pages = MAX_MEMORY_PAGES p - (ph_highest_page_index p + 1);
          unreachable_bitmap_pages = unreachable_pages div BITS_PER_ENTRY div 4096;
          unreachable_region = (end_bitmap - ARCH_PAGE_SIZE * of_nat unreachable_bitmap_pages) AND NOT (ARCH_PAGE_SIZE - 1) in
      reclaim_pages ArchVirtualToPhysical p unreachable_region unreachable_bitmap_pages)"

definition ReinitPhys :: "(u32 \<Rightarrow> u32) \<Rightarrow> u32 \<Rightarrow> phys \<Rightarrow> phys kres" where
  "ReinitPhys ArchVirtualToPhysical end_bitmap p =
     kassert (ph_allocation_stack p = None)
       (kbind (push_free (p\<lparr>ph_allocation_stack := Some []\<rparr>) [0..<MAX_MEMORY_PAGES p]) (\<lambda>p.
        ReclaimBitmapSpace ArchVirtualToPhysical end_bitmap p))"

definition GetTotalPhysKilobytes :: "phys \<Rightarrow> nat" where
  "GetTotalPhysKilobytes p = ph_total_pages p * (4096 div 1024)"

definition GetFreePhysKilobytes :: "phys \<Rightarrow> nat" where
  "GetFreePhysKilobytes p = ph_pages_left p * (4096 div 1024)"

subsection \<open>The swap file\<close>

record swap =
  sw_swapfile_bitmap :: "u8 list"
  sw_number_on_swapfile :: int
  sw_bits_in_bitmap :: nat

definition GetPageCountForBitmap :: "phys \<Rightarrow> nat" where
  "GetPageCountForBitmap p =
     (let accessible_per_page = 8 * 4096 * 4096;
          target_size = (GetTotalPhysKilobytes p * 4 + 32 * 1024) * 1024 mod 2 ^ 32 in
      (target_size + accessible_per_page - 1) div accessible_per_page)"

definition SetupSwapfileBitmap :: "phys \<Rightarrow> swap" where
  "SetupSwapfileBitmap p =
     (let pages_in_bitmap = GetPageCountForBitmap p in
      \<lparr>sw_swapfile_bitmap = replicate (pages_in_bitmap * 4096) 0, sw_number_on_swapfile = 0,
       sw_bits_in_bitmap = 8 * pages_in_bitmap * 4096\<rparr>)"

definition GetBitmapEntry :: "swap \<Rightarrow> nat \<Rightarrow> bool" where
  "GetBitmapEntry s index \<longleftrightarrow> sw_swapfile_bitmap s ! (index div 8) AND push_bit (index mod 8) 1 \<noteq> 0"

definition SetBitmapEntry :: "swap \<Rightarrow> nat \<Rightarrow> bool \<Rightarrow> swap" where
  "SetBitmapEntry s index value =
     (let bm = sw_swapfile_bitmap s; b = index div 8 in
      s\<lparr>sw_swapfile_bitmap := bm[b := (if value then bm ! b OR push_bit (index mod 8) 1
                                       else bm ! b AND NOT (push_bit (index mod 8) 1))]\<rparr>)"

fun swap_scan :: "swap \<Rightarrow> nat list \<Rightarrow> nat option" where
  "swap_scan s [] = None"
| "swap_scan s (i # is) = (if \<not> GetBitmapEntry s i then Some i else swap_scan s is)"

definition AllocSwap :: "swap \<Rightarrow> (swap \<times> nat) kres" where
  "AllocSwap s =
     (let s = s\<lparr>sw_number_on_swapfile := sw_number_on_swapfile s + 1\<rparr> in
      case swap_scan s [0..<sw_bits_in_bitmap s] of
        None \<Rightarrow> Inl PANIC_OUT_OF_SWAPFILE
      | Some i \<Rightarrow> Inr (SetBitmapEntry s i True, i))"

definition DeallocSwap :: "swap \<Rightarrow> nat \<Rightarrow> swap" where
  "DeallocSwap s index = SetBitmapEntry (s\<lparr>sw_number_on_swapfile := sw_number_on_swapfile s - 1\<rparr>) index False"

definition GetSwapCount :: "swap \<Rightarrow> int" where
  "GetSwapCount s = sw_number_on_swapfile s"

subsection \<open>Bitmaps\<close>

lemma div_mod_eq_iff: "(i :: nat) div k = j div k \<and> i mod k = j mod k \<longleftrightarrow> i = j"
  by (metis div_mult_mod_eq)

lemma bitmap_clear:
  assumes "0 < k" "k \<le> LENGTH('a)" "i < k * length bm" "j < k * length bm"
  shows "bit (bm[i div k := bm ! (i div k) AND NOT (push_bit (i mod k) 1)] ! (j div k)) (j mod k) \<longleftrightarrow>
    j \<noteq> i \<and> bit (bm ! (j div k) :: 'a::len word) (j mod k)"
proof -
  have "i div k < length bm" "j div k < length bm" "j mod k < LENGTH('a)"
    using assms by (auto simp: less_mult_imp_div_less mult.commute intro: less_le_trans [OF mod_less_divisor])
  moreover have "i div k = j div k \<Longrightarrow> i mod k = j mod k \<longleftrightarrow> i = j" using div_mod_eq_iff [of i k j] by blast
  ultimately show ?thesis
    by (cases "i div k = j div k")
       (auto simp: bit_and_iff bit_not_iff bit_exp_iff nth_list_update)
qed

lemma bitmap_set:
  assumes "0 < k" "k \<le> LENGTH('a)" "i < k * length bm" "j < k * length bm"
  shows "bit (bm[i div k := bm ! (i div k) OR push_bit (i mod k) 1] ! (j div k)) (j mod k) \<longleftrightarrow>
    j = i \<or> bit (bm ! (j div k) :: 'a::len word) (j mod k)"
proof -
  have "i div k < length bm" "j div k < length bm" "j mod k < LENGTH('a)"
    using assms by (auto simp: less_mult_imp_div_less mult.commute intro: less_le_trans [OF mod_less_divisor])
  moreover have "i div k = j div k \<Longrightarrow> i mod k = j mod k \<longleftrightarrow> i = j" using div_mod_eq_iff [of i k j] by blast
  ultimately show ?thesis
    by (cases "i div k = j div k")
       (auto simp: bit_or_iff bit_exp_iff nth_list_update)
qed

lemma IsBitmapEntryFree_bit:
  "IsBitmapEntryFree p i \<longleftrightarrow> bit (ph_allocation_bitmap p ! (i div 32)) (i mod 32)"
  by (simp add: IsBitmapEntryFree_def bit_iff_and_push_bit_not_eq_0)

lemma GetBitmapEntry_bit:
  "GetBitmapEntry s i \<longleftrightarrow> bit (sw_swapfile_bitmap s ! (i div 8)) (i mod 8)"
  by (simp add: GetBitmapEntry_def bit_iff_and_push_bit_not_eq_0)

text \<open>The free pages, and what the bitmap operations do to them.\<close>

definition free_pages :: "phys \<Rightarrow> nat set" where
  "free_pages p = {i. i < MAX_MEMORY_PAGES p \<and> IsBitmapEntryFree p i}"

lemma finite_free_pages [simp]: "finite (free_pages p)"
  by (rule finite_subset [of _ "{..<MAX_MEMORY_PAGES p}"]) (auto simp: free_pages_def)

lemma free_pages_bitmap:
  "ph_allocation_bitmap p' = ph_allocation_bitmap p \<Longrightarrow> free_pages p' = free_pages p"
  "ph_allocation_bitmap p' = ph_allocation_bitmap p \<Longrightarrow> MAX_MEMORY_PAGES p' = MAX_MEMORY_PAGES p"
  by (simp_all add: free_pages_def MAX_MEMORY_PAGES_def IsBitmapEntryFree_bit)

lemma AllocateBitmapEntry_ok:
  assumes "i \<in> free_pages p"
  obtains bm where "AllocateBitmapEntry p i = Inr (p\<lparr>ph_allocation_bitmap := bm\<rparr>)"
    "length bm = length (ph_allocation_bitmap p)"
    "free_pages (p\<lparr>ph_allocation_bitmap := bm\<rparr>) = free_pages p - {i}"
proof -
  let ?bm = "ph_allocation_bitmap p"
  let ?bm' = "?bm[i div 32 := ?bm ! (i div 32) AND NOT (push_bit (i mod 32) 1)]"
  have i: "i < 32 * length ?bm" "IsBitmapEntryFree p i" using assms by (simp_all add: free_pages_def MAX_MEMORY_PAGES_def)
  have "free_pages (p\<lparr>ph_allocation_bitmap := ?bm'\<rparr>) = free_pages p - {i}"
    using bitmap_clear [of 32 i ?bm] i
    by (auto simp: free_pages_def MAX_MEMORY_PAGES_def IsBitmapEntryFree_bit)
  moreover have "AllocateBitmapEntry p i = Inr (p\<lparr>ph_allocation_bitmap := ?bm'\<rparr>)"
    using i by (simp add: AllocateBitmapEntry_def Let_def)
  ultimately show thesis using that by simp
qed

lemma DeallocateBitmapEntry_ok:
  assumes "i < MAX_MEMORY_PAGES p" "i \<notin> free_pages p"
  obtains bm where "DeallocateBitmapEntry p i = Inr (p\<lparr>ph_allocation_bitmap := bm\<rparr>)"
    "length bm = length (ph_allocation_bitmap p)"
    "free_pages (p\<lparr>ph_allocation_bitmap := bm\<rparr>) = insert i (free_pages p)"
proof -
  let ?bm = "ph_allocation_bitmap p"
  let ?bm' = "?bm[i div 32 := ?bm ! (i div 32) OR push_bit (i mod 32) 1]"
  have i: "i < 32 * length ?bm" "\<not> IsBitmapEntryFree p i"
    using assms by (simp_all add: free_pages_def MAX_MEMORY_PAGES_def)
  have "free_pages (p\<lparr>ph_allocation_bitmap := ?bm'\<rparr>) = insert i (free_pages p)"
    using bitmap_set [of 32 i ?bm] i
    by (auto simp: free_pages_def MAX_MEMORY_PAGES_def IsBitmapEntryFree_bit)
  moreover have "DeallocateBitmapEntry p i = Inr (p\<lparr>ph_allocation_bitmap := ?bm'\<rparr>)"
    using i by (simp add: DeallocateBitmapEntry_def Let_def)
  ultimately show thesis using that by simp
qed

text \<open>The invariant of the physical allocator.\<close>

definition phys_ok :: "phys \<Rightarrow> bool" where
  "phys_ok p \<longleftrightarrow> MAX_MEMORY_PAGES p \<le> 2 ^ 20 \<and> ph_pages_left p = card (free_pages p) \<and>
     (\<forall>i\<in>free_pages p. i \<le> ph_highest_page_index p) \<and>
     (case ph_allocation_stack p of None \<Rightarrow> True | Some st \<Rightarrow> distinct st \<and> set st = free_pages p)"

lemma unat_page_address: "i < 2 ^ 20 \<Longrightarrow> unat (of_nat i * ARCH_PAGE_SIZE) = i * 4096"
  by (simp add: unat_word_ariths(2) unat_of_nat take_bit_nat_eq_self)

lemma bitmap_scan_reaches:
  "index < MAX_MEMORY_PAGES p \<Longrightarrow> d < MAX_MEMORY_PAGES p \<Longrightarrow>
   (index + MAX_MEMORY_PAGES p - d) mod MAX_MEMORY_PAGES p \<in> free_pages p \<Longrightarrow>
   \<exists>i\<in>free_pages p. bitmap_scan p index = Some i"
proof (induction d arbitrary: index)
  case 0
  then have "index \<in> free_pages p" by simp
  then show ?case by (subst bitmap_scan.simps) (auto simp: free_pages_def)
next
  case (Suc d)
  let ?N = "MAX_MEMORY_PAGES p"
  show ?case
  proof (cases "IsBitmapEntryFree p index")
    case True
    with Suc.prems(1) have "index \<in> free_pages p" by (simp add: free_pages_def)
    with True show ?thesis by (subst bitmap_scan.simps) auto
  next
    case False
    let ?i = "(index + ?N - 1) mod ?N"
    have "(?i + ?N - d) mod ?N = (index + ?N - Suc d) mod ?N"
    proof (cases index)
      case 0
      with Suc.prems(2) have "?i + ?N - d = (?N - Suc d) + ?N" by simp
      with 0 show ?thesis by simp
    next
      case (Suc k)
      with Suc.prems(1) have "?i = k" by (simp add: mod_if)
      with Suc show ?thesis by simp
    qed
    with Suc.prems have "\<exists>i\<in>free_pages p. bitmap_scan p ?i = Some i" by (intro Suc.IH) simp_all
    with False show ?thesis by (subst bitmap_scan.simps) simp
  qed
qed

lemma bitmap_scan_finds:
  assumes "free_pages p \<noteq> {}"
  obtains i where "i \<in> free_pages p" "bitmap_scan p 0 = Some i"
proof -
  let ?N = "MAX_MEMORY_PAGES p"
  obtain j where j: "j \<in> free_pages p" "j < ?N" using assms by (auto simp: free_pages_def)
  have "\<exists>i\<in>free_pages p. bitmap_scan p 0 = Some i"
    by (rule bitmap_scan_reaches [of _ _ "if j = 0 then 0 else ?N - j"]) (use j in auto)
  with that show thesis by blast
qed

lemma phys_okD:
  assumes "phys_ok p"
  shows "ph_pages_left p = card (free_pages p)" "i \<in> free_pages p \<Longrightarrow> i < 2 ^ 20"
    "ph_allocation_stack p = Some st \<Longrightarrow> distinct st \<and> set st = free_pages p"
  using assms by (auto simp: phys_ok_def free_pages_def)

text \<open>Taking one page out of a good state leaves a good state.\<close>

lemma phys_ok_take:
  assumes ok: "phys_ok p" and i: "i \<in> free_pages p"
    and stack: "case ph_allocation_stack p' of None \<Rightarrow> True | Some st \<Rightarrow> distinct st \<and> set st = free_pages p - {i}"
    and rest: "ph_highest_page_index p' = ph_highest_page_index p" "ph_pages_left p' = ph_pages_left p - 1"
      "length (ph_allocation_bitmap p') = length (ph_allocation_bitmap p)" "free_pages p' = free_pages p - {i}"
  shows "phys_ok p'"
  using assms by (auto simp: phys_ok_def MAX_MEMORY_PAGES_def split: option.splits)

lemma AllocPhys_ok:
  assumes ok: "phys_ok p" and "free_pages p \<noteq> {}"
  obtains p' i where "AllocPhys p = Some (Inr (p', of_nat i * ARCH_PAGE_SIZE))" "i \<in> free_pages p"
    "free_pages p' = free_pages p - {i}" "phys_ok p'" "MAX_MEMORY_PAGES p' = MAX_MEMORY_PAGES p"
    "ph_highest_page_index p' = ph_highest_page_index p" "ph_allocation_stack p' = None \<longleftrightarrow> ph_allocation_stack p = None"
proof -
  have left: "ph_pages_left p \<noteq> 0" using phys_okD(1) [OF ok] assms(2) by simp
  define q where "q = (if ph_pages_left p \<le> NUM_RESERVE_PAGES
                       then p\<lparr>ph_evictions_deferred := ph_evictions_deferred p + 1\<rparr> else p)"
  have q: "ph_allocation_bitmap q = ph_allocation_bitmap p" "ph_allocation_stack q = ph_allocation_stack p"
    "ph_pages_left q = ph_pages_left p" "ph_highest_page_index q = ph_highest_page_index p"
    by (simp_all add: q_def)
  note fq = free_pages_bitmap [OF q(1)]
  show thesis
  proof (cases "ph_allocation_stack p")
    case None
    obtain i where i: "i \<in> free_pages p" "bitmap_scan q 0 = Some i"
      using bitmap_scan_finds [of q] assms(2) fq by auto
    obtain bm where bm: "AllocateBitmapEntry q i = Inr (q\<lparr>ph_allocation_bitmap := bm\<rparr>)"
      "length bm = length (ph_allocation_bitmap q)" "free_pages (q\<lparr>ph_allocation_bitmap := bm\<rparr>) = free_pages q - {i}"
      by (rule AllocateBitmapEntry_ok [of i q]) (use i(1) fq(1) in auto)
    let ?p = "q\<lparr>ph_allocation_bitmap := bm, ph_pages_left := ph_pages_left q - 1\<rparr>"
    have free: "free_pages ?p = free_pages p - {i}"
      using bm(3) fq(1) free_pages_bitmap(1) [of ?p "q\<lparr>ph_allocation_bitmap := bm\<rparr>"] by simp
    show thesis
    proof (rule that [of ?p i])
      show "AllocPhys p = Some (Inr (?p, of_nat i * ARCH_PAGE_SIZE))"
        using left None i(2) bm(1) q by (simp add: AllocPhys_def q_def [symmetric] Let_def)
      show "phys_ok ?p" by (rule phys_ok_take [OF ok i(1)]) (use None bm(2) q free in simp_all)
    qed (use i free bm(2) q None in \<open>simp_all add: MAX_MEMORY_PAGES_def\<close>)
  next
    case (Some st)
    have st: "distinct st" "set st = free_pages p" using phys_okD(3) [OF ok Some] by simp_all
    with assms(2) obtain rest i where snoc: "st = rest @ [i]" by (cases st rule: rev_cases) auto
    let ?r = "q\<lparr>ph_allocation_stack := Some rest\<rparr>"
    have i: "i \<in> free_pages p" "set rest = free_pages p - {i}" using st snoc by auto
    have fr: "free_pages ?r = free_pages p" using free_pages_bitmap(1) [of ?r q] fq(1) by simp
    obtain bm where bm: "AllocateBitmapEntry ?r i = Inr (?r\<lparr>ph_allocation_bitmap := bm\<rparr>)"
      "length bm = length (ph_allocation_bitmap ?r)" "free_pages (?r\<lparr>ph_allocation_bitmap := bm\<rparr>) = free_pages ?r - {i}"
      by (rule AllocateBitmapEntry_ok [of i ?r]) (use i(1) fr in auto)
    let ?p = "?r\<lparr>ph_allocation_bitmap := bm, ph_pages_left := ph_pages_left q - 1\<rparr>"
    have free: "free_pages ?p = free_pages p - {i}"
      using bm(3) fr free_pages_bitmap(1) [of ?p "?r\<lparr>ph_allocation_bitmap := bm\<rparr>"] by simp
    show thesis
    proof (rule that [of ?p i])
      show "AllocPhys p = Some (Inr (?p, of_nat i * ARCH_PAGE_SIZE))"
        using left Some bm(1) q snoc by (simp add: AllocPhys_def q_def [symmetric] Let_def PopIndex_def)
      show "phys_ok ?p" by (rule phys_ok_take [OF ok i(1)]) (use st snoc i bm(2) q free in simp_all)
    qed (use i free bm(2) q Some in \<open>simp_all add: MAX_MEMORY_PAGES_def\<close>)
  qed
qed

lemma AllocPhys_empty:
  assumes "phys_ok p" "free_pages p = {}"
  shows "AllocPhys p = Some (Inl PANIC_OUT_OF_PHYS)"
  using phys_okD(1) [OF assms(1)] assms(2) by (simp add: AllocPhys_def)

lemma DeallocPhys_ok:
  assumes ok: "phys_ok p" and addr: "unat addr = i * 4096"
    and i: "i < MAX_MEMORY_PAGES p" "i \<notin> free_pages p" "i \<le> ph_highest_page_index p"
  obtains p' where "DeallocPhys p addr = Inr p'" "free_pages p' = insert i (free_pages p)" "phys_ok p'"
    "MAX_MEMORY_PAGES p' = MAX_MEMORY_PAGES p" "ph_highest_page_index p' = ph_highest_page_index p"
    "ph_allocation_stack p' = None \<longleftrightarrow> ph_allocation_stack p = None"
proof -
  let ?q = "p\<lparr>ph_pages_left := ph_pages_left p + 1\<rparr>"
  have fq: "free_pages ?q = free_pages p" "MAX_MEMORY_PAGES ?q = MAX_MEMORY_PAGES p"
    using free_pages_bitmap [of ?q p] by simp_all
  obtain bm where bm: "DeallocateBitmapEntry ?q i = Inr (?q\<lparr>ph_allocation_bitmap := bm\<rparr>)"
    "length bm = length (ph_allocation_bitmap ?q)"
    "free_pages (?q\<lparr>ph_allocation_bitmap := bm\<rparr>) = insert i (free_pages ?q)"
    by (rule DeallocateBitmapEntry_ok [of i ?q]) (use i fq in auto)
  let ?r = "?q\<lparr>ph_allocation_bitmap := bm, ph_allocation_stack := map_option (\<lambda>st. st @ [i]) (ph_allocation_stack p)\<rparr>"
  let ?p = "if ph_pages_left ?r > 64 then ?r\<lparr>ph_cache_mode := DISKCACHE_NORMAL\<rparr> else ?r"
  have same: "ph_allocation_bitmap ?p = bm" "ph_highest_page_index ?p = ph_highest_page_index p"
    "ph_pages_left ?p = ph_pages_left p + 1"
    "ph_allocation_stack ?p = map_option (\<lambda>st. st @ [i]) (ph_allocation_stack p)" by simp_all
  have free: "free_pages ?p = insert i (free_pages p)"
    using bm(3) fq(1) free_pages_bitmap(1) [of ?p "?q\<lparr>ph_allocation_bitmap := bm\<rparr>"] same(1) by simp
  have max_eq: "MAX_MEMORY_PAGES ?p = MAX_MEMORY_PAGES p" using bm(2) same(1) by (simp add: MAX_MEMORY_PAGES_def)
  show thesis
  proof (rule that [of ?p])
    show "DeallocPhys p addr = Inr ?p"
      using addr bm(1) i(3)
      by (cases "ph_allocation_stack p") (simp_all add: DeallocPhys_def PushIndex_def Let_def)
    show "phys_ok ?p" unfolding phys_ok_def max_eq free same
      using ok i by (auto simp: phys_ok_def split: option.splits)
  qed (use free max_eq same in simp_all)
qed

lemma DeallocPhys_double_free:
  assumes "unat addr = i * 4096" "i \<in> free_pages p"
  shows "DeallocPhys p addr = Inl PANIC_ASSERTION_FAILURE"
proof -
  have "IsBitmapEntryFree (p\<lparr>ph_pages_left := ph_pages_left p + 1\<rparr>) i"
    using assms(2) by (simp add: free_pages_def IsBitmapEntryFree_bit)
  with assms(1) show ?thesis by (simp add: DeallocPhys_def DeallocateBitmapEntry_def Let_def)
qed

subsection \<open>Contiguous allocation\<close>

lemma set_remove_entry: "distinct st \<Longrightarrow> set (remove_entry i st) = set st - {i} \<and> distinct (remove_entry i st)"
  by (induction st) auto

text \<open>The stack agrees with the bitmap.\<close>

definition stack_ok :: "phys \<Rightarrow> bool" where
  "stack_ok p \<longleftrightarrow> (case ph_allocation_stack p of None \<Rightarrow> True | Some st \<Rightarrow> distinct st \<and> set st = free_pages p)"

lemma take_run_correct:
  "{start..index} \<subseteq> free_pages p \<Longrightarrow> start \<le> Suc index \<Longrightarrow> stack_ok p \<Longrightarrow>
   \<exists>p'. take_run p start index = Inr (p', Suc index) \<and> free_pages p' = free_pages p - {start..index} \<and>
        ph_pages_left p' = ph_pages_left p \<and> MAX_MEMORY_PAGES p' = MAX_MEMORY_PAGES p \<and> stack_ok p'"
proof (induction "Suc index - start" arbitrary: p start)
  case 0
  then have "start = Suc index" by simp
  with 0 show ?case by (subst take_run.simps) simp
next
  case (Suc d)
  have le: "start \<le> index" using Suc.hyps(2) by simp
  then have "start \<in> free_pages p" using Suc.prems(1) by auto
  then obtain bm where bm: "AllocateBitmapEntry p start = Inr (p\<lparr>ph_allocation_bitmap := bm\<rparr>)"
    "length bm = length (ph_allocation_bitmap p)" "free_pages (p\<lparr>ph_allocation_bitmap := bm\<rparr>) = free_pages p - {start}"
    by (rule AllocateBitmapEntry_ok)
  let ?q = "RemoveStackEntry (p\<lparr>ph_allocation_bitmap := bm\<rparr>) start"
  have q: "free_pages ?q = free_pages p - {start}" "ph_pages_left ?q = ph_pages_left p"
    "MAX_MEMORY_PAGES ?q = MAX_MEMORY_PAGES p"
    using bm(2,3) free_pages_bitmap(1) [of ?q "p\<lparr>ph_allocation_bitmap := bm\<rparr>"]
    by (simp_all add: RemoveStackEntry_def MAX_MEMORY_PAGES_def)
  moreover have "stack_ok ?q"
    using Suc.prems(3) q(1) set_remove_entry
    by (auto simp: stack_ok_def RemoveStackEntry_def split: option.splits)
  moreover have "{start + 1..index} \<subseteq> free_pages ?q" using Suc.prems(1) q(1) by auto
  ultimately obtain p' where "take_run ?q (start + 1) index = Inr (p', Suc index)"
    "free_pages p' = free_pages ?q - {start + 1..index}" "ph_pages_left p' = ph_pages_left ?q"
    "MAX_MEMORY_PAGES p' = MAX_MEMORY_PAGES ?q" "stack_ok p'"
    using Suc.hyps(1) [of "start + 1" ?q] Suc.hyps(2) le by (metis Suc_diff_Suc Suc_eq_plus1 Suc_le_mono diff_Suc_Suc nat.inject le_imp_less_Suc)
  moreover have "{start..index} = insert start {start + 1..index}" using le by auto
  ultimately show ?case using le bm(1) q by (subst take_run.simps) auto
qed

lemma contiguous_loop_correct:
  assumes "stack_ok p" "max_index \<le> MAX_MEMORY_PAGES p" "lo \<le> index - cnt" "cnt \<le> index"
    "{index - cnt..<index} \<subseteq> free_pages p" "cnt < pages"
  shows "contiguous_loop p index max_index pages boundary cnt = Inr (p, 0) \<or>
    (\<exists>p' start. contiguous_loop p index max_index pages boundary cnt = Inr (p', of_nat (start + pages) * ARCH_PAGE_SIZE) \<and>
       {start..<start + pages} \<subseteq> free_pages p \<and> free_pages p' = free_pages p - {start..<start + pages} \<and>
       ph_pages_left p' = ph_pages_left p \<and> lo \<le> start \<and> start + pages \<le> max_index)"
  using assms(3-6)
proof (induction "max_index - index" arbitrary: index cnt)
  case 0
  then show ?case by (subst (1) contiguous_loop.simps) simp
next
  case (Suc d)
  have lt: "index < max_index" and d: "d = max_index - (index + 1)" using Suc.hyps(2) by simp_all
  let ?crossed = "boundary \<noteq> 0 \<and> index mod unat (boundary div ARCH_PAGE_SIZE) = 0"
  consider (reset) "\<not> IsBitmapEntryFree p index \<or> ?crossed"
    | (found) "IsBitmapEntryFree p index" "\<not> ?crossed" "cnt + 1 = pages"
    | (more) "IsBitmapEntryFree p index" "\<not> ?crossed" "cnt + 1 \<noteq> pages" by blast
  then show ?case
  proof cases
    case reset
    then have step: "contiguous_loop p index max_index pages boundary cnt = contiguous_loop p (index + 1) max_index pages boundary 0"
      using lt by (subst contiguous_loop.simps) (simp add: Let_def)
    show ?thesis unfolding step by (rule Suc.hyps(1) [OF d]) (use Suc.prems in auto)
  next
    case found
    let ?s = "index - cnt"
    have "index \<in> free_pages p" using found(1) lt assms(2) by (simp add: free_pages_def)
    moreover have run: "{?s..<?s + pages} = insert index {?s..<index}" "{?s..index} = {?s..<?s + pages}" "?s + pages = Suc index"
      using Suc.prems(2) found(3) by auto
    ultimately have sub: "{?s..index} \<subseteq> free_pages p" using Suc.prems(3) by simp
    obtain p' where p': "take_run p ?s index = Inr (p', Suc index)" "free_pages p' = free_pages p - {?s..index}"
      "ph_pages_left p' = ph_pages_left p"
      using take_run_correct [OF sub _ assms(1)] Suc.prems(2) by force
    have "contiguous_loop p index max_index pages boundary cnt = Inr (p', of_nat (?s + pages) * ARCH_PAGE_SIZE)"
      unfolding run(3) using lt found(1,2) p'(1)
      by (subst contiguous_loop.simps) (auto simp: Let_def found(3) [symmetric] simp del: of_nat_Suc)
    moreover have "?s + pages \<le> max_index" using run(3) lt by simp
    ultimately show ?thesis using sub p'(2,3) run(2) Suc.prems(1) by metis
  next
    case more
    have "index \<in> free_pages p" using more(1) lt assms(2) by (simp add: free_pages_def)
    moreover have "{index + 1 - (cnt + 1)..<index + 1} = insert index {index - cnt..<index}" using Suc.prems(2) by auto
    ultimately have sub: "{index + 1 - (cnt + 1)..<index + 1} \<subseteq> free_pages p" using Suc.prems(3) by simp
    have step: "contiguous_loop p index max_index pages boundary cnt = contiguous_loop p (index + 1) max_index pages boundary (cnt + 1)"
      using lt more by (subst contiguous_loop.simps) (auto simp: Let_def)
    show ?thesis unfolding step by (rule Suc.hyps(1) [OF d _ _ sub]) (use Suc.prems more(3) in auto)
  qed
qed

subsection \<open>The swap slots\<close>

definition free_slots :: "swap \<Rightarrow> nat set" where
  "free_slots s = {i. i < sw_bits_in_bitmap s \<and> \<not> GetBitmapEntry s i}"

definition swap_ok :: "swap \<Rightarrow> bool" where
  "swap_ok s \<longleftrightarrow> sw_bits_in_bitmap s = 8 * length (sw_swapfile_bitmap s) \<and>
     sw_number_on_swapfile s = int (sw_bits_in_bitmap s) - int (card (free_slots s))"

lemma finite_free_slots [simp]: "finite (free_slots s)"
  by (rule finite_subset [of _ "{..<sw_bits_in_bitmap s}"]) (auto simp: free_slots_def)

lemma swap_scan_Some: "swap_scan s is = Some i \<Longrightarrow> i \<in> set is \<and> \<not> GetBitmapEntry s i"
  by (induction "is") (auto split: if_splits)

lemma swap_scan_None: "swap_scan s is = None \<longleftrightarrow> (\<forall>i\<in>set is. GetBitmapEntry s i)"
  by (induction "is") auto

lemma free_slots_SetBitmapEntry:
  assumes "sw_bits_in_bitmap s = 8 * length (sw_swapfile_bitmap s)" "i < sw_bits_in_bitmap s"
  shows "free_slots (SetBitmapEntry s i b) = (if b then free_slots s - {i} else insert i (free_slots s))"
  using assms bitmap_set [of 8 i "sw_swapfile_bitmap s"] bitmap_clear [of 8 i "sw_swapfile_bitmap s"]
  by (cases b) (auto simp: free_slots_def SetBitmapEntry_def GetBitmapEntry_bit Let_def)

lemma free_slots_number [simp]: "free_slots (s\<lparr>sw_number_on_swapfile := n\<rparr>) = free_slots s"
  by (simp add: free_slots_def GetBitmapEntry_bit)

lemma SetBitmapEntry_fields [simp]:
  "sw_bits_in_bitmap (SetBitmapEntry s i b) = sw_bits_in_bitmap s"
  "sw_number_on_swapfile (SetBitmapEntry s i b) = sw_number_on_swapfile s"
  "length (sw_swapfile_bitmap (SetBitmapEntry s i b)) = length (sw_swapfile_bitmap s)"
  by (simp_all add: SetBitmapEntry_def Let_def)

lemma AllocSwap_ok:
  assumes ok: "swap_ok s" and "free_slots s \<noteq> {}"
  shows "\<exists>s' i. AllocSwap s = Inr (s', i) \<and> i \<in> free_slots s \<and> free_slots s' = free_slots s - {i} \<and>
    sw_bits_in_bitmap s' = sw_bits_in_bitmap s \<and> swap_ok s'"
proof -
  let ?s = "s\<lparr>sw_number_on_swapfile := sw_number_on_swapfile s + 1\<rparr>"
  have get: "GetBitmapEntry ?s = GetBitmapEntry s" by (rule ext) (simp add: GetBitmapEntry_bit)
  obtain i where i: "swap_scan ?s [0..<sw_bits_in_bitmap s] = Some i"
    using assms(2) swap_scan_None [of ?s "[0..<sw_bits_in_bitmap s]"] get by (auto simp: free_slots_def)
  then have free: "i \<in> free_slots s" using swap_scan_Some [OF i] get by (simp add: free_slots_def)
  have slots: "free_slots (SetBitmapEntry ?s i True) = free_slots s - {i}"
    using free_slots_SetBitmapEntry [of ?s i True] ok free by (simp add: swap_ok_def free_slots_def [of s])
  have "0 < card (free_slots s)" using free by (auto simp: card_gt_0_iff)
  then have "swap_ok (SetBitmapEntry ?s i True)" using ok free slots by (simp add: swap_ok_def of_nat_diff)
  then show ?thesis using i free slots by (simp add: AllocSwap_def Let_def)
qed

lemma AllocSwap_full:
  assumes "free_slots s = {}"
  shows "AllocSwap s = Inl PANIC_OUT_OF_SWAPFILE"
proof -
  have "swap_scan (s\<lparr>sw_number_on_swapfile := sw_number_on_swapfile s + 1\<rparr>) [0..<sw_bits_in_bitmap s] = None"
    using assms unfolding swap_scan_None by (auto simp: free_slots_def GetBitmapEntry_bit)
  then show ?thesis by (simp add: AllocSwap_def Let_def)
qed

lemma DeallocSwap_ok:
  assumes ok: "swap_ok s" and i: "i < sw_bits_in_bitmap s" "i \<notin> free_slots s"
  shows "free_slots (DeallocSwap s i) = insert i (free_slots s) \<and> swap_ok (DeallocSwap s i) \<and>
    sw_bits_in_bitmap (DeallocSwap s i) = sw_bits_in_bitmap s"
proof -
  have slots: "free_slots (DeallocSwap s i) = insert i (free_slots s)"
    using free_slots_SetBitmapEntry [of "s\<lparr>sw_number_on_swapfile := sw_number_on_swapfile s - 1\<rparr>" i False] ok i(1)
    by (simp add: DeallocSwap_def swap_ok_def)
  then have "swap_ok (DeallocSwap s i)" using ok i(2) unfolding swap_ok_def slots by (simp add: DeallocSwap_def)
  with slots show ?thesis by (simp add: DeallocSwap_def)
qed

subsection \<open>What an allocator promises\<close>

text \<open>A client that takes pages and gives back pages it holds: \<open>Give k\<close> returns the \<open>k\<close>-th page of
  the list \<open>held\<close>.\<close>

datatype request = Take | Give nat

fun run_requests ::
    "('s \<Rightarrow> ('s \<times> nat) kres option) \<Rightarrow> ('s \<Rightarrow> nat \<Rightarrow> 's kres) \<Rightarrow> 's \<Rightarrow> nat list \<Rightarrow> request list \<Rightarrow>
     ('s \<times> nat list) kres option" where
  "run_requests alloc dealloc s held [] = Some (Inr (s, held))"
| "run_requests alloc dealloc s held (Take # rs) =
     obind (alloc s) (\<lambda>(s, i). run_requests alloc dealloc s (i # held) rs)"
| "run_requests alloc dealloc s held (Give k # rs) =
     (if k < length held
      then obind (Some (dealloc s (held ! k))) (\<lambda>s. run_requests alloc dealloc s (remove_nth k held) rs)
      else run_requests alloc dealloc s held rs)"

definition takes :: "request list \<Rightarrow> nat" where
  "takes rs = length (filter ((=) Take) rs)"

lemma set_remove_nth:
  "k < length xs \<Longrightarrow> distinct xs \<Longrightarrow> set (remove_nth k xs) = set xs - {xs ! k} \<and> distinct (remove_nth k xs)"
proof -
  assume k: "k < length xs" and d: "distinct xs"
  have xs: "xs = take k xs @ xs ! k # drop (Suc k) xs" using k by (simp add: id_take_nth_drop)
  then have "distinct (take k xs @ xs ! k # drop (Suc k) xs)" using d by simp
  then have "xs ! k \<notin> set (take k xs @ drop (Suc k) xs)" "distinct (take k xs @ drop (Suc k) xs)" by auto
  moreover have "set xs = insert (xs ! k) (set (take k xs @ drop (Suc k) xs))" by (subst xs) auto
  ultimately show ?thesis by (simp add: remove_nth_def)
qed

locale page_allocator =
  fixes ok :: "'s \<Rightarrow> bool" and universe free :: "'s \<Rightarrow> nat set"
    and alloc :: "'s \<Rightarrow> ('s \<times> nat) kres option" and dealloc :: "'s \<Rightarrow> nat \<Rightarrow> 's kres"
  assumes finite_free: "ok s \<Longrightarrow> finite (free s)"
    and alloc_free: "ok s \<Longrightarrow> free s \<noteq> {} \<Longrightarrow>
      \<exists>s' i. alloc s = Some (Inr (s', i)) \<and> i \<in> free s \<and> free s' = free s - {i} \<and> universe s' = universe s \<and> ok s'"
    and alloc_exhausted: "ok s \<Longrightarrow> free s = {} \<Longrightarrow> \<exists>e. alloc s = Some (Inl e)"
    and dealloc_taken: "ok s \<Longrightarrow> i \<in> universe s \<Longrightarrow> i \<notin> free s \<Longrightarrow>
      \<exists>s'. dealloc s i = Inr s' \<and> free s' = insert i (free s) \<and> universe s' = universe s \<and> ok s'"
    and free_universe: "ok s \<Longrightarrow> free s \<subseteq> universe s"
begin

lemma run_exclusive:
  "ok s \<Longrightarrow> distinct held \<Longrightarrow> set held \<inter> free s = {} \<Longrightarrow> set held \<subseteq> universe s \<Longrightarrow> takes rs \<le> card (free s) \<Longrightarrow>
   \<exists>s' held'. run_requests alloc dealloc s held rs = Some (Inr (s', held')) \<and> distinct held' \<and>
     set held' \<inter> free s' = {} \<and> set held' \<union> free s' = set held \<union> free s \<and> ok s'"
proof (induction rs arbitrary: s held)
  case Nil
  then show ?case by simp
next
  case (Cons r rs)
  show ?case
  proof (cases r)
    case Take
    with Cons.prems(5) have n: "takes rs < card (free s)" by (simp add: takes_def)
    then have "free s \<noteq> {}" by auto
    with alloc_free [OF Cons.prems(1)] obtain s' i where a: "alloc s = Some (Inr (s', i))" "i \<in> free s"
      "free s' = free s - {i}" "universe s' = universe s" "ok s'" by blast
    have "takes rs \<le> card (free s')" using n a(2,3) finite_free [OF Cons.prems(1)] by simp
    moreover have "i \<notin> set held" "i \<in> universe s" using a(2) Cons.prems(3) free_universe [OF Cons.prems(1)] by auto
    ultimately obtain s'' held' where "run_requests alloc dealloc s' (i # held) rs = Some (Inr (s'', held'))"
      "distinct held'" "set held' \<inter> free s'' = {}" "set held' \<union> free s'' = set (i # held) \<union> free s'" "ok s''"
      using Cons.IH [of s' "i # held"] Cons.prems a by auto
    then show ?thesis using Take a by auto
  next
    case (Give k)
    show ?thesis
    proof (cases "k < length held")
      case True
      then have "held ! k \<in> set held" by simp
      then have k: "held ! k \<in> universe s" "held ! k \<notin> free s" using Cons.prems(3,4) by auto
      from dealloc_taken [OF Cons.prems(1) k] obtain s' where d: "dealloc s (held ! k) = Inr s'"
        "free s' = insert (held ! k) (free s)" "universe s' = universe s" "ok s'" by blast
      note rm = set_remove_nth [OF True Cons.prems(2)]
      have "takes rs \<le> card (free s')"
        using Cons.prems(5) Give d(2) k(2) finite_free [OF Cons.prems(1)] by (simp add: takes_def)
      then obtain s'' held' where "run_requests alloc dealloc s' (remove_nth k held) rs = Some (Inr (s'', held'))"
        "distinct held'" "set held' \<inter> free s'' = {}" "set held' \<union> free s'' = set (remove_nth k held) \<union> free s'" "ok s''"
        using Cons.IH [of s' "remove_nth k held"] Cons.prems d rm by auto
      then show ?thesis using Give True d rm \<open>held ! k \<in> set held\<close> by auto
    next
      case False
      then show ?thesis using Cons Give by (simp add: takes_def)
    qed
  qed
qed

end

text \<open>Pages by number, as the clients of the physical allocator see them.\<close>

definition alloc_page :: "phys \<Rightarrow> (phys \<times> nat) kres option" where
  "alloc_page p = obind (AllocPhys p) (\<lambda>(p, addr). Some (Inr (p, unat addr div 4096)))"

definition dealloc_page :: "phys \<Rightarrow> nat \<Rightarrow> phys kres" where
  "dealloc_page p i = DeallocPhys p (of_nat i * ARCH_PAGE_SIZE)"

definition managed_pages :: "phys \<Rightarrow> nat set" where
  "managed_pages p = {i. i < MAX_MEMORY_PAGES p \<and> i \<le> ph_highest_page_index p}"

interpretation pa: page_allocator phys_ok managed_pages free_pages alloc_page dealloc_page
proof
  fix p :: phys assume ok: "phys_ok p"
  show "finite (free_pages p)" by simp
  show "free_pages p \<subseteq> managed_pages p" using ok by (auto simp: phys_ok_def managed_pages_def free_pages_def)
  show "\<exists>e. alloc_page p = Some (Inl e)" if "free_pages p = {}"
    using AllocPhys_empty [OF ok that] by (simp add: alloc_page_def)
  show "\<exists>p' i. alloc_page p = Some (Inr (p', i)) \<and> i \<in> free_pages p \<and> free_pages p' = free_pages p - {i} \<and>
      managed_pages p' = managed_pages p \<and> phys_ok p'" if some: "free_pages p \<noteq> {}"
  proof -
    obtain p' i where a: "AllocPhys p = Some (Inr (p', of_nat i * ARCH_PAGE_SIZE))" "i \<in> free_pages p"
      "free_pages p' = free_pages p - {i}" "phys_ok p'" "MAX_MEMORY_PAGES p' = MAX_MEMORY_PAGES p"
      "ph_highest_page_index p' = ph_highest_page_index p"
      by (rule AllocPhys_ok [OF ok some])
    have "unat (of_nat i * ARCH_PAGE_SIZE) div 4096 = i" using unat_page_address phys_okD(2) [OF ok a(2)] by simp
    with a show ?thesis by (auto simp: alloc_page_def managed_pages_def)
  qed
  show "\<exists>p'. dealloc_page p i = Inr p' \<and> free_pages p' = insert i (free_pages p) \<and>
      managed_pages p' = managed_pages p \<and> phys_ok p'" if i_in: "i \<in> managed_pages p" and i_notin: "i \<notin> free_pages p" for i
  proof -
    have i: "i < MAX_MEMORY_PAGES p" "i \<le> ph_highest_page_index p" "i < 2 ^ 20"
      using i_in ok by (auto simp: managed_pages_def phys_ok_def)
    obtain p' where "DeallocPhys p (of_nat i * ARCH_PAGE_SIZE) = Inr p'" "free_pages p' = insert i (free_pages p)" "phys_ok p'"
      "MAX_MEMORY_PAGES p' = MAX_MEMORY_PAGES p" "ph_highest_page_index p' = ph_highest_page_index p"
      by (rule DeallocPhys_ok [OF ok unat_page_address [OF i(3)] i(1) i_notin i(2)])
    then show ?thesis by (auto simp: dealloc_page_def managed_pages_def)
  qed
qed

interpretation sa: page_allocator swap_ok "\<lambda>s. {..<sw_bits_in_bitmap s}" free_slots
  "\<lambda>s. Some (AllocSwap s)" "\<lambda>s i. Inr (DeallocSwap s i)"
proof
  fix s :: swap assume ok: "swap_ok s"
  show "\<exists>s' i. Some (AllocSwap s) = Some (Inr (s', i)) \<and> i \<in> free_slots s \<and> free_slots s' = free_slots s - {i} \<and>
      {..<sw_bits_in_bitmap s'} = {..<sw_bits_in_bitmap s} \<and> swap_ok s'" if "free_slots s \<noteq> {}"
    using AllocSwap_ok [OF ok that] by auto
  show "\<exists>s'. Inr (DeallocSwap s i) = Inr s' \<and> free_slots s' = insert i (free_slots s) \<and>
      {..<sw_bits_in_bitmap s'} = {..<sw_bits_in_bitmap s} \<and> swap_ok s'"
    if "i \<in> {..<sw_bits_in_bitmap s}" "i \<notin> free_slots s" for i
    using DeallocSwap_ok [OF ok _ that(2)] that(1) by auto
qed (auto simp: AllocSwap_full free_slots_def)

subsection \<open>Boot\<close>








text \<open>With a gigabyte of memory the size the swap file should have does not fit in 32 bits any more:
  the bitmap gets a single page, for 128 MiB of swap space instead of over 4 GiB.\<close>

lemma GetPageCountForBitmap_overflow:
  "ph_total_pages p = 262144 \<Longrightarrow> GetPageCountForBitmap p = 1"
  by (simp add: GetPageCountForBitmap_def GetTotalPhysKilobytes_def)

subsection \<open>Properties\<close>

text \<open>A machine of 64 pages of which the pages 1 to 5 are free.\<close>

definition small_machine :: phys where
  "small_machine = \<lparr>ph_allocation_bitmap = [0x3E, 0], ph_allocation_stack = Some [1, 2, 3, 4, 5],
     ph_pages_left = 5, ph_total_pages = 5, ph_highest_page_index = 5, ph_evictions_deferred = 0,
     ph_cache_mode = DISKCACHE_NORMAL\<rparr>"


lemma small_machine_free: "free_pages small_machine = {1, 2, 3, 4, 5}"
proof -
  have "i \<in> free_pages small_machine \<longleftrightarrow> i \<in> {1, 2, 3, 4, 5}" if "i < 64" for i
  proof (cases "i < 32")
    case True
    then have "i \<in> set [0..<32]" by simp
    moreover have "list_all (\<lambda>i. i \<in> free_pages small_machine \<longleftrightarrow> i \<in> {1, 2, 3, 4, 5}) [0..<32]"
      by (simp add: upt_rec free_pages_def MAX_MEMORY_PAGES_def small_machine_def IsBitmapEntryFree_bit)
    ultimately show ?thesis by (simp add: list_all_iff)
  next
    case False
    then have "i div 32 = Suc 0" "i \<notin> {1, 2, 3, 4, 5}" using that by auto
    then show ?thesis by (simp add: free_pages_def small_machine_def IsBitmapEntryFree_bit)
  qed
  moreover have "free_pages small_machine \<subseteq> {..<64}" by (auto simp: free_pages_def MAX_MEMORY_PAGES_def small_machine_def)
  ultimately show ?thesis by (auto dest: less_le_trans)
qed

lemma small_machine_ok: "phys_ok small_machine"
  using small_machine_free by (auto simp: phys_ok_def MAX_MEMORY_PAGES_def small_machine_def)


text \<open>A machine of 64 pages, all of them free.\<close>

definition free_machine :: phys where
  "free_machine = \<lparr>ph_allocation_bitmap = [0xFFFFFFFF, 0xFFFFFFFF], ph_allocation_stack = Some [0..<64],
     ph_pages_left = 64, ph_total_pages = 64, ph_highest_page_index = 63, ph_evictions_deferred = 0,
     ph_cache_mode = DISKCACHE_NORMAL\<rparr>"

lemma free_machine_ok: "phys_ok free_machine" "free_pages free_machine = {..<64}"
proof -
  have ones: "(0xFFFFFFFF :: u32) = - 1" by simp
  have "bit ([0xFFFFFFFF, 0xFFFFFFFF :: u32] ! (i div 32)) (i mod 32)" if "i < 64" for i
    using that by (cases "i < 32") (simp_all add: ones)
  then show free: "free_pages free_machine = {..<64}"
    by (auto simp: free_pages_def MAX_MEMORY_PAGES_def free_machine_def IsBitmapEntryFree_bit)
  show "phys_ok free_machine" unfolding phys_ok_def free by (auto simp: free_machine_def MAX_MEMORY_PAGES_def)
qed

text \<open>C28.  Physical pages are handed out exclusively: starting from a good state of the allocator, any
  sequence of allocations and of frees of pages held, with no more allocations than there are free
  pages, runs without a panic; the pages held at the end are distinct, none of them is free, and
  held and free pages together are the pages that were free at the start.\<close>

theorem page_frames_exclusive:
  assumes "phys_ok p" "takes rs \<le> card (free_pages p)"
  shows "\<exists>p' held. run_requests alloc_page dealloc_page p [] rs = Some (Inr (p', held)) \<and> distinct held \<and>
     set held \<inter> free_pages p' = {} \<and> set held \<union> free_pages p' = free_pages p \<and> phys_ok p'"
  using pa.run_exclusive [OF assms(1), of "[]" rs] assms(2) by simp

theorem page_frames_exclusive_witness:
  "\<exists>p' held. run_requests alloc_page dealloc_page small_machine [] [Take, Take, Give 1, Take] = Some (Inr (p', held)) \<and>
     distinct held \<and> set held \<inter> free_pages p' = {} \<and> set held \<union> free_pages p' = free_pages small_machine \<and> phys_ok p'"
  by (rule page_frames_exclusive [OF small_machine_ok]) (simp add: small_machine_free takes_def)



text \<open>A contiguous allocation that succeeds takes a run of free pages inside the requested
  range out of the bitmap and the stack, but it returns the address just past the run, and it
  does not lower the count of free pages, which from then on is too high.\<close>

lemma AllocPhysContiguous_returns_end:
  assumes "phys_ok p" "AllocPhysContiguous p bytes min_addr max_addr boundary = Inr (p', addr)" "p' \<noteq> p"
    "BytesToPages bytes \<noteq> 0" "ph_highest_page_index p < MAX_MEMORY_PAGES p" "unat max_addr \<le> MAX_MEMORY_PAGES p * 4096"
  shows "\<exists>start. {start..<start + unat (BytesToPages bytes)} \<subseteq> free_pages p \<and>
     free_pages p' = free_pages p - {start..<start + unat (BytesToPages bytes)} \<and>
     addr = of_nat (start + unat (BytesToPages bytes)) * ARCH_PAGE_SIZE \<and>
     ph_pages_left p' = card (free_pages p') + unat (BytesToPages bytes) \<and> \<not> phys_ok p'"
proof -
  let ?n = "unat (BytesToPages bytes)"
  let ?lo = "unat ((min_addr + ARCH_PAGE_SIZE - 1) div ARCH_PAGE_SIZE)"
  let ?hi = "if max_addr = 0 then ph_highest_page_index p + 1 else unat (max_addr div ARCH_PAGE_SIZE)"
  have hi: "?hi \<le> MAX_MEMORY_PAGES p" using assms(5,6) by (simp add: unat_div div_le_mono [of _ "_ * 4096" 4096, simplified])
  have stack: "stack_ok p" using assms(1) by (simp add: phys_ok_def stack_ok_def)
  have n: "0 < ?n" using assms(4) by (simp add: unat_gt_0)
  have loop: "contiguous_loop p ?lo ?hi ?n boundary 0 = Inr (p', addr)"
    using assms(2,3) by (auto simp: AllocPhysContiguous_def Let_def split: if_splits)
  obtain start where s: "{start..<start + ?n} \<subseteq> free_pages p" "free_pages p' = free_pages p - {start..<start + ?n}"
    "addr = of_nat (start + ?n) * ARCH_PAGE_SIZE" "ph_pages_left p' = ph_pages_left p"
    using contiguous_loop_correct [OF stack hi le0 le0 _ n, of ?lo boundary] loop assms(3) by auto
  have "card (free_pages p') + ?n = card (free_pages p)"
    using s(1,2) card_mono [OF finite_free_pages s(1)] by (simp add: card_Diff_subset)
  then have left: "ph_pages_left p' = card (free_pages p') + ?n" using s(4) phys_okD(1) [OF assms(1)] by simp
  then have "\<not> phys_ok p'" using n phys_okD(1) [of p'] by auto
  with s left show ?thesis by blast
qed

lemma AllocPhysContiguous_returns_end_witness:
  "\<exists>p' addr start. AllocPhysContiguous free_machine 0x1000 0 0 0 = Inr (p', addr) \<and>
     free_pages p' = free_pages free_machine - {start..<start + 1} \<and> addr = of_nat (start + 1) * ARCH_PAGE_SIZE \<and> \<not> phys_ok p'"
proof -
  have pages: "BytesToPages 0x1000 = 1" by (simp add: BytesToPages_def)
  have free0: "0 \<in> free_pages free_machine" using free_machine_ok(2) by simp
  then obtain bm where bm: "AllocateBitmapEntry free_machine 0 = Inr (free_machine\<lparr>ph_allocation_bitmap := bm\<rparr>)"
    "free_pages (free_machine\<lparr>ph_allocation_bitmap := bm\<rparr>) = free_pages free_machine - {0}"
    by (rule AllocateBitmapEntry_ok)
  let ?p = "RemoveStackEntry (free_machine\<lparr>ph_allocation_bitmap := bm\<rparr>) 0"
  have "take_run free_machine 0 0 = Inr (?p, 1)" using bm(1) by (simp add: take_run.simps)
  moreover have "IsBitmapEntryFree free_machine 0" using free0 by (simp add: free_pages_def)
  ultimately have run: "AllocPhysContiguous free_machine 0x1000 0 0 0 = Inr (?p, 4096)"
    by (simp add: AllocPhysContiguous_def pages contiguous_loop.simps)
       (simp add: free_machine_def)
  have "free_pages ?p \<noteq> free_pages free_machine"
    using bm(2) free0 free_pages_bitmap(1) [of ?p "free_machine\<lparr>ph_allocation_bitmap := bm\<rparr>"] by (auto simp: RemoveStackEntry_def)
  then have "?p \<noteq> free_machine" by auto
  from AllocPhysContiguous_returns_end [OF free_machine_ok(1) run this] run show ?thesis
    unfolding pages by (auto simp: free_machine_def MAX_MEMORY_PAGES_def)
qed

end
