(* ===== verification/VirtMem.thy ===== *)
theory VirtMem
  imports PhysMem AvlTree
begin

text \<open>
  The virtual memory manager: kernel/mem/virtual.c, with the x86 page tables of
  kernel/arch/x86/mem/virtual.c that mirror its entries.

  An address space is an AVL tree of pointers to entries; a further tree holds the mappings shared
  by all address spaces.  The entries live in a store indexed by pointers, and the tree's comparison
  function reads it, so that the trees see an entry that is changed in place.  Virtual and physical
  addresses are natural numbers; the operations stay below \<open>2 ^ 32\<close> on the ranges the theorems speak
  about.  A page table maps a page number to the physical address and the bits of its entry; the
  tables of the kernel area belong to all address spaces.  The page tables themselves are taken as
  allocated.  The contents of physical pages are recorded by physical address.  The spinlock of an
  address space makes each operation atomic.
\<close>

subsection \<open>Entries and state\<close>

record vm_entry = vas_entry +
  en_virtual :: nat
  en_in_ram :: bool
  en_allocated :: bool
  en_cow :: bool
  en_swapfile :: bool
  en_allow_temp_write :: bool
  en_first_load :: bool
  en_load_in_progress :: bool
  en_times_swapped :: nat
  en_evict_first :: bool
  en_share_on_fork :: bool
  en_hard_io_failure :: bool
  en_num_pages :: nat
  en_file_offset :: nat
  en_file_node :: "nat option"
  en_physical :: nat
  en_offset_or_base :: nat     \<comment> \<open>the union of \<open>swapfile_offset\<close> and \<open>relocation_base\<close>\<close>
  en_ref_count :: nat

text \<open>What the memory manager asks of an open file.\<close>

record vm_file =
  vf_mappable :: bool          \<comment> \<open>a regular file or a block device\<close>
  vf_can_read :: bool
  vf_can_write :: bool

record pte =
  pt_physical :: nat
  pt_present :: bool
  pt_write :: bool
  pt_user :: bool

type_synonym page = "nat \<Rightarrow> u8"

abbreviation zero_page :: page where "zero_page \<equiv> \<lambda>_. 0"

record defer_disk_access =
  da_file :: "nat option"      \<comment> \<open>None: the swap file\<close>
  da_entry :: "nat option"
  da_offset :: nat
  da_address :: nat
  da_direction :: transfer_direction
  da_deallocate_swap_on_read :: bool

record vm =
  vm_store :: "nat \<Rightarrow> vm_entry"
  vm_next :: nat                           \<comment> \<open>the next pointer the heap returns\<close>
  vm_mappings :: "nat \<Rightarrow> nat tree"         \<comment> \<open>the tree of each address space\<close>
  vm_global :: "nat tree"
  vm_current :: nat
  vm_pte :: "nat option \<Rightarrow> nat \<Rightarrow> pte"     \<comment> \<open>None: the tables of the kernel area\<close>
  vm_phys :: phys
  vm_swap :: swap
  vm_frame :: "nat \<Rightarrow> page"
  vm_files :: "nat \<Rightarrow> vm_file"
  vm_file_refs :: "nat \<Rightarrow> nat"
  vm_local_brk :: nat
  vm_kernel_brk :: nat
  vm_deferred :: "defer_disk_access list"
  vm_previous_swaps :: "nat option list"
  vm_swap_num :: nat
  vm_rand :: u8

abbreviation (input) PAGE :: nat where "PAGE \<equiv> 4096"
abbreviation (input) VM_FIXED_VIRT :: u32 where "VM_FIXED_VIRT \<equiv> 64"
abbreviation (input) VM_MAP_HARDWARE :: u32 where "VM_MAP_HARDWARE \<equiv> 128"
abbreviation (input) VM_RECURSIVE :: u32 where "VM_RECURSIVE \<equiv> 512"
abbreviation (input) VM_EVICT_FIRST :: u32 where "VM_EVICT_FIRST \<equiv> 2048"
abbreviation (input) VM_SHARED :: u32 where "VM_SHARED \<equiv> 4096"
abbreviation (input) VM_HARD_IO_FAIL :: u32 where "VM_HARD_IO_FAIL \<equiv> 8192"

definition flag :: "u32 \<Rightarrow> u32 \<Rightarrow> bool" where
  "flag flags f \<longleftrightarrow> flags AND f \<noteq> 0"

abbreviation upd_entry :: "nat \<Rightarrow> (vm_entry \<Rightarrow> vm_entry) \<Rightarrow> vm \<Rightarrow> vm" where
  "upd_entry e f s \<equiv> s\<lparr>vm_store := (vm_store s)(e := f (vm_store s e))\<rparr>"

definition new_entry :: "vm \<Rightarrow> vm_entry \<Rightarrow> vm \<times> nat" where
  "new_entry s en = (s\<lparr>vm_store := (vm_store s)(vm_next s := en), vm_next := vm_next s + 1\<rparr>, vm_next s)"

subsection \<open>Page tables\<close>

abbreviation (input) KERNEL_PAGE :: nat where "KERNEL_PAGE \<equiv> 0xC0000"

definition table_of :: "nat \<Rightarrow> nat \<Rightarrow> nat option" where
  "table_of v page = (if KERNEL_PAGE \<le> page then None else Some v)"

text \<open>The page tables are reached through the address space that is current, whatever address
  space the caller names.\<close>

definition x86MapPage :: "vm \<Rightarrow> nat \<Rightarrow> nat \<Rightarrow> pte \<Rightarrow> vm" where
  "x86MapPage s physical virtual flags =
     (let page = virtual div PAGE; tab = table_of (vm_current s) page in
      s\<lparr>vm_pte := (vm_pte s)(tab := (vm_pte s tab)(page := flags\<lparr>pt_physical := physical\<rparr>))\<rparr>)"

fun map_pages :: "vm \<Rightarrow> vm_entry \<Rightarrow> pte \<Rightarrow> nat list \<Rightarrow> vm" where
  "map_pages s en flags [] = s"
| "map_pages s en flags (i # is) =
     map_pages (x86MapPage s (if en_physical en = 0 then 0 else en_physical en + i * PAGE) (en_virtual en + i * PAGE) flags)
       en flags is"

definition pte_flags :: "vm_entry \<Rightarrow> pte" where
  "pte_flags en = \<lparr>pt_physical = 0, pt_present = en_in_ram en,
     pt_write = (\<not> en_cow en \<and> ve_write en \<or> en_allow_temp_write en), pt_user = ve_user en\<rparr>"

definition ArchUpdateMapping :: "vm \<Rightarrow> nat \<Rightarrow> vm" where
  "ArchUpdateMapping s e =
     (let en = vm_store s e; flags = pte_flags en in
      if en_num_pages en > 1 then map_pages s en flags [0..<en_num_pages en]
      else x86MapPage s (en_physical en) (en_virtual en) flags)"

definition ArchUnmap :: "vm \<Rightarrow> nat \<Rightarrow> vm" where
  "ArchUnmap s e =
     x86MapPage s 0 (en_virtual (vm_store s e)) \<lparr>pt_physical = 0, pt_present = False, pt_write = False, pt_user = False\<rparr>"

definition SetVas :: "vm \<Rightarrow> nat \<Rightarrow> vm" where
  "SetVas s v = s\<lparr>vm_current := v\<rparr>"

subsection \<open>The trees\<close>

definition VirtAvlComparator :: "(nat \<Rightarrow> vm_entry) \<Rightarrow> nat \<Rightarrow> nat \<Rightarrow> int" where
  "VirtAvlComparator st a b =
     (let a_page = en_virtual (st a) div PAGE; b_page = en_virtual (st b) div PAGE in
      if a_page \<ge> b_page \<and> a_page < b_page + en_num_pages (st b) then 0
      else if b_page \<ge> a_page \<and> b_page < a_page + en_num_pages (st a) then 0
      else if en_virtual (st a) > en_virtual (st b) then 1
      else if en_virtual (st a) < en_virtual (st b) then -1 else 0)"

abbreviation tree_at :: "(nat \<Rightarrow> vm_entry) \<Rightarrow> nat tree \<Rightarrow> nat tree" where
  "tree_at st t \<equiv> TreeSetComparator t (VirtAvlComparator st)"

definition CreateVasEx :: "vm \<Rightarrow> nat \<Rightarrow> vm" where
  "CreateVasEx s v = s\<lparr>vm_mappings := (vm_mappings s)(v := TreeCreate)\<rparr>"

definition InsertIntoAvl :: "vm \<Rightarrow> nat \<Rightarrow> nat \<Rightarrow> vm kres" where
  "InsertIntoAvl s v e =
     (if ve_global (vm_store s e)
      then kbind (TreeInsert (tree_at (vm_store s) (vm_global s)) e) (\<lambda>t. Inr (s\<lparr>vm_global := t\<rparr>))
      else kbind (TreeInsert (tree_at (vm_store s) (vm_mappings s v)) e)
             (\<lambda>t. Inr (s\<lparr>vm_mappings := (vm_mappings s)(v := t)\<rparr>)))"

definition DeleteFromAvl :: "vm \<Rightarrow> nat \<Rightarrow> nat \<Rightarrow> vm kres" where
  "DeleteFromAvl s v e =
     (if ve_global (vm_store s e)
      then kbind (TreeDelete (tree_at (vm_store s) (vm_global s)) e) (\<lambda>t. Inr (s\<lparr>vm_global := t\<rparr>))
      else kbind (TreeDelete (tree_at (vm_store s) (vm_mappings s v)) e)
             (\<lambda>t. Inr (s\<lparr>vm_mappings := (vm_mappings s)(v := t)\<rparr>)))"

text \<open>The entry on the stack that a search compares with; its pointer is one the heap has not
  handed out.\<close>

definition dummy_at :: "vm \<Rightarrow> nat \<Rightarrow> nat \<Rightarrow> vm_entry" where
  "dummy_at s virtual = (vm_store s)(vm_next s := (vm_store s (vm_next s))\<lparr>en_virtual := virtual, en_num_pages := 1\<rparr>)"

definition GetVirtEntry :: "vm \<Rightarrow> nat \<Rightarrow> nat \<Rightarrow> nat option" where
  "GetVirtEntry s v virtual =
     (let st = dummy_at s (virtual div PAGE * PAGE) in
      case TreeGet (tree_at st (vm_mappings s v)) (vm_next s) of
        Some e \<Rightarrow> Some e
      | None \<Rightarrow> TreeGet (tree_at st (vm_global s)) (vm_next s))"

definition GetPhysFromVirt :: "vm \<Rightarrow> nat \<Rightarrow> nat kres" where
  "GetPhysFromVirt s virtual =
     (case GetVirtEntry s (vm_current s) virtual of
        None \<Rightarrow> Inl PANIC_UNHANDLED_KERNEL_EXCEPTION
      | Some e \<Rightarrow>
          let result = en_physical (vm_store s e); target_page = virtual div PAGE;
              entry_page = en_virtual (vm_store s e) div PAGE in
          Inr (if entry_page < target_page then result + (target_page - entry_page) * PAGE else result))"

subsection \<open>Splitting\<close>

text \<open>The two halves of \<^verbatim>\<open>SplitLargePageEntryIntoMultiple\<close>: a new entry for the pages before the target
  page, and a new entry for the pages after the first \<open>n\<close>.\<close>

definition split_before :: "vm \<Rightarrow> nat \<Rightarrow> nat \<Rightarrow> nat \<Rightarrow> vm kres" where
  "split_before s v virtual e =
     (let en = vm_store s e; entry_page = en_virtual en div PAGE; target_page = virtual div PAGE in
      if entry_page < target_page
      then let num_beforehand = target_page - entry_page;
               (s, pre) = new_entry s (en\<lparr>en_num_pages := num_beforehand\<rparr>);
               s = upd_entry e (\<lambda>en. en\<lparr>en_num_pages := en_num_pages en - num_beforehand,
                     en_virtual := en_virtual en + num_beforehand * PAGE,
                     en_physical := (if en_physical en \<noteq> 0 then en_physical en + num_beforehand * PAGE else 0),
                     en_file_offset := (if ve_file en then en_file_offset en + num_beforehand * PAGE else en_file_offset en)\<rparr>) s in
           InsertIntoAvl s v pre
      else Inr s)"

definition split_after :: "vm \<Rightarrow> nat \<Rightarrow> nat \<Rightarrow> nat \<Rightarrow> vm kres" where
  "split_after s v e num_to_leave =
     (let en = vm_store s e in
      if en_num_pages en > num_to_leave
      then let (s, post) = new_entry s (en\<lparr>en_num_pages := en_num_pages en - num_to_leave,
                 en_virtual := en_virtual en + PAGE * num_to_leave,
                 en_physical := (if en_physical en \<noteq> 0 then en_physical en + PAGE * num_to_leave else 0),
                 en_file_offset := (if ve_file en then en_file_offset en + PAGE * num_to_leave else en_file_offset en)\<rparr>);
               s = upd_entry e (\<lambda>en. en\<lparr>en_num_pages := num_to_leave\<rparr>) s in
           InsertIntoAvl s v post
      else Inr s)"

definition SplitLargePageEntryIntoMultiple :: "vm \<Rightarrow> nat \<Rightarrow> nat \<Rightarrow> nat \<Rightarrow> nat \<Rightarrow> (vm \<times> nat) kres" where
  "SplitLargePageEntryIntoMultiple s v virtual e num_to_leave =
     (let en = vm_store s e in
      if en_num_pages en = 1 then Inr (s, 1)
      else kassert (\<not> en_allocated en) (kassert (\<not> en_swapfile en)
        (kbind (split_before s v virtual e) (\<lambda>s.
         kbind (split_after s v e num_to_leave) (\<lambda>s.
         Inr (s, en_num_pages (vm_store s e)))))))"

subsection \<open>Permissions\<close>

definition apply_permissions :: "u32 \<Rightarrow> u32 \<Rightarrow> vm_entry \<Rightarrow> vm_entry" where
  "apply_permissions setp clear en = en\<lparr>
     ve_read := (if flag setp VM_READ then True else if flag clear VM_READ then False else ve_read en),
     ve_write := (if flag setp VM_WRITE then True else if flag clear VM_WRITE then False else ve_write en),
     ve_exec := (if flag setp VM_EXEC then True else if flag clear VM_EXEC then False else ve_exec en),
     ve_user := (if flag setp VM_USER then True else if flag clear VM_USER then False else ve_user en)\<rparr>"

definition SetVirtPermissionsEx :: "vm \<Rightarrow> nat \<Rightarrow> nat \<Rightarrow> u32 \<Rightarrow> u32 \<Rightarrow> (vm \<times> errno) kres" where
  "SetVirtPermissionsEx s v virtual setp clear =
     (if (setp OR clear) AND NOT (VM_READ OR VM_WRITE OR VM_EXEC OR VM_USER) \<noteq> 0 then Inr (s, EINVAL)
      else case GetVirtEntry s v virtual of
        None \<Rightarrow> Inr (s, ENOMEM)
      | Some e \<Rightarrow>
          let en = vm_store s e in
          if ve_file en \<and> \<not> vf_can_write (vm_files s (the (en_file_node en))) \<and> flag setp VM_WRITE \<and> \<not> ve_relocatable en
          then Inr (s, EACCES)
          else kbind (SplitLargePageEntryIntoMultiple s v virtual e 1) (\<lambda>(s, _).
               Inr (ArchUpdateMapping (upd_entry e (apply_permissions setp clear) s) e, ESUCCESS)))"

definition SetVirtPermissions :: "vm \<Rightarrow> nat \<Rightarrow> u32 \<Rightarrow> u32 \<Rightarrow> (vm \<times> errno) kres" where
  "SetVirtPermissions s virtual setp clear = SetVirtPermissionsEx s (vm_current s) virtual setp clear"

subsection \<open>Mapping\<close>

text \<open>The entry that \<^verbatim>\<open>AddMapping\<close> fills in, once the physical address is known.\<close>

definition mapping_entry :: "u32 \<Rightarrow> nat \<Rightarrow> bool \<Rightarrow> nat \<Rightarrow> nat \<Rightarrow> nat option \<Rightarrow> nat \<Rightarrow> nat \<Rightarrow> vm_entry" where
  "mapping_entry flags physical allocated relocation_base virtual file pos number =
     \<lparr>ve_read = flag flags VM_READ, ve_write = flag flags VM_WRITE, ve_exec = flag flags VM_EXEC, ve_lock = flag flags VM_LOCK,
      ve_file = flag flags VM_FILE, ve_user = flag flags VM_USER, ve_global = (\<not> flag flags VM_LOCAL),
      ve_relocatable = flag flags VM_RELOCATABLE,
      en_virtual = virtual, en_in_ram = flag flags VM_LOCK, en_allocated = allocated, en_cow = False, en_swapfile = False,
      en_allow_temp_write = False, en_first_load = flag flags VM_RELOCATABLE, en_load_in_progress = False, en_times_swapped = 0,
      en_evict_first = flag flags VM_EVICT_FIRST, en_share_on_fork = flag flags VM_SHARED,
      en_hard_io_failure = flag flags VM_HARD_IO_FAIL, en_num_pages = number, en_file_offset = pos, en_file_node = file,
      en_physical = physical,
      en_offset_or_base = (if flag flags VM_RELOCATABLE then relocation_base else 0xDEADDEAD), en_ref_count = 1\<rparr>"

definition zero_frames :: "vm \<Rightarrow> vm_entry \<Rightarrow> vm" where
  "zero_frames s en = s\<lparr>vm_frame := (\<lambda>a. if a \<in> (\<lambda>i. en_physical en + i * PAGE) ` {0..<en_num_pages en} then zero_page else vm_frame s a)\<rparr>"

definition AddMapping :: "vm \<Rightarrow> nat \<Rightarrow> nat \<Rightarrow> nat \<Rightarrow> u32 \<Rightarrow> nat option \<Rightarrow> nat \<Rightarrow> nat \<Rightarrow> vm kres option" where
  "AddMapping s v physical virtual flags file pos number =
     (if file \<noteq> None \<and> \<not> flag flags VM_FILE then Some (Inl PANIC_ASSERTION_FAILURE)
      else
        let relocation_base = (if flag flags VM_RELOCATABLE then physical else 0);
            physical = (if flag flags VM_RELOCATABLE then 0 else physical) in
        obind (if flag flags VM_LOCK \<and> physical = 0
               then obind (AllocPhys (vm_phys s)) (\<lambda>(p, addr). Some (Inr (s\<lparr>vm_phys := p\<rparr>, unat addr, True)))
               else Some (Inr (s, physical, False))) (\<lambda>(s, physical, allocated).
        let en = mapping_entry flags physical allocated relocation_base virtual file pos number;
            (s, e) = new_entry s en in
        Some (kbind (InsertIntoAvl s v e) (\<lambda>s.
          let s = ArchUpdateMapping s e in
          if ve_lock en \<and> \<not> flag flags VM_MAP_HARDWARE \<and> vm_current s = v
          then kbind (SetVirtPermissionsEx s v virtual VM_WRITE 0) (\<lambda>(s, _).
               let s = zero_frames s (vm_store s e) in
               if \<not> ve_write (vm_store s e)
               then kbind (SetVirtPermissionsEx s v virtual 0 VM_WRITE) (\<lambda>(s, _). Inr s)
               else Inr s)
          else Inr s))))"

fun range_in_use :: "vm \<Rightarrow> nat tree \<Rightarrow> nat \<Rightarrow> nat \<Rightarrow> bool" where
  "range_in_use s t virtual 0 = False"
| "range_in_use s t virtual (Suc n) =
     (if TreeContains (tree_at (dummy_at s virtual) t) (vm_next s) then True else range_in_use s t (virtual + PAGE) n)"

definition IsRangeInUse :: "vm \<Rightarrow> nat \<Rightarrow> nat \<Rightarrow> nat \<Rightarrow> bool" where
  "IsRangeInUse s v virtual pages =
     (if range_in_use s (vm_mappings s v) virtual pages then True else range_in_use s (vm_global s) virtual pages)"

definition AllocVirtRange :: "vm \<Rightarrow> nat \<Rightarrow> bool \<Rightarrow> vm \<times> nat" where
  "AllocVirtRange s pages local =
     (if local then (s\<lparr>vm_local_brk := vm_local_brk s + pages * PAGE\<rparr>, vm_local_brk s)
      else (s\<lparr>vm_kernel_brk := vm_kernel_brk s + pages * PAGE\<rparr>, vm_kernel_brk s))"

definition map_flags_error :: "vm \<Rightarrow> nat \<Rightarrow> u32 \<Rightarrow> nat option \<Rightarrow> nat \<Rightarrow> errno" where
  "map_flags_error s physical flags file pos =
     (if physical \<noteq> 0 \<and> \<not> flag flags (VM_MAP_HARDWARE OR VM_RELOCATABLE) then EINVAL
      else if flag flags VM_MAP_HARDWARE \<and> \<not> flag flags VM_LOCK then EINVAL
      else if flag flags VM_FILE \<and> flag flags VM_MAP_HARDWARE then EINVAL
      else if flag flags VM_FILE \<and> file = None then EINVAL
      else if flag flags VM_FILE \<and> flag flags VM_LOCK then EINVAL
      else if \<not> flag flags VM_FILE \<and> (file \<noteq> None \<or> pos \<noteq> 0) then EINVAL
      else if flag flags VM_RELOCATABLE \<and> \<not> flag flags VM_FILE then EINVAL
      else if flag flags VM_RELOCATABLE \<and> flag flags VM_USER then EINVAL
      else if flag flags VM_RELOCATABLE \<and> physical = 0 then EINVAL
      else if flag flags VM_LOCK \<and> flag flags VM_SHARED then EINVAL
      else if flag flags VM_HARD_IO_FAIL \<and> flag flags VM_USER then EINVAL
      else if flag flags VM_HARD_IO_FAIL \<and> \<not> flag flags VM_FILE then EINVAL
      else if flag flags VM_FILE \<and> \<not> vf_mappable (vm_files s (the file)) then EACCES
      else if flag flags VM_FILE \<and> \<not> vf_can_read (vm_files s (the file)) then EACCES
      else if flag flags VM_FILE \<and> \<not> vf_can_write (vm_files s (the file)) \<and> flag flags VM_WRITE then EACCES
      else ESUCCESS)"

fun map_loop :: "vm \<Rightarrow> nat \<Rightarrow> nat \<Rightarrow> nat \<Rightarrow> u32 \<Rightarrow> nat option \<Rightarrow> nat \<Rightarrow> nat \<Rightarrow> nat list \<Rightarrow> vm kres option" where
  "map_loop s v physical virtual flags file pos number [] = Some (Inr s)"
| "map_loop s v physical virtual flags file pos number (i # is) =
     (let s = (if flag flags VM_FILE
               then s\<lparr>vm_file_refs := (vm_file_refs s)(the file := vm_file_refs s (the file) + 1)\<rparr> else s) in
      obind (AddMapping s v (if flag flags VM_RELOCATABLE then physical else if physical = 0 then 0 else physical + i * PAGE)
               (virtual + i * PAGE) flags file (pos + i * PAGE) number) (\<lambda>s.
      map_loop s v physical virtual flags file pos number is))"

definition MapVirtEx ::
    "vm \<Rightarrow> nat \<Rightarrow> nat \<Rightarrow> nat \<Rightarrow> nat \<Rightarrow> u32 \<Rightarrow> nat option \<Rightarrow> nat \<Rightarrow> (vm \<times> nat \<times> errno) kres option" where
  "MapVirtEx s v physical virtual pages flags file pos =
     (let err = map_flags_error s physical flags file pos in
      if err \<noteq> ESUCCESS then Some (Inr (s, 0, err))
      else if virtual \<noteq> 0 \<and> IsRangeInUse s v virtual pages \<and> flag flags VM_FIXED_VIRT then Some (Inr (s, 0, EEXIST))
      else
        let (s, virtual) = (if virtual = 0 \<or> IsRangeInUse s v virtual pages then AllocVirtRange s pages (flag flags VM_LOCAL)
                            else (s, virtual));
            multi_page_mapping = ((\<not> flag flags VM_LOCK \<or> flag flags VM_MAP_HARDWARE) \<and> pages \<ge> 3) in
        obind (map_loop s v physical virtual flags file pos (if multi_page_mapping then pages else 1)
                 [0..<(if multi_page_mapping then 1 else pages)]) (\<lambda>s.
        Some (Inr (s, virtual, ESUCCESS))))"

definition MapVirt :: "vm \<Rightarrow> nat \<Rightarrow> nat \<Rightarrow> nat \<Rightarrow> u32 \<Rightarrow> nat option \<Rightarrow> nat \<Rightarrow> (vm \<times> nat) kres option" where
  "MapVirt s physical virtual bytes flags file pos =
     obind (MapVirtEx s (vm_current s) physical virtual (unat (BytesToPages (of_nat bytes))) flags file pos)
       (\<lambda>(s, addr, _). Some (Inr (s, addr)))"

subsection \<open>Deferred disk accesses\<close>

text \<open>What the processor reads at a page of the current address space; an access to a page that is
  not present, with the lock of the address space held, is a fatal page fault.\<close>

definition read_page :: "vm \<Rightarrow> nat \<Rightarrow> page kres" where
  "read_page s virtual =
     (let page = virtual div PAGE; entry = vm_pte s (table_of (vm_current s) page) page in
      if pt_present entry then Inr (vm_frame s (pt_physical entry)) else Inl PANIC_INVALID_IRQL)"

definition write_page :: "vm \<Rightarrow> nat \<Rightarrow> page \<Rightarrow> vm kres" where
  "write_page s virtual contents =
     (let page = virtual div PAGE; entry = vm_pte s (table_of (vm_current s) page) page in
      if pt_present entry then Inr (s\<lparr>vm_frame := (vm_frame s)(pt_physical entry := contents)\<rparr>) else Inl PANIC_INVALID_IRQL)"

definition DeferDiskWrite :: "vm \<Rightarrow> nat \<Rightarrow> nat option \<Rightarrow> nat \<Rightarrow> vm kres option" where
  "DeferDiskWrite s old_addr file offset =
     obind (MapVirt s 0 0 PAGE (VM_LOCK OR VM_READ OR VM_WRITE OR VM_RECURSIVE) None 0) (\<lambda>(s, new_addr).
     Some (kbind (read_page s old_addr) (\<lambda>contents.
           kbind (write_page s new_addr contents) (\<lambda>s.
           Inr (s\<lparr>vm_deferred := vm_deferred s @
                   [\<lparr>da_file = file, da_entry = GetVirtEntry s (vm_current s) new_addr, da_offset = offset, da_address = new_addr,
                     da_direction = TRANSFER_WRITE, da_deallocate_swap_on_read = False\<rparr>]\<rparr>)))))"

definition DeferDiskRead :: "vm \<Rightarrow> nat \<Rightarrow> nat option \<Rightarrow> nat \<Rightarrow> bool \<Rightarrow> vm" where
  "DeferDiskRead s new_addr file offset deallocate_swap_on_read =
     s\<lparr>vm_deferred := vm_deferred s @
        [\<lparr>da_file = file, da_entry = GetVirtEntry s (vm_current s) new_addr, da_offset = offset, da_address = new_addr,
          da_direction = TRANSFER_READ, da_deallocate_swap_on_read = deallocate_swap_on_read\<rparr>]\<rparr>"

subsection \<open>Eviction\<close>

definition dealloc_frame :: "vm \<Rightarrow> nat \<Rightarrow> vm kres" where
  "dealloc_frame s physical = kbind (DeallocPhys (vm_phys s) (of_nat physical)) (\<lambda>p. Inr (s\<lparr>vm_phys := p\<rparr>))"

definition EvictPage :: "vm \<Rightarrow> nat \<Rightarrow> vm kres option" where
  "EvictPage s e =
     (let en = vm_store s e in
      if ve_lock en \<or> en_cow en \<or> \<not> en_in_ram en then Some (Inl PANIC_ASSERTION_FAILURE)
      else if ve_file en
      then obind (if ve_write en \<and> \<not> ve_relocatable en
                  then DeferDiskWrite s (en_virtual en) (en_file_node en) (en_file_offset en) else Some (Inr s)) (\<lambda>s.
           let s = upd_entry e (\<lambda>en. en\<lparr>en_in_ram := False, en_allocated := False\<rparr>) s in
           Some (kbind (dealloc_frame s (en_physical (vm_store s e))) (\<lambda>s. Inr (ArchUnmap s e))))
      else
        let s = upd_entry e (\<lambda>en. en\<lparr>en_in_ram := False, en_swapfile := True, en_allocated := False\<rparr>) s in
        obind (Some (AllocSwap (vm_swap s))) (\<lambda>(sw, slot).
        let s = s\<lparr>vm_swap := sw\<rparr>; offset = slot * PAGE in
        obind (DeferDiskWrite s (en_virtual (vm_store s e)) None offset) (\<lambda>s.
        let s = ArchUnmap (upd_entry e (\<lambda>en. en\<lparr>en_offset_or_base := offset\<rparr>) s) e in
        Some (dealloc_frame s (en_physical (vm_store s e))))))"

definition GetPageEvictionRank :: "bool \<times> bool \<Rightarrow> vm_entry \<Rightarrow> int" where
  "GetPageEvictionRank usage en =
     (let accessed = fst usage; dirty = snd usage;
          penalty = (if ve_global en then 3 else 0) + int (en_times_swapped en) * 8 in
      if en_evict_first en then int (en_times_swapped en)
      else if ve_relocatable en then 150
      else if en_cow en then 90 + penalty
      else if ve_file en \<and> \<not> ve_write en then (if accessed then 30 else 10) + penalty
      else if ve_file en \<and> ve_write en then (if dirty then 70 else if accessed then 40 else 20) + penalty
      else if \<not> dirty then (if accessed then 60 else 50) + penalty
      else 80 + penalty)"

text \<open>The search for the page to evict carries the lowest rank, the candidate and the counter that
  breaks ties.\<close>

definition consider_page ::
    "bool \<times> bool \<Rightarrow> (nat \<Rightarrow> vm_entry) \<Rightarrow> nat option list \<Rightarrow> nat \<Rightarrow> int \<times> nat option \<times> u8 \<Rightarrow> int \<times> nat option \<times> u8" where
  "consider_page usage st prev_swaps e best =
     (let (lowest_rank, lowest, rand) = best; en = st e; rank = GetPageEvictionRank usage en in
      if \<not> ve_lock en \<and> en_allocated en \<and> en_in_ram en
      then let tie = (rank = lowest_rank); equal = (tie \<and> rand AND 3 = 0);
               rand = (if tie then rand + 1 else rand) in
           if (rank < lowest_rank \<or> equal) \<and> Some e \<notin> set prev_swaps then (rank, Some e, rand)
           else (lowest_rank, lowest, rand)
      else best)"

primrec FindVirtToEvictRecursive ::
    "(nat \<Rightarrow> bool \<times> bool) \<Rightarrow> (nat \<Rightarrow> vm_entry) \<Rightarrow> nat option list \<Rightarrow> nat tree_node \<Rightarrow> int \<times> nat option \<times> u8 \<Rightarrow>
     int \<times> nat option \<times> u8" where
  "FindVirtToEvictRecursive usage st prev_swaps TNull best = best"
| "FindVirtToEvictRecursive usage st prev_swaps (TNode l e r) best =
     (if fst best < 10 then best
      else
        let best' = consider_page (usage e) st prev_swaps e best in
        if fst best' = 0 then best'
        else FindVirtToEvictRecursive usage st prev_swaps r (FindVirtToEvictRecursive usage st prev_swaps l best'))"

definition EvictVirt :: "(nat \<Rightarrow> bool \<times> bool) \<Rightarrow> bool \<Rightarrow> vm \<Rightarrow> vm kres option" where
  "EvictVirt usage has_swapfile s =
     (if \<not> has_swapfile then Some (Inr s)
      else
        let (_, lowest, rand) = FindVirtToEvictRecursive usage (vm_store s) (vm_previous_swaps s)
              (t_root (vm_mappings s (vm_current s)))
              (FindVirtToEvictRecursive usage (vm_store s) (vm_previous_swaps s) (t_root (vm_global s)) (10000, None, vm_rand s));
            s = s\<lparr>vm_rand := rand\<rparr> in
        case lowest of
          None \<Rightarrow> Some (Inr s)
        | Some e \<Rightarrow>
            let s = s\<lparr>vm_previous_swaps := (vm_previous_swaps s)[vm_swap_num s mod 32 := Some e], vm_swap_num := vm_swap_num s + 1\<rparr> in
            obind (EvictPage s e) (\<lambda>s.
            Some (Inr (upd_entry e (\<lambda>en. en\<lparr>en_times_swapped := (en_times_swapped en + 1) mod 16\<rparr>) s))))"

fun evict_loop :: "(nat \<Rightarrow> bool \<times> bool) \<Rightarrow> bool \<Rightarrow> vm \<Rightarrow> nat \<Rightarrow> vm kres option" where
  "evict_loop usage has_swapfile s 0 = Some (Inr s)"
| "evict_loop usage has_swapfile s (Suc n) =
     (if ph_pages_left (vm_phys s) < NUM_RESERVE_PAGES
      then obind (EvictVirt usage has_swapfile s) (\<lambda>s. evict_loop usage has_swapfile s n)
      else Some (Inr s))"

definition EvictPagesIfNeeded :: "(nat \<Rightarrow> bool \<times> bool) \<Rightarrow> bool \<Rightarrow> bool \<Rightarrow> vm \<Rightarrow> vm kres option" where
  "EvictPagesIfNeeded usage has_swapfile handling_page_fault s =
     (if handling_page_fault then Some (Inr s)
      else
        let p = vm_phys s;
            p = (if ph_pages_left p < NUM_RESERVE_PAGES then p\<lparr>ph_cache_mode := DISKCACHE_TOSS\<rparr>
                 else if ph_pages_left p < NUM_RESERVE_PAGES * 3 div 2 then p\<lparr>ph_cache_mode := DISKCACHE_REDUCE\<rparr> else p) in
        evict_loop usage has_swapfile (s\<lparr>vm_phys := p\<rparr>) 5)"

subsection \<open>Page faults\<close>

definition BringIntoMemoryFromCow :: "vm \<Rightarrow> nat \<Rightarrow> vm kres option" where
  "BringIntoMemoryFromCow s e =
     (let v = vm_current s; en = vm_store s e in
      if en_ref_count en = 1
      then Some (Inr (ArchUpdateMapping (upd_entry e (\<lambda>en. en\<lparr>en_cow := False\<rparr>) s) e))
      else
        obind (Some (read_page s (en_virtual en))) (\<lambda>page_data.
        let s = upd_entry e (\<lambda>en. en\<lparr>en_ref_count := en_ref_count en - 1\<rparr>) s;
            s = (if en_ref_count (vm_store s e) = 1 then upd_entry e (\<lambda>en. en\<lparr>en_cow := False\<rparr>) s else s) in
        obind (AllocPhys (vm_phys s)) (\<lambda>(p, addr).
        let (s, n) = new_entry (s\<lparr>vm_phys := p\<rparr>) ((vm_store s e)\<lparr>en_ref_count := 1, en_physical := unat addr\<rparr>) in
        Some (if \<not> en_allocated (vm_store s e) then Inl PANIC_ASSERTION_FAILURE
              else
                let s = upd_entry n (\<lambda>en. en\<lparr>en_allocated := True, en_cow := False\<rparr>) s in
                kbind (DeleteFromAvl s v e) (\<lambda>s.
                kbind (InsertIntoAvl s v n) (\<lambda>s.
                write_page (ArchUpdateMapping s n) (en_virtual (vm_store s n)) page_data))))))"

definition BringIntoMemoryFromFile :: "vm \<Rightarrow> nat \<Rightarrow> nat \<Rightarrow> vm kres" where
  "BringIntoMemoryFromFile s e faulting_virt =
     kbind (SplitLargePageEntryIntoMultiple s (vm_current s) faulting_virt e 1) (\<lambda>(s, _).
     let s = ArchUpdateMapping (upd_entry e (\<lambda>en. en\<lparr>en_load_in_progress := True\<rparr>) s) e; en = vm_store s e in
     Inr (DeferDiskRead s (en_virtual en) (en_file_node en) (en_file_offset en) False))"

definition BringIntoMemoryFromSwapfile :: "vm \<Rightarrow> nat \<Rightarrow> vm kres" where
  "BringIntoMemoryFromSwapfile s e =
     kassert (\<not> ve_file (vm_store s e))
       (let offset = en_offset_or_base (vm_store s e);
            s = ArchUpdateMapping (upd_entry e (\<lambda>en. en\<lparr>en_load_in_progress := True\<rparr>) s) e in
        Inr (DeferDiskRead s (en_virtual (vm_store s e)) None offset True))"

text \<open>The boolean of the result tells whether \<^verbatim>\<open>UnhandledFault\<close> was called.\<close>

definition BringInBlankPage :: "vm \<Rightarrow> nat \<Rightarrow> nat \<Rightarrow> nat \<Rightarrow> u32 \<Rightarrow> (vm \<times> bool) kres option" where
  "BringInBlankPage s v e faulting_virt fault_type =
     (let en = vm_store s e in
      if flag fault_type VM_READ \<and> \<not> ve_read en \<or> flag fault_type VM_WRITE \<and> \<not> ve_write en \<or>
         flag fault_type VM_EXEC \<and> \<not> ve_exec en then Some (Inr (s, True))
      else
        obind (Some (SplitLargePageEntryIntoMultiple s v faulting_virt e 1)) (\<lambda>(s, _).
        if en_num_pages (vm_store s e) \<noteq> 1 then Some (Inl PANIC_ASSERTION_FAILURE)
        else
          obind (AllocPhys (vm_phys s)) (\<lambda>(p, addr).
          let s = upd_entry e (\<lambda>en. en\<lparr>en_physical := unat addr, en_allocated := True, en_in_ram := True,
                    en_allow_temp_write := True\<rparr>) (s\<lparr>vm_phys := p\<rparr>) in
          Some (kassert (\<not> en_swapfile (vm_store s e))
            (kbind (write_page (ArchUpdateMapping s e) (en_virtual (vm_store s e)) zero_page) (\<lambda>s.
             Inr (ArchUpdateMapping (upd_entry e (\<lambda>en. en\<lparr>en_allow_temp_write := False\<rparr>) s) e, False)))))))"

definition BringIntoMemory :: "vm \<Rightarrow> nat \<Rightarrow> nat \<Rightarrow> bool \<Rightarrow> nat \<Rightarrow> u32 \<Rightarrow> (vm \<times> bool \<times> errno) kres option" where
  "BringIntoMemory s v e allow_cow faulting_virt fault_type =
     (let en = vm_store s e in
      if en_cow en \<and> allow_cow
      then (if en_num_pages en \<noteq> 1 then Some (Inl PANIC_ASSERTION_FAILURE)
            else obind (BringIntoMemoryFromCow s e) (\<lambda>s. Some (Inr (s, False, ESUCCESS))))
      else if ve_file en \<and> \<not> en_in_ram en
      then Some (kbind (BringIntoMemoryFromFile s e faulting_virt) (\<lambda>s. Inr (s, False, ESUCCESS)))
      else if en_swapfile en
      then (if en_num_pages en \<noteq> 1 then Some (Inl PANIC_ASSERTION_FAILURE)
            else Some (kbind (BringIntoMemoryFromSwapfile s e) (\<lambda>s. Inr (s, False, ESUCCESS))))
      else if \<not> en_in_ram en
      then obind (BringInBlankPage s v e faulting_virt fault_type) (\<lambda>(s, segv). Some (Inr (s, segv, ESUCCESS)))
      else Some (Inr (s, False, EINVAL)))"

datatype fault_outcome = Fault_Handled | Fault_Retry | Fault_Segv

definition HandleVirtFault :: "vm \<Rightarrow> bool \<Rightarrow> nat \<Rightarrow> u32 \<Rightarrow> (vm \<times> fault_outcome) kres option" where
  "HandleVirtFault s irql_scheduler faulting_virt fault_type =
     (if irql_scheduler then Some (Inl PANIC_INVALID_IRQL)
      else case GetVirtEntry s (vm_current s) faulting_virt of
        None \<Rightarrow> Some (Inr (s, Fault_Segv))
      | Some e \<Rightarrow>
          let en = vm_store s e in
          if en_load_in_progress en then Some (Inr (s, Fault_Retry))
          else if en_in_ram en \<and> en_swapfile en \<or> ve_file en \<and> en_swapfile en \<or> \<not> en_in_ram en \<and> ve_lock en \<or>
                  en_cow en \<and> ve_lock en
          then Some (Inl PANIC_ASSERTION_FAILURE)
          else obind (BringIntoMemory s (vm_current s) e (flag fault_type VM_WRITE) faulting_virt fault_type)
                 (\<lambda>(s, segv, res). Some (Inr (s, if segv \<or> res \<noteq> ESUCCESS then Fault_Segv else Fault_Handled))))"

definition LockVirtEx :: "vm \<Rightarrow> nat \<Rightarrow> nat \<Rightarrow> (vm \<times> bool) kres option" where
  "LockVirtEx s v virtual =
     (case GetVirtEntry s v virtual of
        None \<Rightarrow> Some (Inl PANIC_UNHANDLED_KERNEL_EXCEPTION)
      | Some e \<Rightarrow>
          obind (if \<not> en_in_ram (vm_store s e)
                 then obind (Some (SplitLargePageEntryIntoMultiple s v virtual e 1)) (\<lambda>(s, _).
                      obind (BringIntoMemory s v e True virtual 0) (\<lambda>(s, _, res).
                      if res \<noteq> ESUCCESS then Some (Inl PANIC_CANNOT_LOCK_MEMORY)
                      else if \<not> en_in_ram (vm_store s e) then Some (Inl PANIC_ASSERTION_FAILURE)
                      else Some (Inr s)))
                 else Some (Inr s)) (\<lambda>s.
          Some (Inr (upd_entry e (ve_lock_update (\<lambda>_. True)) s, ve_lock (vm_store s e)))))"

definition UnlockVirtEx :: "vm \<Rightarrow> nat \<Rightarrow> nat \<Rightarrow> vm kres" where
  "UnlockVirtEx s v virtual =
     (case GetVirtEntry s v virtual of
        None \<Rightarrow> Inl PANIC_UNHANDLED_KERNEL_EXCEPTION
      | Some e \<Rightarrow> kbind (SplitLargePageEntryIntoMultiple s v virtual e 1) (\<lambda>(s, _).
                  Inr (upd_entry e (ve_lock_update (\<lambda>_. False)) s)))"

definition LockVirt :: "vm \<Rightarrow> nat \<Rightarrow> (vm \<times> bool) kres option" where
  "LockVirt s virtual = LockVirtEx s (vm_current s) virtual"

definition UnlockVirt :: "vm \<Rightarrow> nat \<Rightarrow> vm kres" where
  "UnlockVirt s virtual = UnlockVirtEx s (vm_current s) virtual"

subsection \<open>Unmapping\<close>

definition DereferenceEntry :: "vm \<Rightarrow> nat \<Rightarrow> nat \<Rightarrow> (vm \<times> bool) kres option" where
  "DereferenceEntry s v e =
     (if en_ref_count (vm_store s e) = 0 then Some (Inl PANIC_ASSERTION_FAILURE)
      else
        let s = upd_entry e (\<lambda>en. en\<lparr>en_ref_count := en_ref_count en - 1\<rparr>) s; en = vm_store s e in
        if en_ref_count en \<noteq> 0 then Some (Inr (s, False))
        else
          obind (if ve_file en \<and> ve_write en \<and> en_in_ram en
                 then DeferDiskWrite s (en_virtual en) (en_file_node en) (en_file_offset en) else Some (Inr s)) (\<lambda>s.
          let s = (if en_in_ram en then ArchUnmap s e else s) in
          if en_swapfile en \<and> en_allocated en then Some (Inl PANIC_ASSERTION_FAILURE)
          else
            let s = (if en_swapfile en then s\<lparr>vm_swap := DeallocSwap (vm_swap s) (en_physical en div PAGE)\<rparr> else s) in
            Some (kbind (if en_allocated en then dealloc_frame s (en_physical en) else Inr s) (\<lambda>s.
                  kbind (DeleteFromAvl s v e) (\<lambda>s. Inr (s, en_in_ram en))))))"

fun unmap_loop :: "vm \<Rightarrow> nat \<Rightarrow> nat \<Rightarrow> bool \<Rightarrow> nat list \<Rightarrow> (vm \<times> errno) kres option" where
  "unmap_loop s v virtual allow_non_exist [] = Some (Inr (s, ESUCCESS))"
| "unmap_loop s v virtual allow_non_exist (i # is) =
     (case GetVirtEntry s v (virtual + i * PAGE) of
        None \<Rightarrow> if allow_non_exist then unmap_loop s v virtual allow_non_exist is else Some (Inr (s, EINVAL))
      | Some e \<Rightarrow>
          obind (Some (SplitLargePageEntryIntoMultiple s v virtual e 1)) (\<lambda>(s, _).
          obind (DereferenceEntry s v e) (\<lambda>(s, _).
          unmap_loop s v virtual allow_non_exist is)))"

definition UnmapVirtEx :: "vm \<Rightarrow> nat \<Rightarrow> nat \<Rightarrow> nat \<Rightarrow> bool \<Rightarrow> (vm \<times> errno) kres option" where
  "UnmapVirtEx s v virtual pages allow_non_exist = unmap_loop s v virtual allow_non_exist [0..<pages]"

definition UnmapVirt :: "vm \<Rightarrow> nat \<Rightarrow> nat \<Rightarrow> (vm \<times> errno) kres option" where
  "UnmapVirt s virtual bytes = UnmapVirtEx s (vm_current s) virtual (unat (BytesToPages (of_nat bytes))) False"

subsection \<open>Copying an address space\<close>

fun CopyVasRecursive :: "vm \<Rightarrow> nat tree_node \<Rightarrow> nat \<Rightarrow> vm kres" where
  "CopyVasRecursive s TNull new_vas = Inr s"
| "CopyVasRecursive s (TNode l e r) new_vas =
     (let en = vm_store s e in
      kbind (if ve_lock en
             then kassert (en_in_ram en) (kassert (\<not> en_share_on_fork en)
                    (if en_allocated en then Inl PANIC_NOT_IMPLEMENTED else Inl PANIC_UNKNOWN))
             else
               let s = upd_entry e (\<lambda>en. en\<lparr>en_cow := (if en_share_on_fork en then en_cow en else True),
                         en_ref_count := en_ref_count en + 1\<rparr>) s in
               kbind (TreeInsert (tree_at (vm_store s) (vm_mappings s new_vas)) e) (\<lambda>t.
               let s = s\<lparr>vm_mappings := (vm_mappings s)(new_vas := t)\<rparr>;
                   current_vas = vm_current s;
                   s = ArchUpdateMapping s e;
                   s = ArchUpdateMapping (SetVas s new_vas) e in
               Inr (SetVas s current_vas))) (\<lambda>s.
      kbind (CopyVasRecursive s l new_vas) (\<lambda>s. CopyVasRecursive s r new_vas)))"

definition CopyVas :: "vm \<Rightarrow> nat \<Rightarrow> vm kres" where
  "CopyVas s new_vas = CopyVasRecursive s (t_root (vm_mappings s (vm_current s))) new_vas"

end
