(* ===== verification/VirtTree.thy ===== *)
theory VirtTree
  imports VirtMem
begin

text \<open>
  The trees of virtual memory entries: on entries that cover disjoint ranges of pages the tree
  operations of adt/tree.c implement a set, and a search finds the entry that covers a page.
  The comparison function of virtual.c calls overlapping entries equal, which is no equivalence;
  on disjoint entries it agrees with the comparison of addresses, and that one satisfies the laws of
  \<open>tree_comparator\<close>.
\<close>

definition first_page :: "vm_entry \<Rightarrow> nat" where
  "first_page en = en_virtual en div PAGE"

definition covers :: "vm_entry \<Rightarrow> nat \<Rightarrow> bool" where
  "covers en page \<longleftrightarrow> first_page en \<le> page \<and> page < first_page en + en_num_pages en"

definition shape_ok :: "vm_entry \<Rightarrow> bool" where
  "shape_ok en \<longleftrightarrow> en_virtual en mod PAGE = 0 \<and> 0 < en_num_pages en"

definition apart_entries :: "vm_entry \<Rightarrow> vm_entry \<Rightarrow> bool" where
  "apart_entries a b \<longleftrightarrow> (\<forall>page. \<not> (covers a page \<and> covers b page))"

definition below :: "vm_entry \<Rightarrow> vm_entry \<Rightarrow> bool" where
  "below a b \<longleftrightarrow> first_page a + en_num_pages a \<le> first_page b"

lemma apart_iff:
  assumes "shape_ok a" "shape_ok b"
  shows "apart_entries a b \<longleftrightarrow> below a b \<or> below b a"
proof
  assume apart: "apart_entries a b"
  show "below a b \<or> below b a"
  proof (rule ccontr)
    assume "\<not> (below a b \<or> below b a)"
    then have "covers a (max (first_page a) (first_page b))" "covers b (max (first_page a) (first_page b))"
      using assms by (auto simp: below_def covers_def shape_ok_def max_def)
    with apart show False by (auto simp: apart_entries_def)
  qed
qed (auto simp: apart_entries_def below_def covers_def)

lemma apart_sym: "apart_entries a b \<longleftrightarrow> apart_entries b a"
  by (auto simp: apart_entries_def)

lemma virtual_first_page: "shape_ok en \<Longrightarrow> en_virtual en = first_page en * PAGE"
  by (auto simp: shape_ok_def first_page_def)

text \<open>The comparison by address.\<close>

definition by_address :: "(nat \<Rightarrow> vm_entry) \<Rightarrow> nat \<Rightarrow> nat \<Rightarrow> int" where
  "by_address st a b = (if en_virtual (st a) > en_virtual (st b) then 1 else if en_virtual (st a) < en_virtual (st b) then -1 else 0)"

interpretation adr: tree_comparator "by_address st" for st
  by unfold_locales (auto simp: by_address_def split: if_splits)

lemma virtual_less:
  "shape_ok a \<Longrightarrow> shape_ok b \<Longrightarrow> en_virtual a < en_virtual b \<longleftrightarrow> first_page a < first_page b"
  by (simp add: virtual_first_page)

lemma by_address_pages:
  assumes "shape_ok (st a)" "shape_ok (st b)"
  shows "by_address st a b = (if first_page (st b) < first_page (st a) then 1 else if first_page (st a) < first_page (st b) then -1 else 0)"
  using assms by (simp add: by_address_def virtual_less)

lemma comparator_pages:
  assumes "shape_ok (st a)" "shape_ok (st b)"
  shows "VirtAvlComparator st a b = (if covers (st b) (first_page (st a)) \<or> covers (st a) (first_page (st b)) then 0 else by_address st a b)"
  using assms by (simp add: VirtAvlComparator_def by_address_def covers_def first_page_def Let_def)

lemma comparator_by_address:
  assumes "shape_ok (st a)" "shape_ok (st b)" "a = b \<or> apart_entries (st a) (st b)"
  shows "VirtAvlComparator st a b = by_address st a b"
proof (cases "a = b")
  case True
  then show ?thesis using assms(1) by (simp add: comparator_pages by_address_def)
next
  case False
  then have "apart_entries (st a) (st b)" using assms(3) by blast
  moreover have "covers (st a) (first_page (st a))" "covers (st b) (first_page (st b))"
    using assms(1,2) by (simp_all add: covers_def shape_ok_def)
  ultimately show ?thesis using assms(1,2) by (auto simp: comparator_pages apart_entries_def)
qed

lemma by_address_apart:
  assumes "shape_ok (st a)" "shape_ok (st b)" "apart_entries (st a) (st b)"
  shows "by_address st a b \<noteq> 0"
proof -
  have "below (st a) (st b) \<or> below (st b) (st a)" using assms apart_iff by blast
  then show ?thesis using assms(1,2) by (auto simp: by_address_pages below_def shape_ok_def)
qed

lemma comparator_dummy:
  assumes "shape_ok (st e)" "en_virtual (st d) = page * PAGE" "en_num_pages (st d) = 1"
  shows "VirtAvlComparator st e d = 0 \<longleftrightarrow> covers (st e) page"
proof -
  have d: "shape_ok (st d)" "first_page (st d) = page" using assms(2,3) by (simp_all add: shape_ok_def first_page_def)
  have "covers (st d) (first_page (st e)) \<longleftrightarrow> first_page (st e) = page" using d(2) assms(3) by (auto simp: covers_def)
  moreover have "covers (st e) page" if "first_page (st e) = page" using that assms(1) by (simp add: covers_def shape_ok_def)
  ultimately show ?thesis using assms(1) d by (auto simp: comparator_pages by_address_pages)
qed

subsection \<open>Well-formed trees\<close>

definition tree_set :: "nat tree \<Rightarrow> nat set" where
  "tree_set t = set (AvlPrint (t_root t))"

definition tree_inv :: "(nat \<Rightarrow> vm_entry) \<Rightarrow> nat tree \<Rightarrow> bool" where
  "tree_inv st t \<longleftrightarrow> balanced (t_root t) \<and> sorted_wrt (\<lambda>a b. below (st a) (st b)) (AvlPrint (t_root t)) \<and>
     (\<forall>e\<in>tree_set t. shape_ok (st e)) \<and> t_size t = int (length (AvlPrint (t_root t)))"

lemma tree_inv_apart:
  assumes "tree_inv st t" "a \<in> tree_set t" "b \<in> tree_set t" "a \<noteq> b"
  shows "apart_entries (st a) (st b)"
proof -
  let ?xs = "AvlPrint (t_root t)"
  obtain i j where ij: "i < length ?xs" "j < length ?xs" "a = ?xs ! i" "b = ?xs ! j"
    using assms(2,3) by (auto simp: tree_set_def in_set_conv_nth)
  then have "i < j \<or> j < i" using assms(4) by (cases i j rule: linorder_cases) auto
  then have "below (st a) (st b) \<or> below (st b) (st a)"
    using assms(1) ij by (auto simp: tree_inv_def sorted_wrt_iff_nth_less)
  then show ?thesis using assms(1-3) by (simp add: apart_iff tree_inv_def)
qed

lemma tree_inv_covers_unique:
  assumes "tree_inv st t" "a \<in> tree_set t" "b \<in> tree_set t" "covers (st a) page" "covers (st b) page"
  shows "a = b"
  using tree_inv_apart [OF assms(1-3)] assms(4,5) by (auto simp: apart_entries_def)

text \<open>A tree of disjoint entries is well formed for the comparison by address, and conversely.\<close>

lemma tree_ok_by_address:
  assumes "tree_inv st t"
  shows "tree_ok (TreeSetComparator t (by_address st))"
proof -
  have "by_address st a b < 0" if "below (st a) (st b)" "shape_ok (st a)" "shape_ok (st b)" for a b
    using that by (auto simp: by_address_pages below_def shape_ok_def)
  then have "cmp_strict (by_address st) (AvlPrint (t_root t))"
    using assms unfolding cmp_strict_def tree_inv_def tree_set_def by (auto elim: sorted_wrt_mono_rel [rotated])
  then show ?thesis using assms by (simp add: tree_ok_def tree_inv_def TreeSetComparator_def)
qed

lemma tree_inv_by_address:
  assumes "tree_ok (TreeSetComparator t (by_address st))" "\<forall>e\<in>tree_set t. shape_ok (st e)"
    "\<And>a b. a \<in> tree_set t \<Longrightarrow> b \<in> tree_set t \<Longrightarrow> a \<noteq> b \<Longrightarrow> apart_entries (st a) (st b)"
  shows "tree_inv st t"
proof -
  have "below (st a) (st b)" if "a \<in> tree_set t" "b \<in> tree_set t" "by_address st a b < 0" for a b
  proof -
    have lt: "en_virtual (st a) < en_virtual (st b)" using that(3) by (auto simp: by_address_def split: if_splits)
    then have "a \<noteq> b" by auto
    then have "below (st a) (st b) \<or> below (st b) (st a)" using assms(2,3) that(1,2) apart_iff by blast
    moreover have "first_page (st a) < first_page (st b)" using lt assms(2) that(1,2) by (simp add: virtual_less)
    ultimately show ?thesis by (auto simp: below_def)
  qed
  then have "sorted_wrt (\<lambda>a b. below (st a) (st b)) (AvlPrint (t_root t))"
    using assms(1) unfolding tree_ok_def cmp_strict_def TreeSetComparator_def tree_set_def
    by (auto elim: sorted_wrt_mono_rel [rotated])
  then show ?thesis using assms(1,2) by (simp add: tree_inv_def tree_ok_def TreeSetComparator_def)
qed

lemma tree_set_comparator [simp]: "tree_set (TreeSetComparator t c) = tree_set t" "t_root (TreeSetComparator t c) = t_root t"
  "t_comparator (TreeSetComparator t c) = c" "t_size (TreeSetComparator t c) = t_size t"
  by (simp_all add: tree_set_def TreeSetComparator_def)

lemma tree_set_fields: "t_root t = t_root t' \<Longrightarrow> tree_set t = tree_set t'"
  by (simp add: tree_set_def)

lemma tree_inv_cong: "t_root t = t_root t' \<Longrightarrow> t_size t = t_size t' \<Longrightarrow> tree_inv st t = tree_inv st t'"
  by (simp add: tree_inv_def tree_set_def)

subsection \<open>Operations on the trees\<close>

lemma TreeInsert_comparator:
  assumes "TreeInsert (TreeSetComparator t c) d = Inr r" "AvlInsert c (t_root t) d = AvlInsert c' (t_root t) d"
  shows "TreeInsert (TreeSetComparator t c') d = Inr (TreeSetComparator r c')"
  using assms by (cases "t_root t = TNull") (auto simp: TreeInsert_def TreeSetComparator_def)

lemma tree_insert:
  assumes inv: "tree_inv st t" and e: "shape_ok (st e)" "e \<notin> tree_set t"
    and apart: "\<And>x. x \<in> tree_set t \<Longrightarrow> apart_entries (st e) (st x)"
  obtains t' where "TreeInsert (tree_at st t) e = Inr t'" "tree_inv st t'" "tree_set t' = insert e (tree_set t)"
proof -
  let ?r = "TreeSetComparator t (by_address st)"
  have shapes: "shape_ok (st x)" if "x \<in> tree_set t" for x using inv that by (simp add: tree_inv_def)
  have agree: "AvlInsert (VirtAvlComparator st) (t_root t) e = AvlInsert (by_address st) (t_root t) e"
    using apart shapes e(1) by (intro AvlInsert_cong comparator_by_address) (auto simp: tree_set_def)
  have "by_address st x e \<noteq> 0" if "x \<in> tree_set t" for x
    by (rule by_address_apart) (use apart [OF that] e(1) shapes [OF that] in \<open>auto simp: apart_entries_def\<close>)
  then have "\<not> TreeContains ?r e" by (auto simp: TreeContains_def AvlContains_ex tree_set_def)
  with TreeInsert_ok [of ?r e] tree_ok_by_address [OF inv] adr.tree_comparator_axioms obtain r' where
    r': "TreeInsert ?r e = Inr r'" "tree_ok r'" "t_comparator r' = by_address st"
      "mset (AvlPrint (t_root r')) = add_mset e (mset (AvlPrint (t_root t)))" by auto
  define t' where "t' = TreeSetComparator r' (VirtAvlComparator st)"
  have set_r': "tree_set r' = insert e (tree_set t)"
    using arg_cong [OF r'(4), of set_mset] by (simp add: tree_set_def)
  have ins: "TreeInsert (tree_at st t) e = Inr t'"
    unfolding t'_def by (rule TreeInsert_comparator [OF r'(1) agree [symmetric]])
  have "TreeSetComparator r' (by_address st) = r'" using r'(3) by (simp add: TreeSetComparator_def)
  then have ok: "tree_ok (TreeSetComparator r' (by_address st))" using r'(2) by simp
  have "tree_inv st r'"
  proof (rule tree_inv_by_address [OF ok])
    show "\<forall>x\<in>tree_set r'. shape_ok (st x)" using shapes e(1) unfolding set_r' by blast
    fix a b assume "a \<in> tree_set r'" "b \<in> tree_set r'" "a \<noteq> b"
    then have "(a = e \<and> b \<in> tree_set t) \<or> (b = e \<and> a \<in> tree_set t) \<or> (a \<in> tree_set t \<and> b \<in> tree_set t)"
      unfolding set_r' by blast
    then show "apart_entries (st a) (st b)"
      using apart apart_sym tree_inv_apart [OF inv _ _ \<open>a \<noteq> b\<close>] by blast
  qed
  then have "tree_inv st t'" using tree_inv_cong [of t' r' st] by (simp add: t'_def)
  then show thesis using that [OF ins] set_r' by (simp add: t'_def)
qed

lemma tree_delete:
  assumes inv: "tree_inv st t" and e: "e \<in> tree_set t"
  obtains t' where "TreeDelete (tree_at st t) e = Inr t'" "tree_inv st t'" "tree_set t' = tree_set t - {e}"
proof -
  let ?r = "TreeSetComparator t (by_address st)"
  have shapes: "shape_ok (st x)" if "x \<in> tree_set t" for x using inv that by (simp add: tree_inv_def)
  have agree: "AvlDelete (VirtAvlComparator st) (t_root t) e = AvlDelete (by_address st) (t_root t) e"
    using e shapes tree_inv_apart [OF inv] by (intro AvlDelete_cong comparator_by_address) (auto simp: tree_set_def)
  have cmp0: "by_address st e x \<noteq> 0 \<longleftrightarrow> x \<noteq> e" if "x \<in> tree_set t" for x
  proof (cases "x = e")
    case False
    then show ?thesis using by_address_apart [of st e x] tree_inv_apart [OF inv e that] shapes [OF e] shapes [OF that] by auto
  qed (simp add: by_address_def)
  have "TreeContains ?r e" using e by (auto simp: TreeContains_def AvlContains_ex tree_set_def by_address_def)
  with TreeDelete_ok [of ?r e] tree_ok_by_address [OF inv] adr.tree_comparator_axioms obtain r' where
    r': "TreeDelete ?r e = Inr r'" "tree_ok r'"
      "AvlPrint (t_root r') = filter (\<lambda>y. by_address st e y \<noteq> 0) (AvlPrint (t_root t))" by auto
  have r'_cmp: "t_comparator r' = by_address st" using r'(1) by (auto simp: TreeDelete_def)
  have set_r': "tree_set r' = tree_set t - {e}" using cmp0 by (auto simp: tree_set_def r'(3))
  define t' where "t' = TreeSetComparator r' (VirtAvlComparator st)"
  have del: "TreeDelete (tree_at st t) e = Inr t'"
    using r'(1) agree by (auto simp: TreeDelete_def TreeSetComparator_def t'_def kbind_def split: sum.splits)
  have "TreeSetComparator r' (by_address st) = r'" using r'_cmp by (simp add: TreeSetComparator_def)
  then have ok: "tree_ok (TreeSetComparator r' (by_address st))" using r'(2) by simp
  have "tree_inv st r'"
  proof (rule tree_inv_by_address [OF ok])
    show "\<forall>x\<in>tree_set r'. shape_ok (st x)" using shapes unfolding set_r' by blast
    show "apart_entries (st a) (st b)" if "a \<in> tree_set r'" "b \<in> tree_set r'" "a \<noteq> b" for a b
      using tree_inv_apart [OF inv _ _ that(3)] that(1,2) unfolding set_r' by blast
  qed
  then have "tree_inv st t'" using tree_inv_cong [of t' r' st] by (simp add: t'_def)
  then show thesis using that [OF del] set_r' by (simp add: t'_def)
qed

text \<open>Changing entries in place keeps a tree well formed as long as every entry covers a part of
  what it covered.\<close>

definition shrinks :: "vm_entry \<Rightarrow> vm_entry \<Rightarrow> bool" where
  "shrinks en en' \<longleftrightarrow> shape_ok en' \<and> first_page en \<le> first_page en' \<and>
     first_page en' + en_num_pages en' \<le> first_page en + en_num_pages en"

lemma tree_inv_shrink:
  assumes "tree_inv st t" "\<And>e. e \<in> tree_set t \<Longrightarrow> shrinks (st e) (st' e)"
  shows "tree_inv st' t"
proof -
  have "below (st' a) (st' b)" if "a \<in> tree_set t" "b \<in> tree_set t" "below (st a) (st b)" for a b
    using that(3) assms(2) [OF that(1)] assms(2) [OF that(2)] by (auto simp: below_def shrinks_def)
  then have "sorted_wrt (\<lambda>a b. below (st' a) (st' b)) (AvlPrint (t_root t))"
    using assms(1) unfolding tree_inv_def tree_set_def by (auto elim: sorted_wrt_mono_rel [rotated])
  then show ?thesis using assms by (auto simp: tree_inv_def shrinks_def)
qed

lemma shrinks_refl: "shape_ok en \<Longrightarrow> shrinks en en"
  by (simp add: shrinks_def)

lemma tree_get:
  assumes inv: "tree_inv st t" and d: "d \<notin> tree_set t" "\<And>x. x \<in> tree_set t \<Longrightarrow> st' x = st x"
    "en_virtual (st' d) = page * PAGE" "en_num_pages (st' d) = 1"
  shows "TreeGet (tree_at st' t) d = Some e \<longleftrightarrow> e \<in> tree_set t \<and> covers (st e) page"
    "TreeGet (tree_at st' t) d = None \<longleftrightarrow> (\<forall>e\<in>tree_set t. \<not> covers (st e) page)"
    "TreeContains (tree_at st' t) d \<longleftrightarrow> (\<exists>e\<in>tree_set t. covers (st e) page)"
proof -
  have cmp: "VirtAvlComparator st' x d = 0 \<longleftrightarrow> covers (st x) page" if "x \<in> tree_set t" for x
    using comparator_dummy [of st' x d page] d(2-4) that inv by (simp add: tree_inv_def)
  show none: "TreeGet (tree_at st' t) d = None \<longleftrightarrow> (\<forall>e\<in>tree_set t. \<not> covers (st e) page)"
    using cmp by (auto simp: TreeGet_def AvlGet_iff(2) tree_set_def)
  show "TreeContains (tree_at st' t) d \<longleftrightarrow> (\<exists>e\<in>tree_set t. covers (st e) page)"
    using cmp by (auto simp: TreeContains_def AvlContains_ex tree_set_def)
  have some: "x \<in> tree_set t \<and> covers (st x) page" if "TreeGet (tree_at st' t) d = Some x" for x
    using AvlGet_iff(1) that cmp unfolding TreeGet_def tree_set_def by fastforce
  show "TreeGet (tree_at st' t) d = Some e \<longleftrightarrow> e \<in> tree_set t \<and> covers (st e) page"
  proof
    assume e: "e \<in> tree_set t \<and> covers (st e) page"
    then obtain x where "TreeGet (tree_at st' t) d = Some x" using none by (cases "TreeGet (tree_at st' t) d") auto
    then have x: "TreeGet (tree_at st' t) d = Some x" .
    have "x = e" using some [OF x] e tree_inv_covers_unique [OF inv] by blast
    with x show "TreeGet (tree_at st' t) d = Some e" by simp
  qed (rule some)
qed

end
