(* ===== verification/VirtMap.thy ===== *)
theory VirtMap
  imports VirtTree
begin

text \<open>
  Address spaces page by page: the operations of virtual.c on entries that cover ranges of pages
  implement a map from page numbers to the entry of that page alone.
\<close>

subsection \<open>The entry of a page\<close>

text \<open>What an entry says about one of its pages, as an entry for that page alone.\<close>

definition page_entry :: "vm_entry \<Rightarrow> nat \<Rightarrow> vm_entry" where
  "page_entry en page = en\<lparr>en_virtual := page * PAGE, en_num_pages := 1,
     en_physical := (if en_physical en = 0 then 0 else en_physical en + (page - first_page en) * PAGE),
     en_file_offset := (if ve_file en then en_file_offset en + (page - first_page en) * PAGE else en_file_offset en)\<rparr>"

definition entry_pages :: "vm_entry \<Rightarrow> (nat \<times> vm_entry) set" where
  "entry_pages en = {(page, page_entry en page) | page. covers en page}"

definition page_map :: "(nat \<Rightarrow> vm_entry) \<Rightarrow> nat tree \<Rightarrow> (nat \<times> vm_entry) set" where
  "page_map st t = (\<Union>e\<in>tree_set t. entry_pages (st e))"

lemma in_page_map: "(page, en) \<in> page_map st t \<longleftrightarrow> (\<exists>e\<in>tree_set t. covers (st e) page \<and> en = page_entry (st e) page)"
  by (auto simp: page_map_def entry_pages_def)

lemma Domain_page_map: "page \<in> Domain (page_map st t) \<longleftrightarrow> (\<exists>e\<in>tree_set t. covers (st e) page)"
  unfolding Domain_iff in_page_map by blast

lemma page_map_unique: "tree_inv st t \<Longrightarrow> (page, a) \<in> page_map st t \<Longrightarrow> (page, b) \<in> page_map st t \<Longrightarrow> a = b"
  unfolding in_page_map using tree_inv_covers_unique by blast

lemma page_map_cong: "tree_set t = tree_set t' \<Longrightarrow> (\<And>e. e \<in> tree_set t \<Longrightarrow> st e = st' e) \<Longrightarrow> page_map st t = page_map st' t'"
  by (simp add: page_map_def)

abbreviation local_entries :: "vm \<Rightarrow> nat \<Rightarrow> nat set" where
  "local_entries s v \<equiv> tree_set (vm_mappings s v)"

abbreviation global_entries :: "vm \<Rightarrow> nat set" where
  "global_entries s \<equiv> tree_set (vm_global s)"

abbreviation local_map :: "vm \<Rightarrow> nat \<Rightarrow> (nat \<times> vm_entry) set" where
  "local_map s v \<equiv> page_map (vm_store s) (vm_mappings s v)"

abbreviation global_map :: "vm \<Rightarrow> (nat \<times> vm_entry) set" where
  "global_map s \<equiv> page_map (vm_store s) (vm_global s)"

text \<open>The invariant of the trees.\<close>

definition vm_inv :: "vm \<Rightarrow> bool" where
  "vm_inv s \<longleftrightarrow>
     (\<forall>v. tree_inv (vm_store s) (vm_mappings s v) \<and> (\<forall>e\<in>local_entries s v. e < vm_next s \<and> \<not> ve_global (vm_store s e))) \<and>
     tree_inv (vm_store s) (vm_global s) \<and> (\<forall>e\<in>global_entries s. e < vm_next s \<and> ve_global (vm_store s e))"

lemma vm_invD:
  assumes "vm_inv s"
  shows "tree_inv (vm_store s) (vm_mappings s v)" "tree_inv (vm_store s) (vm_global s)"
    "e \<in> local_entries s v \<Longrightarrow> e < vm_next s" "e \<in> global_entries s \<Longrightarrow> e < vm_next s"
    "e \<in> local_entries s v \<Longrightarrow> \<not> ve_global (vm_store s e)" "e \<in> global_entries s \<Longrightarrow> ve_global (vm_store s e)"
    "e \<in> local_entries s v \<or> e \<in> global_entries s \<Longrightarrow> shape_ok (vm_store s e)"
  using assms by (auto simp: vm_inv_def tree_inv_def)

text \<open>The tree an entry belongs to.\<close>

definition home :: "vm \<Rightarrow> nat \<Rightarrow> nat \<Rightarrow> nat tree" where
  "home s v e = (if ve_global (vm_store s e) then vm_global s else vm_mappings s v)"

lemma home_entries:
  assumes "vm_inv s"
  shows "e \<in> tree_set (home s v e) \<longleftrightarrow> e \<in> local_entries s v \<or> e \<in> global_entries s"
  using vm_invD(5,6) [OF assms] by (auto simp: home_def)

subsection \<open>Searching\<close>

lemma dummy_fields [simp]:
  "e \<noteq> vm_next s \<Longrightarrow> dummy_at s a e = vm_store s e" "en_virtual (dummy_at s a (vm_next s)) = a"
  "en_num_pages (dummy_at s a (vm_next s)) = 1"
  by (simp_all add: dummy_at_def)

lemma tree_get_dummy:
  assumes "tree_inv (vm_store s) t" "\<And>e. e \<in> tree_set t \<Longrightarrow> e < vm_next s"
  shows "TreeGet (tree_at (dummy_at s (page * PAGE)) t) (vm_next s) = Some e \<longleftrightarrow> e \<in> tree_set t \<and> covers (vm_store s e) page"
    "TreeGet (tree_at (dummy_at s (page * PAGE)) t) (vm_next s) = None \<longleftrightarrow> (\<forall>e\<in>tree_set t. \<not> covers (vm_store s e) page)"
    "TreeContains (tree_at (dummy_at s (page * PAGE)) t) (vm_next s) \<longleftrightarrow> (\<exists>e\<in>tree_set t. covers (vm_store s e) page)"
proof -
  have d: "vm_next s \<notin> tree_set t" "\<And>x. x \<in> tree_set t \<Longrightarrow> dummy_at s (page * PAGE) x = vm_store s x"
    using assms(2) by (force intro: dummy_fields)+
  note get = tree_get [OF assms(1) d dummy_fields(2) dummy_fields(3)]
  show "TreeGet (tree_at (dummy_at s (page * PAGE)) t) (vm_next s) = Some e \<longleftrightarrow> e \<in> tree_set t \<and> covers (vm_store s e) page"
    by (rule get(1))
  show "TreeGet (tree_at (dummy_at s (page * PAGE)) t) (vm_next s) = None \<longleftrightarrow> (\<forall>e\<in>tree_set t. \<not> covers (vm_store s e) page)"
    by (rule get(2))
  show "TreeContains (tree_at (dummy_at s (page * PAGE)) t) (vm_next s) \<longleftrightarrow> (\<exists>e\<in>tree_set t. covers (vm_store s e) page)"
    by (rule get(3))
qed

lemma GetVirtEntry_Some:
  assumes "vm_inv s"
  shows "GetVirtEntry s v virtual = Some e \<longleftrightarrow>
    e \<in> local_entries s v \<and> covers (vm_store s e) (virtual div PAGE) \<or>
    (\<forall>x\<in>local_entries s v. \<not> covers (vm_store s x) (virtual div PAGE)) \<and>
      e \<in> global_entries s \<and> covers (vm_store s e) (virtual div PAGE)"
proof -
  have lt: "\<And>e. e \<in> local_entries s v \<Longrightarrow> e < vm_next s" using vm_invD(3) [OF assms] by blast
  note get = tree_get_dummy [where t = "vm_mappings s v" and page = "virtual div PAGE", OF vm_invD(1) [OF assms] lt]
  note gget = tree_get_dummy [where page = "virtual div PAGE", OF vm_invD(2) [OF assms] vm_invD(4) [OF assms]]
  show ?thesis
  proof (cases "TreeGet (tree_at (dummy_at s (virtual div PAGE * PAGE)) (vm_mappings s v)) (vm_next s)")
    case None
    with get(2) have "\<forall>x\<in>local_entries s v. \<not> covers (vm_store s x) (virtual div PAGE)" by blast
    with None show ?thesis using gget(1) [of e] by (auto simp: GetVirtEntry_def Let_def)
  next
    case (Some x)
    then have x: "x \<in> local_entries s v" "covers (vm_store s x) (virtual div PAGE)" using get(1) by blast+
    then have "e \<in> local_entries s v \<and> covers (vm_store s e) (virtual div PAGE) \<longleftrightarrow> e = x"
      using tree_inv_covers_unique [OF vm_invD(1) [OF assms]] by blast
    with Some x show ?thesis by (auto simp: GetVirtEntry_def Let_def)
  qed
qed

lemma GetVirtEntry_home:
  assumes "vm_inv s" "GetVirtEntry s v virtual = Some e"
  shows "e \<in> tree_set (home s v e)" "covers (vm_store s e) (virtual div PAGE)" "e < vm_next s" "shape_ok (vm_store s e)"
proof -
  have "e \<in> local_entries s v \<or> e \<in> global_entries s" "covers (vm_store s e) (virtual div PAGE)"
    using assms(2) GetVirtEntry_Some [OF assms(1)] by blast+
  then show "e \<in> tree_set (home s v e)" "covers (vm_store s e) (virtual div PAGE)" "e < vm_next s" "shape_ok (vm_store s e)"
    using home_entries [OF assms(1)] vm_invD(3,4,7) [OF assms(1)] by blast+
qed

text \<open>The view of an address space: the entry of each page, mappings of the address space itself
  first.\<close>

definition view :: "vm \<Rightarrow> nat \<Rightarrow> nat \<Rightarrow> vm_entry option" where
  "view s v page = map_option (\<lambda>e. page_entry (vm_store s e) page) (GetVirtEntry s v (page * PAGE))"

lemma view_iff:
  assumes "vm_inv s"
  shows "view s v page = Some en \<longleftrightarrow>
    (page, en) \<in> local_map s v \<or> page \<notin> Domain (local_map s v) \<and> (page, en) \<in> global_map s"
proof -
  have dom: "page \<notin> Domain (local_map s v) \<longleftrightarrow> (\<forall>x\<in>local_entries s v. \<not> covers (vm_store s x) page)"
    by (auto simp: Domain_iff in_page_map)
  have page: "page * PAGE div PAGE = page" by simp
  have "view s v page = Some en \<longleftrightarrow> (\<exists>e. GetVirtEntry s v (page * PAGE) = Some e \<and> en = page_entry (vm_store s e) page)"
    by (auto simp: view_def)
  then show ?thesis unfolding GetVirtEntry_Some [OF assms] dom in_page_map page by blast
qed

lemma view_eqI:
  assumes "vm_inv s" "vm_inv s'" "local_map s' v = local_map s v" "global_map s' = global_map s"
  shows "view s' v = view s v"
proof
  fix page
  have "view s' v page = Some en \<longleftrightarrow> view s v page = Some en" for en
    unfolding view_iff [OF assms(1)] view_iff [OF assms(2)] assms(3,4) ..
  then show "view s' v page = view s v page" by (metis not_None_eq)
qed

subsection \<open>Changing the trees\<close>

text \<open>The fields other than the store and the trees.\<close>

definition same_rest :: "vm \<Rightarrow> vm \<Rightarrow> bool" where
  "same_rest s s' \<longleftrightarrow> vm_current s' = vm_current s \<and> vm_pte s' = vm_pte s \<and> vm_phys s' = vm_phys s \<and> vm_swap s' = vm_swap s \<and>
     vm_frame s' = vm_frame s \<and> vm_files s' = vm_files s \<and> vm_file_refs s' = vm_file_refs s \<and>
     vm_local_brk s' = vm_local_brk s \<and> vm_kernel_brk s' = vm_kernel_brk s \<and> vm_deferred s' = vm_deferred s \<and>
     vm_previous_swaps s' = vm_previous_swaps s \<and> vm_swap_num s' = vm_swap_num s \<and> vm_rand s' = vm_rand s"

lemma same_rest_refl [simp]: "same_rest s s"
  by (simp add: same_rest_def)

lemma same_rest_trans: "same_rest s s' \<Longrightarrow> same_rest s' s'' \<Longrightarrow> same_rest s s''"
  by (simp add: same_rest_def)

text \<open>Inserting a new entry.\<close>

lemma InsertIntoAvl_ok:
  assumes inv: "vm_inv s" and e: "shape_ok (vm_store s e)" "e < vm_next s" "e \<notin> tree_set (home s v e)"
    and apart: "\<And>x. x \<in> tree_set (home s v e) \<Longrightarrow> apart_entries (vm_store s e) (vm_store s x)"
  obtains s' where "InsertIntoAvl s v e = Inr s'" "vm_inv s'" "vm_store s' = vm_store s" "vm_next s' = vm_next s" "same_rest s s'"
    "\<And>w. local_entries s' w = (if \<not> ve_global (vm_store s e) \<and> w = v then insert e (local_entries s w) else local_entries s w)"
    "global_entries s' = (if ve_global (vm_store s e) then insert e (global_entries s) else global_entries s)"
proof (cases "ve_global (vm_store s e)")
  case True
  then obtain t where t: "TreeInsert (tree_at (vm_store s) (vm_global s)) e = Inr t" "tree_inv (vm_store s) t"
    "tree_set t = insert e (global_entries s)"
    using tree_insert [OF vm_invD(2) [OF inv] e(1)] e(3) apart by (auto simp: home_def)
  let ?s = "s\<lparr>vm_global := t\<rparr>"
  have "vm_inv ?s" using inv t(2,3) e(2) True by (auto simp: vm_inv_def)
  moreover have "InsertIntoAvl s v e = Inr ?s" using True t(1) by (simp add: InsertIntoAvl_def)
  ultimately show thesis using that [of ?s] True t(3) by (simp add: same_rest_def)
next
  case False
  then obtain t where t: "TreeInsert (tree_at (vm_store s) (vm_mappings s v)) e = Inr t" "tree_inv (vm_store s) t"
    "tree_set t = insert e (local_entries s v)"
    using tree_insert [OF vm_invD(1) [OF inv] e(1)] e(3) apart by (auto simp: home_def)
  let ?s = "s\<lparr>vm_mappings := (vm_mappings s)(v := t)\<rparr>"
  have "vm_inv ?s" using inv t(2,3) e(2) False by (auto simp: vm_inv_def)
  moreover have "InsertIntoAvl s v e = Inr ?s" using False t(1) by (simp add: InsertIntoAvl_def)
  ultimately show thesis using that [of ?s] False t(3) by (simp add: same_rest_def)
qed

lemma DeleteFromAvl_ok:
  assumes inv: "vm_inv s" and e: "e \<in> tree_set (home s v e)"
  obtains s' where "DeleteFromAvl s v e = Inr s'" "vm_inv s'" "vm_store s' = vm_store s" "vm_next s' = vm_next s" "same_rest s s'"
    "\<And>w. local_entries s' w = (if \<not> ve_global (vm_store s e) \<and> w = v then local_entries s w - {e} else local_entries s w)"
    "global_entries s' = (if ve_global (vm_store s e) then global_entries s - {e} else global_entries s)"
proof (cases "ve_global (vm_store s e)")
  case True
  then obtain t where t: "TreeDelete (tree_at (vm_store s) (vm_global s)) e = Inr t" "tree_inv (vm_store s) t"
    "tree_set t = global_entries s - {e}"
    using tree_delete [OF vm_invD(2) [OF inv]] e by (auto simp: home_def)
  let ?s = "s\<lparr>vm_global := t\<rparr>"
  have "vm_inv ?s" using inv t(2,3) by (auto simp: vm_inv_def)
  moreover have "DeleteFromAvl s v e = Inr ?s" using True t(1) by (simp add: DeleteFromAvl_def)
  ultimately show thesis using that [of ?s] True t(3) by (simp add: same_rest_def)
next
  case False
  then obtain t where t: "TreeDelete (tree_at (vm_store s) (vm_mappings s v)) e = Inr t" "tree_inv (vm_store s) t"
    "tree_set t = local_entries s v - {e}"
    using tree_delete [OF vm_invD(1) [OF inv]] e by (auto simp: home_def)
  let ?s = "s\<lparr>vm_mappings := (vm_mappings s)(v := t)\<rparr>"
  have "vm_inv ?s" using inv t(2,3) by (auto simp: vm_inv_def)
  moreover have "DeleteFromAvl s v e = Inr ?s" using False t(1) by (simp add: DeleteFromAvl_def)
  ultimately show thesis using that [of ?s] False t(3) by (simp add: same_rest_def)
qed

text \<open>Changing one entry in place.\<close>

lemma vm_inv_store:
  assumes inv: "vm_inv s" and st: "\<And>x. x < vm_next s \<Longrightarrow> shape_ok (vm_store s x) \<Longrightarrow>
      shrinks (vm_store s x) (st x) \<and> ve_global (st x) = ve_global (vm_store s x)"
    and next_le: "vm_next s \<le> n"
  shows "vm_inv (s\<lparr>vm_store := st, vm_next := n\<rparr>)"
proof -
  have shr: "shrinks (vm_store s x) (st x) \<and> ve_global (st x) = ve_global (vm_store s x) \<and> x < n"
    if "x \<in> local_entries s v \<or> x \<in> global_entries s" for x v
  proof -
    have "x < vm_next s" "shape_ok (vm_store s x)" using that vm_invD(3,4,7) [OF inv] by blast+
    then show ?thesis using st [of x] next_le by simp
  qed
  have "tree_inv st (vm_mappings s v)" for v by (rule tree_inv_shrink [OF vm_invD(1) [OF inv]]) (use shr in blast)
  moreover have "tree_inv st (vm_global s)" by (rule tree_inv_shrink [OF vm_invD(2) [OF inv]]) (use shr in blast)
  moreover have "\<not> ve_global (st x) \<and> x < n" if "x \<in> local_entries s v" for x v using shr that vm_invD(5) [OF inv] by blast
  moreover have "ve_global (st x) \<and> x < n" if "x \<in> global_entries s" for x using shr that vm_invD(6) [OF inv] by blast
  ultimately show ?thesis by (simp add: vm_inv_def)
qed

subsection \<open>Splitting an entry\<close>

lemma entry_pages_covers: "covers en page \<longleftrightarrow> page \<in> Domain (entry_pages en)"
  by (auto simp: entry_pages_def)

text \<open>An entry in a tree is replaced by a part of it, and a new entry for the rest is inserted.\<close>

lemma carve:
  assumes inv: "vm_inv s" and e: "e \<in> tree_set (home s v e)"
    and unshared: "\<not> ve_global (vm_store s e) \<Longrightarrow> \<forall>w. w \<noteq> v \<longrightarrow> e \<notin> local_entries s w"
    and parts: "shrinks (vm_store s e) a" "shrinks (vm_store s e) b" "apart_entries a b"
      "entry_pages (vm_store s e) = entry_pages a \<union> entry_pages b"
      "ve_global a = ve_global (vm_store s e)" "ve_global b = ve_global (vm_store s e)"
  obtains s' where "InsertIntoAvl (s\<lparr>vm_store := (vm_store s)(vm_next s := a, e := b), vm_next := vm_next s + 1\<rparr>) v (vm_next s) = Inr s'"
    "vm_inv s'" "vm_store s' = (vm_store s)(vm_next s := a, e := b)" "vm_next s' = vm_next s + 1" "same_rest s s'"
    "\<And>w. local_map s' w = local_map s w" "global_map s' = global_map s"
    "\<And>w. local_entries s w = local_entries s' w - {vm_next s}" "global_entries s = global_entries s' - {vm_next s}"
    "\<And>w. w \<noteq> v \<Longrightarrow> local_entries s' w = local_entries s w"
proof -
  let ?n = "vm_next s"
  let ?st = "(vm_store s)(?n := a, e := b)"
  let ?s = "s\<lparr>vm_store := ?st, vm_next := ?n + 1\<rparr>"
  have e_lt: "e < ?n" using e home_entries [OF inv] vm_invD(3,4) [OF inv] by blast
  have fresh: "?n \<notin> local_entries s w" "?n \<notin> global_entries s" for w using vm_invD(3,4) [OF inv] by blast+
  have inv': "vm_inv ?s"
    by (rule vm_inv_store [OF inv]) (use parts e_lt in \<open>auto simp: shrinks_refl\<close>)
  have homes: "home ?s v ?n = home s v e" using parts(5) e_lt by (simp add: home_def)
  have stn: "?st ?n = a" "?st e = b" using e_lt by simp_all
  have shape: "shape_ok a" using parts(1) by (simp add: shrinks_def)
  have apart: "apart_entries (?st ?n) (?st x)" if x: "x \<in> tree_set (home s v e)" for x
  proof (cases "x = e")
    case True
    then show ?thesis using stn parts(3) by simp
  next
    case False
    have "x \<noteq> ?n" using x fresh by (auto simp: home_def split: if_splits)
    have "tree_inv (vm_store s) (home s v e)" using vm_invD(1,2) [OF inv] by (simp add: home_def)
    then have "apart_entries (vm_store s e) (vm_store s x)" using tree_inv_apart e x False by blast
    then have "apart_entries a (vm_store s x)" using parts(4) unfolding apart_entries_def entry_pages_covers by blast
    then show ?thesis using False \<open>x \<noteq> ?n\<close> e_lt by simp
  qed
  have notin: "?n \<notin> tree_set (home s v e)" using fresh by (simp add: home_def)
  obtain s' where ins: "InsertIntoAvl ?s v ?n = Inr s'" "vm_inv s'" "vm_store s' = vm_store ?s" "vm_next s' = vm_next ?s" "same_rest ?s s'"
    "\<And>w. local_entries s' w = (if \<not> ve_global (vm_store ?s ?n) \<and> w = v then insert ?n (local_entries ?s w) else local_entries ?s w)"
    "global_entries s' = (if ve_global (vm_store ?s ?n) then insert ?n (global_entries ?s) else global_entries ?s)"
    by (rule InsertIntoAvl_ok [of ?s ?n v]) (use inv' shape apart homes stn notin in \<open>simp_all del: fun_upd_apply\<close>)
  have glob_n: "ve_global (vm_store ?s ?n) = ve_global (vm_store s e)" using stn parts(5) by (simp del: fun_upd_apply)
  have s': "vm_store s' = ?st" "vm_next s' = ?n + 1" "same_rest s s'" using ins(3-5) by (simp_all add: same_rest_def)
  have loc_n: "local_entries s' w = (if \<not> ve_global (vm_store s e) \<and> w = v then insert ?n (local_entries s w) else local_entries s w)" for w
    using ins(6) [of w] unfolding glob_n by simp
  have gl_n: "global_entries s' = (if ve_global (vm_store s e) then insert ?n (global_entries s) else global_entries s)"
    using ins(7) unfolding glob_n by simp
  have map_upd: "page_map ?st t' = page_map (vm_store s) t"
    if "tree_set t' = tree_set t" "e \<notin> tree_set t" "?n \<notin> tree_set t" for t t'
    using that by (intro page_map_cong) auto
  have map_ins: "page_map ?st t' = page_map (vm_store s) t"
    if t: "tree_set t' = insert ?n (tree_set t)" "e \<in> tree_set t" "?n \<notin> tree_set t" for t t'
  proof -
    have "(\<Union>x\<in>tree_set t - {e}. entry_pages (?st x)) = (\<Union>x\<in>tree_set t - {e}. entry_pages (vm_store s x))"
      using t(3) by (intro SUP_cong) auto
    moreover have "tree_set t' = insert ?n (insert e (tree_set t - {e}))" "tree_set t = insert e (tree_set t - {e})" using t(1,2) by auto
    ultimately show ?thesis unfolding page_map_def using stn parts(4) by (metis (no_types, lifting) UN_insert Un_assoc)
  qed
  have loc: "local_map s' w = local_map s w" for w
  proof (cases "\<not> ve_global (vm_store s e) \<and> w = v")
    case True
    then show ?thesis using map_ins [of "vm_mappings s' w" "vm_mappings s w"] s'(1) loc_n [of w] e fresh by (simp add: home_def)
  next
    case False
    have "e \<notin> local_entries s w" using False unshared vm_invD(5) [OF inv] by blast
    then show ?thesis unfolding s'(1) using fresh loc_n [of w] False by (intro map_upd) auto
  qed
  have glob: "global_map s' = global_map s"
  proof (cases "ve_global (vm_store s e)")
    case True
    then show ?thesis using map_ins [of "vm_global s'" "vm_global s"] s'(1) gl_n e fresh by (simp add: home_def)
  next
    case False
    have "e \<notin> global_entries s" using False vm_invD(6) [OF inv] by blast
    then show ?thesis unfolding s'(1) using fresh gl_n False by (intro map_upd) auto
  qed
  have "local_entries s w = local_entries s' w - {?n}" for w using loc_n [of w] fresh by auto
  moreover have "global_entries s = global_entries s' - {?n}" using gl_n fresh by auto
  moreover have "local_entries s' w = local_entries s w" if "w \<noteq> v" for w using loc_n [of w] that by simp
  ultimately show thesis using that [OF ins(1,2) s' loc glob] by blast
qed

text \<open>The first \<open>k\<close> pages of an entry and the rest.\<close>

definition front :: "nat \<Rightarrow> vm_entry \<Rightarrow> vm_entry" where
  "front k en = en\<lparr>en_num_pages := k\<rparr>"

definition back_part :: "nat \<Rightarrow> vm_entry \<Rightarrow> vm_entry" where
  "back_part k en = en\<lparr>en_num_pages := en_num_pages en - k, en_virtual := en_virtual en + k * PAGE,
     en_physical := (if en_physical en \<noteq> 0 then en_physical en + k * PAGE else 0),
     en_file_offset := (if ve_file en then en_file_offset en + k * PAGE else en_file_offset en)\<rparr>"

lemma back_first_page [simp]: "first_page (back_part k en) = first_page en + k"
  by (simp add: back_part_def first_page_def)

lemma front_first_page [simp]: "first_page (front k en) = first_page en"
  by (simp add: front_def first_page_def)

lemma page_entry_front: "page_entry (front k en) page = page_entry en page"
  unfolding page_entry_def front_first_page by (simp add: front_def)

lemma page_entry_back:
  assumes "first_page en + k \<le> page"
  shows "page_entry (back_part k en) page = page_entry en page"
proof -
  have "k * PAGE + (page - (first_page en + k)) * PAGE = (page - first_page en) * PAGE"
    using assms by (simp flip: add_mult_distrib)
  then show ?thesis unfolding page_entry_def back_first_page by (simp add: back_part_def)
qed

lemma cut_entry:
  assumes "shape_ok en" "0 < k" "k < en_num_pages en"
  shows "shrinks en (front k en)" "shrinks en (back_part k en)" "apart_entries (front k en) (back_part k en)"
    "entry_pages en = entry_pages (front k en) \<union> entry_pages (back_part k en)"
    "ve_global (front k en) = ve_global en" "ve_global (back_part k en) = ve_global en"
proof -
  have num: "en_num_pages (front k en) = k" "en_num_pages (back_part k en) = en_num_pages en - k"
    by (simp_all add: front_def back_part_def)
  show "shrinks en (front k en)" "shrinks en (back_part k en)"
    using assms num by (simp_all add: shrinks_def shape_ok_def) (simp_all add: front_def back_part_def)
  show "apart_entries (front k en) (back_part k en)"
    using num by (auto simp: apart_entries_def covers_def)
  have c: "covers en page \<longleftrightarrow> covers (front k en) page \<or> covers (back_part k en) page"
    "covers (back_part k en) page \<Longrightarrow> first_page en + k \<le> page" for page
    using assms(3) num by (auto simp: covers_def)
  then show "entry_pages en = entry_pages (front k en) \<union> entry_pages (back_part k en)"
    by (auto simp: entry_pages_def page_entry_front page_entry_back)
  show "ve_global (front k en) = ve_global en" "ve_global (back_part k en) = ve_global en"
    by (simp_all add: front_def back_part_def)
qed

lemma page_entry_single:
  assumes "shape_ok en" "en_num_pages en = 1" "covers en page"
  shows "page_entry en page = en"
proof -
  have "page = first_page en" using assms(2,3) by (simp add: covers_def)
  then show ?thesis using assms(2) virtual_first_page [OF assms(1)] by (simp add: page_entry_def)
qed

text \<open>What a split leaves alone: the pages of every address space, the entries that were there,
  and everything outside the trees.\<close>

definition only_split :: "vm \<Rightarrow> vm \<Rightarrow> nat \<Rightarrow> nat \<Rightarrow> bool" where
  "only_split s s' v e \<longleftrightarrow> vm_inv s' \<and> same_rest s s' \<and> vm_next s \<le> vm_next s' \<and>
     (\<forall>x<vm_next s. x \<noteq> e \<longrightarrow> vm_store s' x = vm_store s x) \<and>
     (\<forall>w. local_map s' w = local_map s w) \<and> global_map s' = global_map s \<and>
     (\<forall>w. local_entries s w = {x \<in> local_entries s' w. x < vm_next s}) \<and>
     global_entries s = {x \<in> global_entries s'. x < vm_next s} \<and>
     (\<forall>w. w \<noteq> v \<longrightarrow> local_entries s' w = local_entries s w) \<and>
     (\<forall>x. vm_next s \<le> x \<longrightarrow> x < vm_next s' \<longrightarrow> \<not> en_allocated (vm_store s' x) \<and> \<not> en_swapfile (vm_store s' x))"

lemma only_splitD:
  assumes "only_split s s' v e"
  shows "vm_inv s'" "same_rest s s'" "vm_next s \<le> vm_next s'" "x < vm_next s \<Longrightarrow> x \<noteq> e \<Longrightarrow> vm_store s' x = vm_store s x"
    "local_map s' w = local_map s w" "global_map s' = global_map s"
    "local_entries s w = {x \<in> local_entries s' w. x < vm_next s}" "global_entries s = {x \<in> global_entries s'. x < vm_next s}"
    "w \<noteq> v \<Longrightarrow> local_entries s' w = local_entries s w"
    "vm_next s \<le> x \<Longrightarrow> x < vm_next s' \<Longrightarrow> \<not> en_allocated (vm_store s' x) \<and> \<not> en_swapfile (vm_store s' x)"
  using assms unfolding only_split_def by iprover+

lemma only_split_refl: "vm_inv s \<Longrightarrow> only_split s s v e"
  using vm_invD(3,4) [of s] by (auto simp: only_split_def)

lemma only_split_trans:
  assumes s1: "only_split s s' v e" and s2: "only_split s' s'' v e" and e: "e < vm_next s"
  shows "only_split s s'' v e"
proof -
  note d1 = only_splitD [OF s1] and d2 = only_splitD [OF s2]
  show ?thesis
    unfolding only_split_def
  proof (intro conjI allI impI)
    show "vm_inv s''" by (rule d2(1))
    show "same_rest s s''" by (rule same_rest_trans [OF d1(2) d2(2)])
    show "vm_next s \<le> vm_next s''" using d1(3) d2(3) by simp
    show "vm_store s'' x = vm_store s x" if "x < vm_next s" "x \<noteq> e" for x
      using that d1(3) d1(4) [of x] d2(4) [of x] by simp
    show "local_map s'' w = local_map s w" for w unfolding d2(5) by (rule d1(5))
    show "global_map s'' = global_map s" unfolding d2(6) by (rule d1(6))
    show "local_entries s w = {x \<in> local_entries s'' w. x < vm_next s}" for w
      unfolding d1(7) d2(7) using d1(3) by auto
    show "global_entries s = {x \<in> global_entries s''. x < vm_next s}"
      unfolding d1(8) d2(8) using d1(3) by auto
    show "local_entries s'' w = local_entries s w" if "w \<noteq> v" for w using d1(9) d2(9) that by simp
    show "\<not> en_allocated (vm_store s'' x)" "\<not> en_swapfile (vm_store s'' x)" if x: "vm_next s \<le> x" "x < vm_next s''" for x
    proof -
      have "\<not> en_allocated (vm_store s'' x) \<and> \<not> en_swapfile (vm_store s'' x)"
      proof (cases "x < vm_next s'")
        case True
        then have "vm_store s'' x = vm_store s' x" using d2(4) [of x] e x(1) by simp
        then show ?thesis using d1(10) [OF x(1) True] by simp
      next
        case False
        then show ?thesis using d2(10) x(2) by simp
      qed
      then show "\<not> en_allocated (vm_store s'' x)" "\<not> en_swapfile (vm_store s'' x)" by blast+
    qed
  qed
qed

lemma only_split_view: "vm_inv s \<Longrightarrow> only_split s s' v e \<Longrightarrow> view s' w = view s w"
  by (rule view_eqI) (simp_all only: only_splitD)

text \<open>No other address space has the entry.\<close>

definition unshared :: "vm \<Rightarrow> nat \<Rightarrow> nat \<Rightarrow> bool" where
  "unshared s v e \<longleftrightarrow> (\<forall>w. w \<noteq> v \<longrightarrow> e \<notin> local_entries s w)"

lemma carve_split:
  assumes "vm_inv s" "e \<in> tree_set (home s v e)" "unshared s v e"
    and "shrinks (vm_store s e) a" "shrinks (vm_store s e) b" "apart_entries a b"
      "entry_pages (vm_store s e) = entry_pages a \<union> entry_pages b"
      "ve_global a = ve_global (vm_store s e)" "ve_global b = ve_global (vm_store s e)"
    and flags: "\<not> en_allocated a \<and> \<not> en_swapfile a"
  obtains s' where "InsertIntoAvl (s\<lparr>vm_store := (vm_store s)(vm_next s := a, e := b), vm_next := vm_next s + 1\<rparr>) v (vm_next s) = Inr s'"
    "only_split s s' v e" "vm_store s' e = b" "e \<in> tree_set (home s' v e)" "unshared s' v e"
proof -
  have e: "e < vm_next s" using assms(2) home_entries [OF assms(1)] vm_invD(3,4) [OF assms(1)] by blast
  have unsh: "\<forall>w. w \<noteq> v \<longrightarrow> e \<notin> local_entries s w" using assms(3) by (simp add: unshared_def)
  show thesis
  proof (rule carve [OF assms(1,2) unsh assms(4-9)])
  fix s'
  assume s': "InsertIntoAvl (s\<lparr>vm_store := (vm_store s)(vm_next s := a, e := b), vm_next := vm_next s + 1\<rparr>) v (vm_next s) = Inr s'"
    "vm_inv s'" "vm_store s' = (vm_store s)(vm_next s := a, e := b)" "vm_next s' = vm_next s + 1" "same_rest s s'"
    "\<And>w. local_map s' w = local_map s w" "global_map s' = global_map s"
    "\<And>w. local_entries s w = local_entries s' w - {vm_next s}" "global_entries s = global_entries s' - {vm_next s}"
    "\<And>w. w \<noteq> v \<Longrightarrow> local_entries s' w = local_entries s w"
  have "local_entries s w = {x \<in> local_entries s' w. x < vm_next s}" for w
    using s'(4) s'(8) [of w] vm_invD(3) [OF s'(2)] by (auto simp: less_Suc_eq)
  moreover have "global_entries s = {x \<in> global_entries s'. x < vm_next s}"
    using s'(4,9) vm_invD(4) [OF s'(2)] by (auto simp: less_Suc_eq)
  moreover have "x = vm_next s" if "vm_next s \<le> x" "x < vm_next s'" for x using that s'(4) by simp
  then have "\<not> en_allocated (vm_store s' x) \<and> \<not> en_swapfile (vm_store s' x)" if "vm_next s \<le> x" "x < vm_next s'" for x
    using that s'(3) flags e by fastforce
  ultimately have "only_split s s' v e"
    unfolding only_split_def using s'(2,4,5,6,7,10) fun_upd_other s'(3) by (intro conjI allI impI) simp_all
  moreover have "e \<in> tree_set (home s' v e)"
    using assms(2,9) s'(3,8,9) e by (auto simp: home_def split: if_splits)
  moreover have "unshared s' v e" using assms(3) e s'(8) by (auto simp: unshared_def)
  ultimately show thesis using that s'(1,3) by simp
  qed
qed

lemma new_entry_update:
  "e < vm_next s \<Longrightarrow> upd_entry e f (fst (new_entry s a)) =
     s\<lparr>vm_store := (vm_store s)(vm_next s := a, e := f (vm_store s e)), vm_next := vm_next s + 1\<rparr>"
  by (simp add: new_entry_def)

lemma split_before_eq:
  assumes "e < vm_next s" "first_page (vm_store s e) + k = virtual div PAGE" "0 < k"
  shows "split_before s v virtual e = InsertIntoAvl (s\<lparr>vm_store := (vm_store s)(vm_next s := front k (vm_store s e),
    e := back_part k (vm_store s e)), vm_next := vm_next s + 1\<rparr>) v (vm_next s)"
proof -
  have k: "virtual div PAGE - en_virtual (vm_store s e) div PAGE = k" "en_virtual (vm_store s e) div PAGE < virtual div PAGE"
    using assms(2,3) by (auto simp: first_page_def)
  have "split_before s v virtual e = InsertIntoAvl (upd_entry e (back_part k) (fst (new_entry s (front k (vm_store s e))))) v (vm_next s)"
    unfolding split_before_def Let_def k(1) back_part_def [symmetric] unfolding front_def [symmetric] using k(2)
    by (simp add: new_entry_def del: fun_upd_apply)
  then show ?thesis unfolding new_entry_update [OF assms(1)] .
qed

lemma split_after_eq:
  assumes "e < vm_next s" "n < en_num_pages (vm_store s e)"
  shows "split_after s v e n = InsertIntoAvl (s\<lparr>vm_store := (vm_store s)(vm_next s := back_part n (vm_store s e),
    e := front n (vm_store s e)), vm_next := vm_next s + 1\<rparr>) v (vm_next s)"
proof -
  have "split_after s v e n = InsertIntoAvl (upd_entry e (front n) (fst (new_entry s (back_part n (vm_store s e))))) v (vm_next s)"
    unfolding split_after_def Let_def mult.commute [of PAGE] back_part_def [symmetric] unfolding front_def [symmetric] using assms(2)
    by (simp add: new_entry_def del: fun_upd_apply)
  then show ?thesis unfolding new_entry_update [OF assms(1)] .
qed

lemma Split_ok:
  assumes inv: "vm_inv s" and e: "e \<in> tree_set (home s v e)" "unshared s v e"
    and page: "covers (vm_store s e) (virtual div PAGE)"
    and multi: "en_num_pages (vm_store s e) \<noteq> 1 \<Longrightarrow> \<not> en_allocated (vm_store s e) \<and> \<not> en_swapfile (vm_store s e)"
  obtains s' where "SplitLargePageEntryIntoMultiple s v virtual e 1 = Inr (s', 1)" "only_split s s' v e"
    "vm_store s' e = page_entry (vm_store s e) (virtual div PAGE)" "e \<in> tree_set (home s' v e)" "unshared s' v e"
proof (cases "en_num_pages (vm_store s e) = 1")
  case True
  have "shape_ok (vm_store s e)" using e(1) home_entries [OF inv] vm_invD(7) [OF inv] by blast
  then show thesis using that [of s] True page_entry_single [OF _ True page] only_split_refl [OF inv] e
    by (simp add: SplitLargePageEntryIntoMultiple_def)
next
  case False
  let ?en = "vm_store s e" and ?p = "virtual div PAGE"
  have shape: "shape_ok ?en" using e(1) home_entries [OF inv] vm_invD(7) [OF inv] by blast
  have e_lt: "e < vm_next s" using e(1) home_entries [OF inv] vm_invD(3,4) [OF inv] by blast
  define k where "k = ?p - first_page ?en"
  have flags: "\<not> en_allocated ?en" "\<not> en_swapfile ?en" using multi [OF False] by simp_all
  have k: "first_page ?en + k = ?p" "k < en_num_pages ?en" using page by (auto simp: k_def covers_def)
  obtain s1 where s1: "split_before s v virtual e = Inr s1" "only_split s s1 v e" "e \<in> tree_set (home s1 v e)" "unshared s1 v e"
    "vm_store s1 e = back_part k ?en"
  proof (cases "k = 0")
    case True
    have "back_part k ?en = ?en" using True by (simp add: back_part_def)
    moreover have "split_before s v virtual e = Inr s"
      using True k(1) by (simp add: split_before_def first_page_def Let_def)
    ultimately show thesis using that [of s] only_split_refl [OF inv] e by simp
  next
    case False
    then have k0: "0 < k" by simp
    note cut = cut_entry [OF shape k0 k(2)]
    obtain s' where s': "InsertIntoAvl (s\<lparr>vm_store := (vm_store s)(vm_next s := front k ?en, e := back_part k ?en), vm_next := vm_next s + 1\<rparr>) v (vm_next s) = Inr s'"
      "only_split s s' v e" "vm_store s' e = back_part k ?en" "e \<in> tree_set (home s' v e)" "unshared s' v e"
      by (rule carve_split [OF inv e cut]) (use flags in \<open>simp add: front_def\<close>)
    have "split_before s v virtual e = Inr s'"
      unfolding split_before_eq [OF e_lt k(1) k0] by (rule s'(1))
    then show thesis using that s' by simp
  qed
  have inv1: "vm_inv s1" using only_splitD(1) [OF s1(2)] .
  have num1: "en_num_pages (vm_store s1 e) = en_num_pages ?en - k" "first_page (vm_store s1 e) = ?p"
    using s1(5) k(1) by (simp_all add: back_part_def first_page_def)
  have shape1: "shape_ok (vm_store s1 e)" using s1(3) home_entries [OF inv1] vm_invD(7) [OF inv1] by blast
  have e_lt1: "e < vm_next s1" using e_lt only_splitD(3) [OF s1(2)] by simp
  obtain s2 where s2: "split_after s1 v e 1 = Inr s2" "only_split s1 s2 v e" "e \<in> tree_set (home s2 v e)" "unshared s2 v e"
    "vm_store s2 e = front 1 (vm_store s1 e)"
  proof (cases "en_num_pages (vm_store s1 e) = 1")
    case True
    have "front 1 (vm_store s1 e) = vm_store s1 e" using True by (simp add: front_def)
    moreover have "split_after s1 v e 1 = Inr s1" using True by (simp add: split_after_def)
    ultimately show thesis using that [of s1] only_split_refl [OF inv1] s1 by simp
  next
    case False
    then have gt: "1 < en_num_pages (vm_store s1 e)" using shape1 by (simp add: shape_ok_def)
    note cut = cut_entry [OF shape1 zero_less_one gt]
    have apart: "apart_entries (back_part 1 (vm_store s1 e)) (front 1 (vm_store s1 e))" using cut(3) apart_sym by blast
    have pages: "entry_pages (vm_store s1 e) = entry_pages (back_part 1 (vm_store s1 e)) \<union> entry_pages (front 1 (vm_store s1 e))"
      using cut(4) by blast
    obtain s' where s': "InsertIntoAvl (s1\<lparr>vm_store := (vm_store s1)(vm_next s1 := back_part 1 (vm_store s1 e), e := front 1 (vm_store s1 e)), vm_next := vm_next s1 + 1\<rparr>) v (vm_next s1) = Inr s'"
      "only_split s1 s' v e" "vm_store s' e = front 1 (vm_store s1 e)" "e \<in> tree_set (home s' v e)" "unshared s' v e"
      by (rule carve_split [OF inv1 s1(3,4) cut(2,1) apart pages cut(6,5)]) (use flags in \<open>simp add: s1(5) back_part_def\<close>)
    have "split_after s1 v e 1 = Inr s'"
      unfolding split_after_eq [OF e_lt1 gt] by (rule s'(1))
    then show thesis using that s' by simp
  qed
  have "en_num_pages (vm_store s2 e) = 1" using s2(5) by (simp add: front_def)
  moreover have "vm_store s2 e = page_entry ?en ?p"
  proof -
    have "shape_ok (vm_store s2 e)" using s2(3) home_entries [OF only_splitD(1) [OF s2(2)]] vm_invD(7) [OF only_splitD(1) [OF s2(2)]] by blast
    moreover have "covers (vm_store s2 e) ?p" using num1(2) by (simp add: s2(5) covers_def front_def) (simp add: first_page_def)
    ultimately have "vm_store s2 e = page_entry (vm_store s2 e) ?p" using page_entry_single \<open>en_num_pages (vm_store s2 e) = 1\<close> by simp
    then show ?thesis using k(1) by (simp add: s2(5) page_entry_front s1(5) page_entry_back)
  qed
  ultimately show thesis
    using that [of s2] s1(1) s2 only_split_trans [OF s1(2) s2(2) e_lt] multi [OF False] False
    by (simp add: SplitLargePageEntryIntoMultiple_def Let_def)
qed

subsection \<open>Changing one page\<close>

lemma GetVirtEntry_page: "GetVirtEntry s v (virtual div PAGE * PAGE) = GetVirtEntry s v virtual"
  by (simp add: GetVirtEntry_def)

lemma GetVirtEntry_cong:
  assumes "vm_inv s" "vm_inv s'"
    and "{x \<in> local_entries s' v. covers (vm_store s' x) (virtual div PAGE)} = {x \<in> local_entries s v. covers (vm_store s x) (virtual div PAGE)}"
    and "{x \<in> global_entries s'. covers (vm_store s' x) (virtual div PAGE)} = {x \<in> global_entries s. covers (vm_store s x) (virtual div PAGE)}"
  shows "GetVirtEntry s' v virtual = GetVirtEntry s v virtual"
proof -
  have "GetVirtEntry s' v virtual = Some e \<longleftrightarrow> GetVirtEntry s v virtual = Some e" for e
    unfolding GetVirtEntry_Some [OF assms(1)] GetVirtEntry_Some [OF assms(2)] using assms(3,4) by blast
  then show ?thesis by (metis not_None_eq)
qed

text \<open>A state that differs only outside the store and the trees.\<close>

definition same_trees :: "vm \<Rightarrow> vm \<Rightarrow> bool" where
  "same_trees s s' \<longleftrightarrow> vm_store s' = vm_store s \<and> vm_next s' = vm_next s \<and> vm_mappings s' = vm_mappings s \<and> vm_global s' = vm_global s"

lemma same_trees_refl [simp]: "same_trees s s"
  by (simp add: same_trees_def)

lemma same_trees_trans: "same_trees s s' \<Longrightarrow> same_trees s' s'' \<Longrightarrow> same_trees s s''"
  by (simp add: same_trees_def)

lemma same_trees_inv: "same_trees s s' \<Longrightarrow> vm_inv s' = vm_inv s"
  by (simp add: same_trees_def vm_inv_def)

lemma same_trees_entry: "same_trees s s' \<Longrightarrow> GetVirtEntry s' = GetVirtEntry s"
  by (intro ext) (simp add: same_trees_def GetVirtEntry_def dummy_at_def Let_def cong: option.case_cong)

lemma same_trees_view: "same_trees s s' \<Longrightarrow> view s' = view s"
  using same_trees_entry [of s s'] by (intro ext) (simp add: view_def same_trees_def)

lemma x86MapPage_trees: "same_trees s (x86MapPage s physical virtual flags)"
  by (simp add: same_trees_def x86MapPage_def Let_def)

lemma map_pages_trees: "same_trees s (map_pages s en flags is)"
proof (induction s en flags "is" rule: map_pages.induct)
  case (2 s en flags i "is")
  then show ?case using same_trees_trans x86MapPage_trees unfolding map_pages.simps by blast
qed simp

lemma ArchUpdateMapping_trees: "same_trees s (ArchUpdateMapping s e)"
  by (simp add: ArchUpdateMapping_def Let_def map_pages_trees x86MapPage_trees)

lemma ArchUnmap_trees: "same_trees s (ArchUnmap s e)"
  by (simp add: ArchUnmap_def x86MapPage_trees)

text \<open>An update of an entry that keeps its range and its tree.\<close>

definition in_place :: "(vm_entry \<Rightarrow> vm_entry) \<Rightarrow> bool" where
  "in_place f \<longleftrightarrow> (\<forall>en. en_virtual (f en) = en_virtual en \<and> en_num_pages (f en) = en_num_pages en \<and> ve_global (f en) = ve_global en)"

lemma in_place_covers: "in_place f \<Longrightarrow> covers (f en) = covers en" "in_place f \<Longrightarrow> shape_ok en \<Longrightarrow> shrinks en (f en)"
  by (auto simp: in_place_def covers_def first_page_def shrinks_def shape_ok_def)

lemma upd_entry_inv:
  assumes "vm_inv s" "in_place f"
  shows "vm_inv (upd_entry e f s)"
proof -
  have "vm_inv (s\<lparr>vm_store := (vm_store s)(e := f (vm_store s e)), vm_next := vm_next s\<rparr>)"
    by (rule vm_inv_store [OF assms(1)]) (use assms(2) in \<open>auto simp: in_place_covers(2) in_place_def shrinks_refl\<close>)
  then show ?thesis by simp
qed

lemma upd_entry_entry:
  assumes "vm_inv s" "in_place f"
  shows "GetVirtEntry (upd_entry e f s) w a = GetVirtEntry s w a"
  by (rule GetVirtEntry_cong [OF assms(1) upd_entry_inv [OF assms]]) (auto simp: in_place_covers(1) [OF assms(2)])

lemma upd_entry_view:
  assumes "vm_inv s" "in_place f"
  shows "view (upd_entry e f s) w page =
    (if GetVirtEntry s w (page * PAGE) = Some e then Some (page_entry (f (vm_store s e)) page) else view s w page)"
  unfolding view_def upd_entry_entry [OF assms] by (cases "GetVirtEntry s w (page * PAGE)") auto

text \<open>After a split, the entry is found at its page by those who found it there before, and nowhere
  else.\<close>

lemma split_entry:
  assumes inv: "vm_inv s" and sp: "only_split s s' v e" and e: "e < vm_next s" "covers (vm_store s e) page"
    and st: "vm_store s' e = page_entry (vm_store s e) page"
  shows "GetVirtEntry s' w (p * PAGE) = Some e \<longleftrightarrow> p = page \<and> GetVirtEntry s w (page * PAGE) = Some e"
proof -
  have cov: "covers (vm_store s' e) p \<longleftrightarrow> p = page" for p
    by (auto simp: st page_entry_def covers_def first_page_def)
  have loc: "e \<in> local_entries s' w \<longleftrightarrow> e \<in> local_entries s w" "e \<in> global_entries s' \<longleftrightarrow> e \<in> global_entries s"
    using only_splitD(7) [OF sp, of w] only_splitD(8) [OF sp] e(1) by blast+
  have dom: "(\<forall>x\<in>local_entries s' w. \<not> covers (vm_store s' x) page) \<longleftrightarrow> (\<forall>x\<in>local_entries s w. \<not> covers (vm_store s x) page)"
  proof -
    have "(\<forall>x\<in>local_entries s w. \<not> covers (vm_store s x) page) \<longleftrightarrow> page \<notin> Domain (local_map s w)" for s
      by (auto simp: Domain_iff in_page_map)
    then show ?thesis using only_splitD(5) [OF sp, of w] by simp
  qed
  have p: "p * PAGE div PAGE = p" "page * PAGE div PAGE = page" by simp_all
  show ?thesis
  proof (cases "p = page")
    case True
    then show ?thesis
      unfolding GetVirtEntry_Some [OF inv] GetVirtEntry_Some [OF only_splitD(1) [OF sp]] p by (simp only: cov loc dom e(2) simp_thms)
  next
    case False
    then show ?thesis unfolding GetVirtEntry_Some [OF only_splitD(1) [OF sp]] p by (simp only: cov simp_thms)
  qed
qed

lemma split_update_view:
  assumes inv: "vm_inv s" and sp: "only_split s s' v e" and e: "e < vm_next s" "covers (vm_store s e) page"
    and st: "vm_store s' e = page_entry (vm_store s e) page" and f: "in_place f"
  shows "view (upd_entry e f s') w p =
    (if p = page \<and> GetVirtEntry s w (page * PAGE) = Some e then Some (f (page_entry (vm_store s e) page)) else view s w p)"
proof -
  let ?en = "f (page_entry (vm_store s e) page)"
  have en: "en_virtual ?en = page * PAGE" "en_num_pages ?en = 1" using f by (simp_all add: in_place_def) (simp_all add: page_entry_def)
  then have "page_entry ?en page = ?en" by (intro page_entry_single) (simp_all add: shape_ok_def covers_def first_page_def)
  then show ?thesis
    unfolding upd_entry_view [OF only_splitD(1) [OF sp] f] split_entry [OF assms(1-5)] only_split_view [OF inv sp] unfolding st by auto
qed

end
