(* ===== verification/VirtOps.thy ===== *)
theory VirtOps
  imports VirtMap
begin

text \<open>
  The operations of the virtual memory manager on well-formed address spaces: protecting, mapping,
  unmapping, locking and faulting in pages.  Every operation changes the pages it is asked to
  change, leaves all other pages of all address spaces alone, and keeps the page tables of the
  processor, the physical pages and the entries consistent with each other.
\<close>

subsection \<open>Well-formed address spaces\<close>

definition splittable :: "vm_entry \<Rightarrow> bool" where
  "splittable en \<longleftrightarrow> en_num_pages en = 1 \<or> \<not> en_allocated en \<and> \<not> en_swapfile en"

text \<open>Mappings of an address space lie below the kernel area and belong to no other address space,
  the mappings of all address spaces lie in the kernel area, and an entry with a frame or a slot of
  the swap file has one page.\<close>

definition vm_wf :: "vm \<Rightarrow> bool" where
  "vm_wf s \<longleftrightarrow> vm_inv s \<and>
     (\<forall>v. \<forall>e\<in>local_entries s v. splittable (vm_store s e)) \<and> (\<forall>e\<in>global_entries s. splittable (vm_store s e)) \<and>
     (\<forall>v w. v \<noteq> w \<longrightarrow> local_entries s v \<inter> local_entries s w = {}) \<and>
     (\<forall>v. \<forall>p\<in>Domain (local_map s v). p < KERNEL_PAGE) \<and> (\<forall>p\<in>Domain (global_map s). KERNEL_PAGE \<le> p)"

lemma vm_wfD:
  assumes wf: "vm_wf s"
  shows "vm_inv s" "e \<in> local_entries s v \<or> e \<in> global_entries s \<Longrightarrow> splittable (vm_store s e)"
    "v \<noteq> w \<Longrightarrow> e \<in> local_entries s v \<Longrightarrow> e \<notin> local_entries s w"
    "e \<in> local_entries s v \<Longrightarrow> covers (vm_store s e) p \<Longrightarrow> p < KERNEL_PAGE"
    "e \<in> global_entries s \<Longrightarrow> covers (vm_store s e) p \<Longrightarrow> KERNEL_PAGE \<le> p"
proof -
  show "vm_inv s" using wf by (simp add: vm_wf_def)
  show "splittable (vm_store s e)" if "e \<in> local_entries s v \<or> e \<in> global_entries s"
    using that wf [unfolded vm_wf_def, THEN conjunct2, THEN conjunct1]
      wf [unfolded vm_wf_def, THEN conjunct2, THEN conjunct2, THEN conjunct1] by blast
  show "e \<notin> local_entries s w" if "v \<noteq> w" "e \<in> local_entries s v"
    using that wf [unfolded vm_wf_def, THEN conjunct2, THEN conjunct2, THEN conjunct2, THEN conjunct1] by blast
  show "p < KERNEL_PAGE" if "e \<in> local_entries s v" "covers (vm_store s e) p"
  proof -
    have "p \<in> Domain (local_map s v)" using that by (auto simp: Domain_iff in_page_map)
    then show ?thesis using wf by (simp add: vm_wf_def)
  qed
  show "KERNEL_PAGE \<le> p" if "e \<in> global_entries s" "covers (vm_store s e) p"
  proof -
    have "p \<in> Domain (global_map s)" using that by (auto simp: Domain_iff in_page_map)
    then show ?thesis using wf by (simp add: vm_wf_def)
  qed
qed

lemma table_of_local: "p < KERNEL_PAGE \<Longrightarrow> table_of v p = Some v" "KERNEL_PAGE \<le> p \<Longrightarrow> table_of v p = None"
  by (simp_all add: table_of_def)

lemma wf_entry:
  assumes wf: "vm_wf s" and get: "GetVirtEntry s v virtual = Some e"
  shows "e \<in> tree_set (home s v e)" "covers (vm_store s e) (virtual div PAGE)" "e < vm_next s" "shape_ok (vm_store s e)"
    "unshared s v e" "splittable (vm_store s e)"
    "GetVirtEntry s w virtual = Some e \<longleftrightarrow> table_of w (virtual div PAGE) = table_of v (virtual div PAGE)"
proof -
  let ?p = "virtual div PAGE"
  note inv = vm_wfD(1) [OF wf] and some = GetVirtEntry_Some [OF vm_wfD(1) [OF wf]]
  show home: "e \<in> tree_set (home s v e)" "covers (vm_store s e) ?p" "e < vm_next s" "shape_ok (vm_store s e)"
    using GetVirtEntry_home [OF inv get] by blast+
  have cases: "e \<in> local_entries s v \<or> e \<in> global_entries s" using home(1) home_entries [OF inv] by blast
  then show "splittable (vm_store s e)" by (rule vm_wfD(2) [OF wf])
  show "unshared s v e" unfolding unshared_def
    using cases vm_wfD(3) [OF wf] vm_invD(5,6) [OF inv] by metis
  have lt: "x \<in> local_entries s w \<Longrightarrow> covers (vm_store s x) ?p \<Longrightarrow> ?p < KERNEL_PAGE" for x w
    by (rule vm_wfD(4) [OF wf])
  show "GetVirtEntry s w virtual = Some e \<longleftrightarrow> table_of w ?p = table_of v ?p"
  proof (cases "e \<in> global_entries s")
    case True
    then have k: "KERNEL_PAGE \<le> ?p" using vm_wfD(5) [OF wf] home(2) by blast
    then have none: "\<forall>x\<in>local_entries s w. \<not> covers (vm_store s x) ?p" using lt [of _ w] by (intro ballI notI) (drule lt, simp_all)
    have "GetVirtEntry s w virtual = Some e" unfolding some using True home(2) none by blast
    then show ?thesis using table_of_local(2) [OF k] by simp
  next
    case False
    then have e: "e \<in> local_entries s v" using cases by blast
    have "GetVirtEntry s w virtual = Some e \<longleftrightarrow> e \<in> local_entries s w" unfolding some using False home(2) by blast
    moreover have "e \<in> local_entries s w \<longleftrightarrow> w = v"
    proof (cases "w = v")
      case neq: False
      then show ?thesis using vm_wfD(3) [OF wf neq [symmetric] e] by simp
    qed (simp add: e)
    moreover have "?p < KERNEL_PAGE" by (rule lt [OF e home(2)])
    ultimately show ?thesis using table_of_local(1) by simp
  qed
qed

lemma wf_split:
  assumes wf: "vm_wf s" and sp: "only_split s s' v e" and e: "splittable (vm_store s' e)"
  shows "vm_wf s'"
proof -
  note d = only_splitD [OF sp]
  have spl: "splittable (vm_store s' x)" if "x \<in> local_entries s' w \<or> x \<in> global_entries s'" for x w
  proof (cases "x = e")
    case False
    show ?thesis
    proof (cases "x < vm_next s")
      case True
      then have "x \<in> local_entries s w \<or> x \<in> global_entries s" using that d(7) [of w] d(8) by blast
      then show ?thesis using vm_wfD(2) [OF wf] d(4) [OF True False] by simp
    next
      case False
      then have "x < vm_next s'" using that vm_invD(3,4) [OF d(1)] by blast
      then show ?thesis using d(10) [of x] False by (simp add: splittable_def)
    qed
  qed (simp add: e)
  have "local_entries s' u \<inter> local_entries s' w = {}" if "u \<noteq> w" for u w
  proof -
    have *: "local_entries s' u \<inter> local_entries s' w = {}" if "u \<noteq> w" "w \<noteq> v" for u w
    proof -
      have "x < vm_next s" if "x \<in> local_entries s w" for x using that vm_invD(3) [OF vm_wfD(1) [OF wf]] by blast
      then show ?thesis using d(7) [of u] d(9) [OF that(2)] vm_wfD(3) [OF wf that(1)] by blast
    qed
    show ?thesis
    proof (cases "w = v")
      case True
      then show ?thesis using * [of w u] that by blast
    qed (use * that in blast)
  qed
  moreover have "p < KERNEL_PAGE" if "p \<in> Domain (local_map s' w)" for p w
    using that wf by (simp add: vm_wf_def d(5))
  moreover have "KERNEL_PAGE \<le> p" if "p \<in> Domain (global_map s')" for p
    using that wf by (simp add: vm_wf_def d(6))
  ultimately show ?thesis unfolding vm_wf_def using d(1) spl by blast
qed

lemma wf_update:
  assumes wf: "vm_wf s" and f: "in_place f" and e: "splittable (f (vm_store s e))"
  shows "vm_wf (upd_entry e f s)"
proof -
  let ?st = "(vm_store s)(e := f (vm_store s e))"
  have "covers (?st x) = covers (vm_store s x)" for x using in_place_covers(1) [OF f] by simp
  then have dom: "Domain (page_map ?st t) = Domain (page_map (vm_store s) t)" for t
    unfolding set_eq_iff Domain_page_map by simp
  have spl: "splittable (?st x)" if "x \<in> local_entries s w \<or> x \<in> global_entries s" for x w
    using vm_wfD(2) [OF wf that] e by simp
  have "vm_inv (upd_entry e f s)" by (rule upd_entry_inv [OF vm_wfD(1) [OF wf] f])
  moreover have "\<forall>v w. v \<noteq> w \<longrightarrow> local_entries s v \<inter> local_entries s w = {}"
    "\<forall>v. \<forall>p\<in>Domain (local_map s v). p < KERNEL_PAGE" "\<forall>p\<in>Domain (global_map s). KERNEL_PAGE \<le> p"
    using wf unfolding vm_wf_def by simp_all
  ultimately show ?thesis unfolding vm_wf_def using spl by (simp add: dom del: fun_upd_apply) blast
qed

subsection \<open>Pages as the operations see them\<close>

text \<open>Giving one page of an address space a new entry, or none: a page of the kernel area changes in
  all address spaces at once.\<close>

definition paint :: "(nat \<Rightarrow> nat \<Rightarrow> vm_entry option) \<Rightarrow> nat \<Rightarrow> nat \<Rightarrow> vm_entry option \<Rightarrow> nat \<Rightarrow> nat \<Rightarrow> vm_entry option" where
  "paint views v page x w p = (if p = page \<and> table_of w page = table_of v page then x else views w p)"

lemma paint_same [simp]: "paint views v page x v page = x" "p \<noteq> page \<Longrightarrow> paint views v page x w p = views w p"
  by (simp_all add: paint_def)

lemma paint_paint [simp]: "paint (paint views v page x) v page y = paint views v page y"
  by (intro ext) (simp add: paint_def)

text \<open>The page table entry of a page.\<close>

definition pte_of :: "vm_entry \<Rightarrow> pte" where
  "pte_of en = (pte_flags en)\<lparr>pt_physical := en_physical en\<rparr>"

fun pte_agrees :: "pte \<Rightarrow> vm_entry option \<Rightarrow> bool" where
  "pte_agrees t None \<longleftrightarrow> \<not> pt_present t"
| "pte_agrees t (Some en) \<longleftrightarrow> (if en_in_ram en then t = pte_of en else \<not> pt_present t)"

definition tables_ok :: "vm \<Rightarrow> bool" where
  "tables_ok s \<longleftrightarrow> (\<forall>w p. pte_agrees (vm_pte s (table_of w p) p) (view s w p))"

lemma pte_of_present [simp]: "pt_present (pte_of en) = en_in_ram en"
  by (simp add: pte_of_def pte_flags_def)

lemma pte_of_agrees [simp]: "pte_agrees (pte_of en) (Some en)"
  by (simp add: pte_of_def pte_flags_def)

lemma x86MapPage_pte:
  "vm_pte (x86MapPage s physical virtual flags) t p =
     (if p = virtual div PAGE \<and> t = table_of (vm_current s) p then flags\<lparr>pt_physical := physical\<rparr> else vm_pte s t p)"
  by (simp add: x86MapPage_def Let_def)

lemma x86MapPage_rest:
  "x86MapPage s physical virtual flags = s\<lparr>vm_pte := vm_pte (x86MapPage s physical virtual flags)\<rparr>"
  by (simp add: x86MapPage_def Let_def)

lemma map_pages_rest: "map_pages s en flags is = s\<lparr>vm_pte := vm_pte (map_pages s en flags is)\<rparr>"
proof (induction s en flags "is" rule: map_pages.induct)
  case (2 s en flags i "is")
  let ?s = "x86MapPage s (if en_physical en = 0 then 0 else en_physical en + i * PAGE) (en_virtual en + i * PAGE) flags"
  have "map_pages ?s en flags is = ?s\<lparr>vm_pte := vm_pte (map_pages ?s en flags is)\<rparr>" by (rule 2)
  also have "\<dots> = s\<lparr>vm_pte := vm_pte (map_pages ?s en flags is)\<rparr>" by (subst x86MapPage_rest) simp
  finally show ?case by simp
qed simp

lemma ArchUpdateMapping_rest: "ArchUpdateMapping s e = s\<lparr>vm_pte := vm_pte (ArchUpdateMapping s e)\<rparr>"
  unfolding ArchUpdateMapping_def Let_def using map_pages_rest x86MapPage_rest by simp

lemma map_pages_pte:
  assumes "shape_ok en"
  shows "vm_pte (map_pages s en flags is) t p =
     (if (\<exists>i\<in>set is. p = first_page en + i) \<and> t = table_of (vm_current s) p
      then flags\<lparr>pt_physical := en_physical (page_entry en p)\<rparr> else vm_pte s t p)"
proof (induction "is" arbitrary: s)
  case (Cons i "is")
  have virt: "(en_virtual en + i * PAGE) div PAGE = first_page en + i" by (simp add: first_page_def)
  have cur: "vm_current (x86MapPage s a b flags) = vm_current s" for a b by (simp add: x86MapPage_def Let_def)
  have phys: "(if en_physical en = 0 then 0 else en_physical en + i * PAGE) = en_physical (page_entry en (first_page en + i))"
    by (simp add: page_entry_def)
  show ?case unfolding map_pages.simps Cons cur x86MapPage_pte virt phys by auto
qed simp

lemma ArchUpdateMapping_pte:
  assumes shape: "shape_ok (vm_store s e)"
  shows "vm_pte (ArchUpdateMapping s e) t p =
     (if covers (vm_store s e) p \<and> t = table_of (vm_current s) p then pte_of (page_entry (vm_store s e) p) else vm_pte s t p)"
proof -
  let ?en = "vm_store s e"
  have flags: "pte_of (page_entry ?en p) = (pte_flags ?en)\<lparr>pt_physical := en_physical (page_entry ?en p)\<rparr>"
    by (simp add: pte_of_def pte_flags_def page_entry_def)
  show ?thesis
  proof (cases "en_num_pages ?en > 1")
    case True
    have "(\<exists>i\<in>set [0..<en_num_pages ?en]. p = first_page ?en + i) \<longleftrightarrow> covers ?en p"
    proof
      assume "covers ?en p"
      then show "\<exists>i\<in>set [0..<en_num_pages ?en]. p = first_page ?en + i" by (intro bexI [of _ "p - first_page ?en"]) (auto simp: covers_def)
    qed (auto simp: covers_def)
    then show ?thesis using True flags by (simp add: ArchUpdateMapping_def Let_def map_pages_pte [OF shape])
  next
    case False
    then have one: "en_num_pages ?en = 1" using shape by (simp add: shape_ok_def)
    have cov: "covers ?en p \<longleftrightarrow> p = en_virtual ?en div PAGE" using one by (auto simp: covers_def first_page_def)
    have "covers ?en p \<Longrightarrow> page_entry ?en p = ?en" using page_entry_single [OF shape one] by blast
    then show ?thesis using one cov by (auto simp: ArchUpdateMapping_def Let_def x86MapPage_pte pte_of_def)
  qed
qed

lemma ArchUpdateMapping_tables:
  assumes ok: "tables_ok s0" and shape: "shape_ok (vm_store s e)"
    and same: "vm_pte s = vm_pte s0" and tab: "\<And>p. covers (vm_store s e) p \<Longrightarrow> table_of (vm_current s) p = table_of v p"
    and views: "\<And>w p. view s w p = (if covers (vm_store s e) p \<and> table_of w p = table_of v p
                   then Some (page_entry (vm_store s e) p) else view s0 w p)"
  shows "tables_ok (ArchUpdateMapping s e)"
proof -
  have "view (ArchUpdateMapping s e) = view s" by (rule same_trees_view [OF ArchUpdateMapping_trees])
  then show ?thesis
    unfolding tables_ok_def using ok tab by (auto simp: ArchUpdateMapping_pte [OF shape] views same tables_ok_def)
qed

text \<open>Physical pages: a page with a frame of its own is in memory, its frame is not free, and no
  other page has the same frame.\<close>

definition owns_frame :: "phys \<Rightarrow> vm_entry \<Rightarrow> bool" where
  "owns_frame ph en \<longleftrightarrow> en_in_ram en \<and> (\<exists>i\<in>managed_pages ph - free_pages ph. en_physical en = i * PAGE)"

definition frames_ok :: "(nat \<Rightarrow> nat \<Rightarrow> vm_entry option) \<Rightarrow> phys \<Rightarrow> bool" where
  "frames_ok views ph \<longleftrightarrow> phys_ok ph \<and>
     (\<forall>w p en. views w p = Some en \<longrightarrow> en_allocated en \<longrightarrow> owns_frame ph en) \<and>
     (\<forall>w p en w' p' en'. views w p = Some en \<longrightarrow> views w' p' = Some en' \<longrightarrow> en_allocated en \<longrightarrow> en_allocated en' \<longrightarrow>
        en_physical en = en_physical en' \<longrightarrow> p = p' \<and> table_of w p = table_of w' p')"

lemma frames_okD:
  assumes "frames_ok views ph"
  shows "phys_ok ph" "views w p = Some en \<Longrightarrow> en_allocated en \<Longrightarrow> owns_frame ph en"
    "views w p = Some en \<Longrightarrow> views w' p' = Some en' \<Longrightarrow> en_allocated en \<Longrightarrow> en_allocated en' \<Longrightarrow>
       en_physical en = en_physical en' \<Longrightarrow> p = p' \<and> table_of w p = table_of w' p'"
  using assms unfolding frames_ok_def by iprover+

text \<open>Repainting a page with an entry that has no frame, has the frame it had, or has a frame that
  was free.\<close>

lemma frames_paint:
  assumes ok: "frames_ok views ph" and ph: "phys_ok ph'"
    and keep: "\<And>w p en. \<not> (p = page \<and> table_of w page = table_of v page) \<Longrightarrow> views w p = Some en \<Longrightarrow> en_allocated en \<Longrightarrow>
      owns_frame ph en \<Longrightarrow> owns_frame ph' en \<and> (\<forall>new. x = Some new \<longrightarrow> en_allocated new \<longrightarrow> en_physical new \<noteq> en_physical en)"
    and x: "\<And>new. x = Some new \<Longrightarrow> en_allocated new \<Longrightarrow> owns_frame ph' new"
  shows "frames_ok (paint views v page x) ph'"
  unfolding frames_ok_def
proof (intro conjI allI impI)
  fix w p en assume en: "paint views v page x w p = Some en" "en_allocated en"
  show "owns_frame ph' en"
  proof (cases "p = page \<and> table_of w page = table_of v page")
    case True
    then show ?thesis using en x by (simp add: paint_def)
  next
    case False
    then have "views w p = Some en" using en(1) unfolding paint_def by (simp only: if_False)
    then show ?thesis using keep [OF False _ en(2)] frames_okD(2) [OF ok _ en(2)] by blast
  qed
next
  fix w p en w' p' en'
  assume a: "paint views v page x w p = Some en" "paint views v page x w' p' = Some en'" "en_allocated en" "en_allocated en'"
    "en_physical en = en_physical en'"
  let ?hit = "\<lambda>w p. p = page \<and> table_of w page = table_of v page"
  have old: "views w p = Some en" if "\<not> ?hit w p" using a(1) that by (auto simp: paint_def split: if_splits)
  have old': "views w' p' = Some en'" if "\<not> ?hit w' p'" using a(2) that by (auto simp: paint_def split: if_splits)
  have new: "x = Some en" if "?hit w p" using a(1) that by (simp add: paint_def)
  have new': "x = Some en'" if "?hit w' p'" using a(2) that by (simp add: paint_def)
  have "p = p' \<and> table_of w p = table_of w' p'"
  proof (cases "?hit w p")
    case True
    have "?hit w' p'"
    proof (rule ccontr)
      assume n: "\<not> ?hit w' p'"
      then have "en_physical en \<noteq> en_physical en'"
        using keep [OF n old' [OF n] a(4) frames_okD(2) [OF ok old' [OF n] a(4)]] new [OF True] a(3) by blast
      then show False using a(5) by blast
    qed
    then show ?thesis using True by simp
  next
    case False
    have "\<not> ?hit w' p'"
    proof
      assume h: "?hit w' p'"
      then have "en_physical en' \<noteq> en_physical en"
        using keep [OF False old [OF False] a(3) frames_okD(2) [OF ok old [OF False] a(3)]] new' [OF h] a(4) by blast
      then show False using a(5) by simp
    qed
    then show ?thesis using frames_okD(3) [OF ok old [OF False] old' a(3-5)] by blast
  qed
  then show "p = p'" "table_of w p = table_of w' p'" by blast+
qed (rule ph)

lemma frames_repaint:
  assumes ok: "frames_ok views ph" and old: "views v page = Some en"
    and new: "en_allocated new \<Longrightarrow> en_allocated en \<and> en_in_ram new \<and> en_physical new = en_physical en"
  shows "frames_ok (paint views v page (Some new)) ph"
proof (rule frames_paint [OF ok frames_okD(1) [OF ok]])
  fix w p ex assume a: "\<not> (p = page \<and> table_of w page = table_of v page)" "views w p = Some ex" "en_allocated ex" "owns_frame ph ex"
  have "en_physical new \<noteq> en_physical ex" if "en_allocated new"
  proof
    assume "en_physical new = en_physical ex"
    then have "p = page \<and> table_of w p = table_of v page"
      using frames_okD(3) [OF ok a(2) old a(3)] new that by auto
    then show False using a(1) by auto
  qed
  then show "owns_frame ph ex \<and> (\<forall>new'. Some new = Some new' \<longrightarrow> en_allocated new' \<longrightarrow> en_physical new' \<noteq> en_physical ex)"
    using a(4) by auto
next
  fix new' assume "Some new = Some new'" "en_allocated new'"
  then show "owns_frame ph new'" using new frames_okD(2) [OF ok old] by (auto simp: owns_frame_def)
qed

lemma frames_alloc:
  assumes ok: "frames_ok views ph" and ph': "phys_ok ph'" "free_pages ph' = free_pages ph - {i}" "i \<in> free_pages ph"
      "managed_pages ph' = managed_pages ph"
    and new: "en_in_ram new" "en_physical new = i * PAGE"
  shows "frames_ok (paint views v page (Some new)) ph'"
proof (rule frames_paint [OF ok ph'(1)])
  have i: "i \<in> managed_pages ph" using ph'(3) frames_okD(1) [OF ok] by (auto simp: phys_ok_def managed_pages_def free_pages_def)
  show "owns_frame ph' new'" if "Some new = Some new'" for new' using that new ph' i by (auto simp: owns_frame_def)
  fix w p en assume "owns_frame ph en"
  then show "owns_frame ph' en \<and> (\<forall>new'. Some new = Some new' \<longrightarrow> en_allocated new' \<longrightarrow> en_physical new' \<noteq> en_physical en)"
    using new ph' by (auto simp: owns_frame_def)
qed

subsection \<open>Editing one page\<close>

text \<open>An entry of its own for a page.\<close>

definition sole :: "vm \<Rightarrow> nat \<Rightarrow> nat \<Rightarrow> nat \<Rightarrow> bool" where
  "sole s v page e \<longleftrightarrow> vm_wf s \<and> GetVirtEntry s v (page * PAGE) = Some e \<and> en_num_pages (vm_store s e) = 1"

lemma soleD:
  assumes "sole s v page e"
  shows "vm_wf s" "GetVirtEntry s v (page * PAGE) = Some e" "en_num_pages (vm_store s e) = 1" "e < vm_next s"
    "shape_ok (vm_store s e)" "first_page (vm_store s e) = page" "en_virtual (vm_store s e) = page * PAGE"
    "covers (vm_store s e) p \<longleftrightarrow> p = page" "page_entry (vm_store s e) page = vm_store s e" "view s v page = Some (vm_store s e)"
    "GetVirtEntry s w (p * PAGE) = Some e \<longleftrightarrow> p = page \<and> table_of w page = table_of v page"
    "e \<in> tree_set (home s v e)" "unshared s v e"
proof -
  show wf: "vm_wf s" and get: "GetVirtEntry s v (page * PAGE) = Some e" and one: "en_num_pages (vm_store s e) = 1"
    using assms by (simp_all add: sole_def)
  note w = wf_entry [OF wf get]
  show "e < vm_next s" "e \<in> tree_set (home s v e)" "unshared s v e" by (rule w)+
  show shape: "shape_ok (vm_store s e)" by (rule w(4))
  have cov: "covers (vm_store s e) page" using w(2) by simp
  show first: "first_page (vm_store s e) = page" using cov one by (simp add: covers_def)
  show "en_virtual (vm_store s e) = page * PAGE" using virtual_first_page [OF shape] first by simp
  show covp: "covers (vm_store s e) p \<longleftrightarrow> p = page" for p using first one by (auto simp: covers_def)
  show single: "page_entry (vm_store s e) page = vm_store s e" by (rule page_entry_single [OF shape one cov])
  show "view s v page = Some (vm_store s e)" using get single by (simp add: view_def)
  show "GetVirtEntry s w (p * PAGE) = Some e \<longleftrightarrow> p = page \<and> table_of w page = table_of v page"
  proof (cases "p = page")
    case False
    then show ?thesis using GetVirtEntry_home(2) [OF vm_wfD(1) [OF wf], of w "p * PAGE" e] covp [of p] by auto
  qed (use w(7) [of w] in simp)
qed

lemma sole_trees:
  assumes "same_trees s s'"
  shows "vm_wf s' = vm_wf s" "sole s' v page e = sole s v page e"
proof -
  show wf: "vm_wf s' = vm_wf s" unfolding vm_wf_def same_trees_inv [OF assms] using assms by (simp add: same_trees_def)
  show "sole s' v page e = sole s v page e"
    unfolding sole_def wf same_trees_entry [OF assms] using assms by (simp add: same_trees_def)
qed

lemma sole_update:
  assumes so: "sole s v page e" and f: "in_place f"
  shows "sole (upd_entry e f s) v page e" "view (upd_entry e f s) = paint (view s) v page (Some (f (vm_store s e)))"
proof -
  note d = soleD [OF so]
  have one: "en_num_pages (f (vm_store s e)) = 1" using f d(3) by (simp add: in_place_def)
  have "vm_wf (upd_entry e f s)" by (rule wf_update [OF d(1) f]) (simp add: splittable_def one)
  moreover have "GetVirtEntry (upd_entry e f s) v (page * PAGE) = Some e"
    using d(2) by (simp only: upd_entry_entry [OF vm_wfD(1) [OF d(1)] f])
  ultimately show so': "sole (upd_entry e f s) v page e" using one by (simp add: sole_def)
  show "view (upd_entry e f s) = paint (view s) v page (Some (f (vm_store s e)))"
  proof (intro ext)
    fix w p
    have "page_entry (f (vm_store s e)) page = f (vm_store s e)" using soleD(9) [OF so'] by simp
    then show "view (upd_entry e f s) w p = paint (view s) v page (Some (f (vm_store s e))) w p"
      unfolding upd_entry_view [OF vm_wfD(1) [OF d(1)] f] d(11) paint_def by auto
  qed
qed

lemma sole_split:
  assumes wf: "vm_wf s" and get: "GetVirtEntry s v virtual = Some e"
  obtains s' where "SplitLargePageEntryIntoMultiple s v virtual e 1 = Inr (s', 1)" "sole s' v (virtual div PAGE) e"
    "view s' = view s" "same_rest s s'" "vm_store s' e = page_entry (vm_store s e) (virtual div PAGE)"
proof -
  note w = wf_entry [OF wf get] and inv = vm_wfD(1) [OF wf]
  have multi: "en_num_pages (vm_store s e) \<noteq> 1 \<Longrightarrow> \<not> en_allocated (vm_store s e) \<and> \<not> en_swapfile (vm_store s e)"
    using w(6) by (simp add: splittable_def)
  obtain s' where s': "SplitLargePageEntryIntoMultiple s v virtual e 1 = Inr (s', 1)" "only_split s s' v e"
    "vm_store s' e = page_entry (vm_store s e) (virtual div PAGE)" "e \<in> tree_set (home s' v e)" "unshared s' v e"
    by (rule Split_ok [OF inv w(1,5,2)]) (use multi in blast)+
  have one: "en_num_pages (vm_store s' e) = 1" by (simp add: s'(3) page_entry_def)
  have "vm_wf s'" by (rule wf_split [OF wf s'(2)]) (simp add: splittable_def one)
  moreover have "GetVirtEntry s' v (virtual div PAGE * PAGE) = Some e"
    using split_entry [OF inv s'(2) w(3) w(2) s'(3), of v "virtual div PAGE"] get by (simp add: GetVirtEntry_page)
  ultimately have "sole s' v (virtual div PAGE) e" using one by (simp add: sole_def)
  moreover have "view s' = view s" by (rule ext) (rule only_split_view [OF inv s'(2)])
  ultimately show thesis using that s'(1,3) only_splitD(2) [OF s'(2)] by blast
qed

text \<open>Page tables that agree with the entries, one page apart.\<close>

definition tables_but :: "vm \<Rightarrow> nat \<Rightarrow> nat \<Rightarrow> bool" where
  "tables_but s v page \<longleftrightarrow>
     (\<forall>w p. \<not> (p = page \<and> table_of w page = table_of v page) \<longrightarrow> pte_agrees (vm_pte s (table_of w p) p) (view s w p))"

lemma tables_but_ok: "tables_ok s \<Longrightarrow> tables_but s v page"
  by (simp add: tables_ok_def tables_but_def)

lemma tables_but_paint:
  assumes "tables_but s v page" "view s' = paint (view s) v page x" "vm_pte s' = vm_pte s"
  shows "tables_but s' v page"
  using assms by (simp add: tables_but_def paint_def)

lemma sole_sync:
  assumes so: "sole s v page e" and but: "tables_but s v page" and cur: "table_of (vm_current s) page = table_of v page"
  shows "tables_ok (ArchUpdateMapping s e)" "sole (ArchUpdateMapping s e) v page e" "view (ArchUpdateMapping s e) = view s"
    "vm_pte (ArchUpdateMapping s e) (table_of v page) page = pte_of (vm_store s e)"
proof -
  note d = soleD [OF so]
  show vw: "view (ArchUpdateMapping s e) = view s" by (rule same_trees_view [OF ArchUpdateMapping_trees])
  show "sole (ArchUpdateMapping s e) v page e" using so by (simp add: sole_trees(2) [OF ArchUpdateMapping_trees])
  have pte: "vm_pte (ArchUpdateMapping s e) t p =
    (if p = page \<and> t = table_of v page then pte_of (vm_store s e) else vm_pte s t p)" for t p
    unfolding ArchUpdateMapping_pte [OF d(5)] d(8) using d(9) cur by auto
  then show "vm_pte (ArchUpdateMapping s e) (table_of v page) page = pte_of (vm_store s e)" by simp
  have "view s w page = Some (vm_store s e)" if "table_of w page = table_of v page" for w
    using d(9) d(11) [of w page] that by (simp add: view_def)
  then show "tables_ok (ArchUpdateMapping s e)"
    unfolding tables_ok_def vw using but by (auto simp: pte tables_but_def)
qed

text \<open>An entry is changed and its page table entry rewritten.\<close>

lemma sole_edit:
  fixes f :: "vm_entry \<Rightarrow> vm_entry"
  assumes so: "sole s v page e" and f: "in_place f" and but: "tables_but s v page"
    and cur: "table_of (vm_current s) page = table_of v page"
  defines "s' \<equiv> ArchUpdateMapping (upd_entry e f s) e"
  shows "sole s' v page e" "view s' = paint (view s) v page (Some (f (vm_store s e)))" "tables_ok s'"
    "vm_pte s' (table_of v page) page = pte_of (f (vm_store s e))" "vm_store s' e = f (vm_store s e)"
    "s' = upd_entry e f s\<lparr>vm_pte := vm_pte s'\<rparr>"
proof -
  note u = sole_update [OF so f]
  have b: "tables_but (upd_entry e f s) v page" by (rule tables_but_paint [OF but u(2)]) simp
  have "table_of (vm_current (upd_entry e f s)) page = table_of v page" using cur by simp
  note sync = sole_sync [OF u(1) b this]
  show "sole s' v page e" "tables_ok s'" "view s' = paint (view s) v page (Some (f (vm_store s e)))"
    "vm_pte s' (table_of v page) page = pte_of (f (vm_store s e))"
    unfolding s'_def using sync u(2) by simp_all
  show rest: "s' = upd_entry e f s\<lparr>vm_pte := vm_pte s'\<rparr>" unfolding s'_def by (rule ArchUpdateMapping_rest)
  show "vm_store s' e = f (vm_store s e)" by (subst rest) simp
qed

lemma sole_other:
  assumes so: "sole s v page e" and tr: "same_trees s s'" "vm_pte s' = vm_pte s"
  shows "sole s' v page e" "view s' = view s" "tables_but s v page \<Longrightarrow> tables_but s' v page"
  using so tr(2) by (simp_all add: sole_trees(2) [OF tr(1)] same_trees_view [OF tr(1)] tables_but_def)

text \<open>The invariant of the memory manager.\<close>

definition vm_good :: "vm \<Rightarrow> bool" where
  "vm_good s \<longleftrightarrow> vm_wf s \<and> tables_ok s \<and> frames_ok (view s) (vm_phys s)"

text \<open>The access rights of a page are changed: split, write, update the page tables.\<close>

lemma SetVirtPermissionsEx_ok:
  assumes good: "vm_good s" and get: "GetVirtEntry s v virtual = Some e" and en: "view s v (virtual div PAGE) = Some en"
    and legal: "(setp OR clear) AND NOT (VM_READ OR VM_WRITE OR VM_EXEC OR VM_USER) = 0"
      "\<not> (ve_file en \<and> \<not> vf_can_write (vm_files s (the (en_file_node en))) \<and> flag setp VM_WRITE \<and> \<not> ve_relocatable en)"
    and cur: "table_of (vm_current s) (virtual div PAGE) = table_of v (virtual div PAGE)"
  obtains s' where "SetVirtPermissionsEx s v virtual setp clear = Inr (s', ESUCCESS)" "vm_good s'"
    "view s' = paint (view s) v (virtual div PAGE) (Some (apply_permissions setp clear en))"
    "vm_phys s' = vm_phys s" "vm_frame s' = vm_frame s" "vm_current s' = vm_current s" "vm_files s' = vm_files s"
    "sole s' v (virtual div PAGE) e"
    "vm_pte s' (table_of v (virtual div PAGE)) (virtual div PAGE) = pte_of (apply_permissions setp clear en)"
proof -
  let ?p = "virtual div PAGE" and ?f = "apply_permissions setp clear"
  have wf: "vm_wf s" and tab: "tables_ok s" and fr: "frames_ok (view s) (vm_phys s)" using good by (simp_all add: vm_good_def)
  obtain s1 where s1: "SplitLargePageEntryIntoMultiple s v virtual e 1 = Inr (s1, 1)" "sole s1 v ?p e"
    "view s1 = view s" "same_rest s s1" "vm_store s1 e = page_entry (vm_store s e) ?p"
    by (rule sole_split [OF wf get])
  have st: "vm_store s1 e = en" using soleD(10) [OF s1(2)] en s1(3) by simp
  have f: "in_place ?f" by (simp add: in_place_def apply_permissions_def)
  have rest: "vm_pte s1 = vm_pte s" "vm_phys s1 = vm_phys s" "vm_frame s1 = vm_frame s" "vm_current s1 = vm_current s"
    "vm_files s1 = vm_files s"
    using s1(4) by (simp_all add: same_rest_def)
  have "tables_but s1 v ?p" using tables_but_ok [OF tab] by (simp add: tables_but_def s1(3) rest)
  note ed = sole_edit [OF s1(2) f this, unfolded rest(4), OF cur, unfolded st s1(3)]
  let ?s = "ArchUpdateMapping (upd_entry e ?f s1) e"
  have rest': "vm_phys ?s = vm_phys s" "vm_frame ?s = vm_frame s" "vm_current ?s = vm_current s" "vm_files ?s = vm_files s"
    using rest by (subst ArchUpdateMapping_rest, simp)+
  have "frames_ok (view ?s) (vm_phys s)" unfolding st ed(2)
  proof (rule frames_repaint [OF fr en])
    show "en_allocated en \<and> en_in_ram (?f en) \<and> en_physical (?f en) = en_physical en" if "en_allocated (?f en)"
      using that frames_okD(2) [OF fr en] by (simp add: apply_permissions_def owns_frame_def)
  qed
  then have "vm_good ?s" using ed(1,3) soleD(1) rest' st by (auto simp: vm_good_def)
  moreover have "SetVirtPermissionsEx s v virtual setp clear = Inr (?s, ESUCCESS)"
  proof -
    have "en = page_entry (vm_store s e) ?p" using st s1(5) by simp
    then have "ve_file (vm_store s e) = ve_file en" "en_file_node (vm_store s e) = en_file_node en"
      "ve_relocatable (vm_store s e) = ve_relocatable en" by (simp_all add: page_entry_def)
    then show ?thesis using legal get s1(1) by (simp add: SetVirtPermissionsEx_def Let_def)
  qed
  ultimately show thesis using that [of ?s] ed(1,2,4) rest' st by simp
qed

subsection \<open>Demand paging\<close>

text \<open>The part of the state that the page tables and the trees do not reach.\<close>

lemma ArchUpdateMapping_fields [simp]:
  "vm_phys (ArchUpdateMapping s e) = vm_phys s" "vm_frame (ArchUpdateMapping s e) = vm_frame s"
  "vm_current (ArchUpdateMapping s e) = vm_current s" "vm_files (ArchUpdateMapping s e) = vm_files s"
  "vm_store (ArchUpdateMapping s e) = vm_store s" "vm_swap (ArchUpdateMapping s e) = vm_swap s"
  "vm_deferred (ArchUpdateMapping s e) = vm_deferred s" "vm_next (ArchUpdateMapping s e) = vm_next s"
  "vm_local_brk (ArchUpdateMapping s e) = vm_local_brk s" "vm_kernel_brk (ArchUpdateMapping s e) = vm_kernel_brk s"
  by (subst ArchUpdateMapping_rest, simp)+

lemma frame_address:
  assumes "phys_ok ph" "i \<in> free_pages ph"
  shows "unat (of_nat i * ARCH_PAGE_SIZE) = i * PAGE"
  using unat_page_address [OF phys_okD(2) [OF assms]] .

definition with_frame :: "nat \<Rightarrow> vm_entry \<Rightarrow> vm_entry" where
  "with_frame i en = en\<lparr>en_physical := i * PAGE, en_allocated := True, en_in_ram := True, en_allow_temp_write := False\<rparr>"

lemma BringInBlankPage_ok:
  assumes good: "vm_good s" and get: "GetVirtEntry s (vm_current s) virtual = Some e"
    and en: "view s (vm_current s) (virtual div PAGE) = Some en" "\<not> en_swapfile en"
    and rights: "flag fault_type VM_READ \<longrightarrow> ve_read en" "flag fault_type VM_WRITE \<longrightarrow> ve_write en" "flag fault_type VM_EXEC \<longrightarrow> ve_exec en"
    and free: "free_pages (vm_phys s) \<noteq> {}"
  obtains s' i where "BringInBlankPage s (vm_current s) e virtual fault_type = Some (Inr (s', False))" "vm_good s'"
    "i \<in> free_pages (vm_phys s)" "free_pages (vm_phys s') = free_pages (vm_phys s) - {i}"
    "view s' = paint (view s) (vm_current s) (virtual div PAGE) (Some (with_frame i en))"
    "vm_frame s' = (vm_frame s)(i * PAGE := zero_page)" "vm_current s' = vm_current s"
proof -
  let ?v = "vm_current s" and ?p = "virtual div PAGE"
  have wf: "vm_wf s" and tab: "tables_ok s" and fr: "frames_ok (view s) (vm_phys s)" using good by (simp_all add: vm_good_def)
  obtain s1 where s1: "SplitLargePageEntryIntoMultiple s ?v virtual e 1 = Inr (s1, 1)" "sole s1 ?v ?p e"
    "view s1 = view s" "same_rest s s1" "vm_store s1 e = page_entry (vm_store s e) ?p"
    by (rule sole_split [OF wf get])
  have st: "vm_store s1 e = en" using soleD(10) [OF s1(2)] en s1(3) by simp
  have rest: "vm_phys s1 = vm_phys s" "vm_pte s1 = vm_pte s" "vm_frame s1 = vm_frame s" "vm_current s1 = ?v"
    using s1(4) by (simp_all add: same_rest_def)
  obtain ph i where ph: "AllocPhys (vm_phys s) = Some (Inr (ph, of_nat i * ARCH_PAGE_SIZE))" "i \<in> free_pages (vm_phys s)"
    "free_pages ph = free_pages (vm_phys s) - {i}" "phys_ok ph" "MAX_MEMORY_PAGES ph = MAX_MEMORY_PAGES (vm_phys s)"
    "ph_highest_page_index ph = ph_highest_page_index (vm_phys s)"
    by (rule AllocPhys_ok [OF frames_okD(1) [OF fr] free])
  have addr: "unat (of_nat i * ARCH_PAGE_SIZE) = i * PAGE" by (rule frame_address [OF frames_okD(1) [OF fr] ph(2)])
  let ?f = "\<lambda>en. en\<lparr>en_physical := i * PAGE, en_allocated := True, en_in_ram := True, en_allow_temp_write := True\<rparr>"
  let ?g = "\<lambda>en :: vm_entry. en\<lparr>en_allow_temp_write := False\<rparr>"
  have f: "in_place ?f" and g: "in_place ?g" by (simp_all add: in_place_def)
  define s2 where "s2 = s1\<lparr>vm_phys := ph\<rparr>"
  have "same_trees s1 s2" "vm_pte s2 = vm_pte s1" by (simp_all add: same_trees_def s2_def)
  note s2 = sole_other [OF s1(2) this]
  have "tables_but s1 ?v ?p" using tables_but_ok [OF tab] by (simp add: tables_but_def s1(3) rest)
  note but2 = s2(3) [OF this]
  have st2: "vm_store s2 e = en" and cur2: "vm_current s2 = ?v" by (simp_all add: s2_def st rest)
  define s3 where "s3 = ArchUpdateMapping (upd_entry e ?f s2) e"
  note s3 = sole_edit [OF s2(1) f but2, unfolded cur2, OF refl, folded s3_def, unfolded st2 s2(2) s1(3)]
  have cur3: "vm_current s3 = ?v" "vm_frame s3 = vm_frame s" "vm_phys s3 = ph" by (simp_all add: s3_def s2_def rest)
  define s4 where "s4 = s3\<lparr>vm_frame := (vm_frame s)(i * PAGE := zero_page)\<rparr>"
  have wr: "write_page s3 (en_virtual (vm_store s3 e)) zero_page = Inr s4"
  proof -
    have "en_virtual (vm_store s3 e) div PAGE = ?p" using soleD(7) [OF s3(1)] by simp
    then show ?thesis using s3(4) by (simp add: write_page_def Let_def cur3 s4_def) (simp add: pte_of_def)
  qed
  have "same_trees s3 s4" "vm_pte s4 = vm_pte s3" by (simp_all add: same_trees_def s4_def)
  note s4 = sole_other [OF s3(1) this]
  have st4: "vm_store s4 e = ?f en" and cur4: "vm_current s4 = ?v" by (simp_all add: s4_def s3(5) cur3)
  define s5 where "s5 = ArchUpdateMapping (upd_entry e ?g s4) e"
  note s5 = sole_edit [OF s4(1) g s4(3) [OF tables_but_ok [OF s3(3)]], unfolded cur4, OF refl, folded s5_def, unfolded st4 s4(2) s3(2)]
  have vw5: "view s5 = paint (view s) ?v ?p (Some (with_frame i en))" using s5(2) by (simp add: with_frame_def)
  have mp: "managed_pages ph = managed_pages (vm_phys s)" using ph(5,6) by (simp add: managed_pages_def)
  have fields: "vm_phys s5 = ph" "vm_frame s5 = (vm_frame s)(i * PAGE := zero_page)" "vm_current s5 = ?v"
    by (simp_all add: s5_def s4_def cur3)
  have "frames_ok (view s5) ph" unfolding vw5
    by (rule frames_alloc [OF fr ph(4,3,2) mp]) (simp_all add: with_frame_def)
  then have good': "vm_good s5" using s5(3) soleD(1) [OF s5(1)] by (simp add: vm_good_def fields)
  have "BringInBlankPage s ?v e virtual fault_type = Some (Inr (s5, False))"
  proof -
    have "en = page_entry (vm_store s e) ?p" using st s1(5) by simp
    then have r: "ve_read (vm_store s e) = ve_read en" "ve_write (vm_store s e) = ve_write en" "ve_exec (vm_store s e) = ve_exec en"
      by (simp_all add: page_entry_def)
    have n: "en_num_pages (vm_store s1 e) = 1" by (rule soleD(3) [OF s1(2)])
    define u where "u = upd_entry e ?f s2"
    have u: "ArchUpdateMapping u e = s3" "vm_store u e = vm_store s3 e" by (simp_all add: u_def s3_def)
    have sw: "\<not> en_swapfile (vm_store s3 e)" using en(2) s3(5) by simp
    show ?thesis
      unfolding BringInBlankPage_def Let_def r s1(1) obind_simps prod.case rest(1) ph(1) addr s2_def [symmetric] u_def [symmetric] u
      using rights n sw by (simp add: wr s5_def)
  qed
  then show thesis using that good' ph(2,3) vw5 fields by simp
qed

subsection \<open>Unmapping\<close>

lemma wf_get:
  assumes "vm_wf s"
  shows "GetVirtEntry s w a = Some x \<longleftrightarrow> (x \<in> local_entries s w \<or> x \<in> global_entries s) \<and> covers (vm_store s x) (a div PAGE)"
proof -
  have "\<forall>y\<in>local_entries s w. \<not> covers (vm_store s y) (a div PAGE)" if "x \<in> global_entries s" "covers (vm_store s x) (a div PAGE)"
  proof (intro ballI notI)
    fix y assume "y \<in> local_entries s w" "covers (vm_store s y) (a div PAGE)"
    then have "a div PAGE < KERNEL_PAGE" using vm_wfD(4) [OF assms] by blast
    moreover have "KERNEL_PAGE \<le> a div PAGE" using vm_wfD(5) [OF assms] that by blast
    ultimately show False by simp
  qed
  then show ?thesis unfolding GetVirtEntry_Some [OF vm_wfD(1) [OF assms]] by blast
qed

lemma delete_ok:
  assumes so: "sole s v page e"
  obtains s' where "DeleteFromAvl s v e = Inr s'" "vm_wf s'" "same_rest s s'" "view s' = paint (view s) v page None"
proof -
  note d = soleD [OF so]
  have inv: "vm_inv s" by (rule vm_wfD(1) [OF d(1)])
  obtain s' where s': "DeleteFromAvl s v e = Inr s'" "vm_inv s'" "vm_store s' = vm_store s" "vm_next s' = vm_next s" "same_rest s s'"
    "\<And>w. local_entries s' w = (if \<not> ve_global (vm_store s e) \<and> w = v then local_entries s w - {e} else local_entries s w)"
    "global_entries s' = (if ve_global (vm_store s e) then global_entries s - {e} else global_entries s)"
    by (rule DeleteFromAvl_ok [OF inv d(12)]) (rule that)
  have loc: "local_entries s' w = local_entries s w - {e}" for w
    using s'(6) [of w] vm_invD(5) [OF inv, of e w] d(13) by (auto simp: unshared_def)
  have glob: "global_entries s' = global_entries s - {e}"
    using s'(7) vm_invD(6) [OF inv, of e] by auto
  have wf': "vm_wf s'"
    unfolding vm_wf_def
  proof (intro conjI allI ballI impI)
    show "splittable (vm_store s' x)" if "x \<in> local_entries s' w" for x w using that vm_wfD(2) [OF d(1)] unfolding loc s'(3) by blast
    show "splittable (vm_store s' x)" if "x \<in> global_entries s'" for x using that vm_wfD(2) [OF d(1)] unfolding glob s'(3) by blast
    show "local_entries s' u \<inter> local_entries s' w = {}" if "u \<noteq> w" for u w using vm_wfD(3) [OF d(1) that] unfolding loc by blast
    show "p < KERNEL_PAGE" if "p \<in> Domain (local_map s' w)" for p w
      using that vm_wfD(4) [OF d(1)] unfolding Domain_page_map loc s'(3) by blast
    show "KERNEL_PAGE \<le> p" if "p \<in> Domain (global_map s')" for p
      using that vm_wfD(5) [OF d(1)] unfolding Domain_page_map glob s'(3) by blast
  qed (rule s'(2))
  have get: "GetVirtEntry s' w a = Some x \<longleftrightarrow> GetVirtEntry s w a = Some x \<and> x \<noteq> e" for w a x
    unfolding wf_get [OF wf'] wf_get [OF d(1)] loc glob s'(3) by blast
  have "view s' w p = paint (view s) v page None w p" for w p
  proof (cases "GetVirtEntry s w (p * PAGE) = Some e")
    case True
    have "GetVirtEntry s' w (p * PAGE) = None"
    proof (cases "GetVirtEntry s' w (p * PAGE)")
      case (Some x)
      then show ?thesis using True unfolding get by auto
    qed
    then show ?thesis using True d(11) by (simp add: view_def paint_def)
  next
    case False
    have "GetVirtEntry s' w (p * PAGE) = GetVirtEntry s w (p * PAGE)"
    proof (cases "GetVirtEntry s w (p * PAGE)")
      case None
      then have "GetVirtEntry s' w (p * PAGE) \<noteq> Some x" for x unfolding get by simp
      then have "GetVirtEntry s' w (p * PAGE) = None" by (metis not_None_eq)
      then show ?thesis using None by simp
    next
      case (Some x)
      then have "GetVirtEntry s' w (p * PAGE) = Some x" unfolding get using False by simp
      then show ?thesis using Some by simp
    qed
    then have "view s' w p = view s w p" by (simp add: view_def s'(3))
    moreover have "\<not> (p = page \<and> table_of w page = table_of v page)" using False d(11) by blast
    ultimately show ?thesis unfolding paint_def by (simp only: if_False)
  qed
  then have "view s' = paint (view s) v page None" by (intro ext) blast
  then show thesis by (rule that [OF s'(1) wf' s'(5)])
qed

lemma ArchUnmap_pte:
  "vm_pte (ArchUnmap s e) t p = (if p = en_virtual (vm_store s e) div PAGE \<and> t = table_of (vm_current s) p
     then \<lparr>pt_physical = 0, pt_present = False, pt_write = False, pt_user = False\<rparr> else vm_pte s t p)"
  by (simp add: ArchUnmap_def x86MapPage_pte)

lemma ArchUnmap_rest: "ArchUnmap s e = s\<lparr>vm_pte := vm_pte (ArchUnmap s e)\<rparr>"
  unfolding ArchUnmap_def by (rule x86MapPage_rest)

lemma ArchUnmap_fields [simp]:
  "vm_phys (ArchUnmap s e) = vm_phys s" "vm_frame (ArchUnmap s e) = vm_frame s" "vm_current (ArchUnmap s e) = vm_current s"
  "vm_store (ArchUnmap s e) = vm_store s" "vm_swap (ArchUnmap s e) = vm_swap s" "vm_files (ArchUnmap s e) = vm_files s"
  by (subst ArchUnmap_rest, simp)+

lemma frames_drop:
  assumes ok: "frames_ok views ph" and old: "views v page = Some en"
    and ph': "phys_ok ph'" "managed_pages ph' = managed_pages ph"
      "free_pages ph' = (if en_allocated en then insert (en_physical en div PAGE) (free_pages ph) else free_pages ph)"
    and x: "\<And>new. x = Some new \<Longrightarrow> \<not> en_allocated new"
  shows "frames_ok (paint views v page x) ph'"
proof (rule frames_paint [OF ok ph'(1)])
  fix w p ex assume a: "\<not> (p = page \<and> table_of w page = table_of v page)" "views w p = Some ex" "en_allocated ex" "owns_frame ph ex"
  have "en_physical ex div PAGE \<noteq> en_physical en div PAGE" if al: "en_allocated en"
  proof
    assume eq: "en_physical ex div PAGE = en_physical en div PAGE"
    have "owns_frame ph en" by (rule frames_okD(2) [OF ok old al])
    then have "en_physical ex = en_physical en" using a(4) eq by (auto simp: owns_frame_def)
    then have "p = page \<and> table_of w p = table_of v page" using frames_okD(3) [OF ok a(2) old a(3) al] by blast
    then show False using a(1) by metis
  qed
  then have "owns_frame ph' ex" using a(4) ph'(2,3) by (auto simp: owns_frame_def split: if_splits)
  then show "owns_frame ph' ex \<and> (\<forall>new. x = Some new \<longrightarrow> en_allocated new \<longrightarrow> en_physical new \<noteq> en_physical ex)"
    using x by blast
qed (use x in blast)

text \<open>Giving back the frame of a page.\<close>

lemma dealloc_frame_ok:
  assumes fr: "frames_ok (view s) (vm_phys s)" and own: "owns_frame (vm_phys s) en"
  obtains ph where "dealloc_frame s (en_physical en) = Inr (s\<lparr>vm_phys := ph\<rparr>)" "phys_ok ph" "managed_pages ph = managed_pages (vm_phys s)"
    "free_pages ph = insert (en_physical en div PAGE) (free_pages (vm_phys s))"
proof -
  obtain i where i: "i \<in> managed_pages (vm_phys s)" "i \<notin> free_pages (vm_phys s)" "en_physical en = i * PAGE"
    using own by (auto simp: owns_frame_def)
  have lt: "i < MAX_MEMORY_PAGES (vm_phys s)" "i \<le> ph_highest_page_index (vm_phys s)" using i(1) by (simp_all add: managed_pages_def)
  have "i < 2 ^ 20" using lt(1) frames_okD(1) [OF fr] by (simp add: phys_ok_def)
  then have addr: "unat (of_nat (en_physical en) :: u32) = i * 4096" using unat_page_address [of i] i(3) by simp
  obtain ph where "DeallocPhys (vm_phys s) (of_nat (en_physical en)) = Inr ph" "free_pages ph = insert i (free_pages (vm_phys s))" "phys_ok ph"
    "MAX_MEMORY_PAGES ph = MAX_MEMORY_PAGES (vm_phys s)" "ph_highest_page_index ph = ph_highest_page_index (vm_phys s)"
    by (rule DeallocPhys_ok [OF frames_okD(1) [OF fr] addr lt(1) i(2) lt(2)])
  then show thesis using that i(3) by (simp add: dealloc_frame_def managed_pages_def)
qed

lemma DereferenceEntry_ok:
  assumes good: "vm_good s" and so: "sole s v page e" and cur: "table_of (vm_current s) page = table_of v page"
    and en: "vm_store s e = en" "en_ref_count en = 1" "\<not> (ve_file en \<and> ve_write en \<and> en_in_ram en)" "\<not> en_swapfile en"
  obtains s' where "DereferenceEntry s v e = Some (Inr (s', en_in_ram en))" "vm_good s'" "view s' = paint (view s) v page None"
    "free_pages (vm_phys s') = (if en_allocated en then insert (en_physical en div PAGE) (free_pages (vm_phys s)) else free_pages (vm_phys s))"
    "vm_current s' = vm_current s" "vm_frame s' = vm_frame s" "managed_pages (vm_phys s') = managed_pages (vm_phys s)"
proof -
  let ?f = "\<lambda>en :: vm_entry. en\<lparr>en_ref_count := en_ref_count en - 1\<rparr>"
  have tab: "tables_ok s" and fr: "frames_ok (view s) (vm_phys s)" using good by (simp_all add: vm_good_def)
  have old: "view s v page = Some en" using soleD(10) [OF so] en(1) by simp
  have f: "in_place ?f" by (simp add: in_place_def)
  define s1 where "s1 = upd_entry e ?f s"
  have so1: "sole s1 v page e" and vw1: "view s1 = paint (view s) v page (Some (?f en))"
    using sole_update [OF so f] en(1) by (simp_all add: s1_def)
  have st1: "vm_store s1 e = ?f en" by (simp add: s1_def en(1))
  define s2 where "s2 = (if en_in_ram en then ArchUnmap s1 e else s1)"
  have tr2: "same_trees s1 s2" by (simp add: s2_def ArchUnmap_trees)
  have rest2: "vm_phys s2 = vm_phys s" "vm_current s2 = vm_current s" "vm_frame s2 = vm_frame s" by (simp_all add: s2_def s1_def)
  have page: "en_virtual (?f en) div PAGE = page" using soleD(7) [OF so1] st1 by simp
  have pte2: "vm_pte s2 t p = vm_pte s t p" if "\<not> (p = page \<and> t = table_of v page)" for t p
    using that cur page by (auto simp: s2_def ArchUnmap_pte s1_def en(1))
  have absent: "\<not> pt_present (vm_pte s2 (table_of v page) page)"
  proof (cases "en_in_ram en")
    case True
    then show ?thesis using cur page by (simp add: s2_def ArchUnmap_pte st1) (simp add: s1_def)
  next
    case False
    have "pte_agrees (vm_pte s (table_of v page) page) (view s v page)" using tab by (simp add: tables_ok_def)
    then show ?thesis using False old by (simp add: s2_def s1_def)
  qed
  obtain ph where ph: "(if en_allocated en then dealloc_frame s2 (en_physical en) else Inr s2) = Inr (s2\<lparr>vm_phys := ph\<rparr>)" "phys_ok ph"
    "managed_pages ph = managed_pages (vm_phys s)"
    "free_pages ph = (if en_allocated en then insert (en_physical en div PAGE) (free_pages (vm_phys s)) else free_pages (vm_phys s))"
  proof (cases "en_allocated en")
    case True
    have own: "owns_frame (vm_phys s2) en" using frames_okD(2) [OF fr old True] rest2 by simp
    have "frames_ok (view s1) (vm_phys s)" unfolding vw1
      by (rule frames_repaint [OF fr old]) (use own rest2 in \<open>simp add: owns_frame_def\<close>)
    then have "frames_ok (view s2) (vm_phys s2)" using same_trees_view [OF tr2] rest2 by simp
    then show thesis using dealloc_frame_ok [OF _ own] that True rest2 by auto
  next
    case False
    then show thesis using that [of "vm_phys s2"] frames_okD(1) [OF fr] rest2 by simp
  qed
  have "same_trees s1 (s2\<lparr>vm_phys := ph\<rparr>)" using tr2 by (simp add: same_trees_def)
  then have so3: "sole (s2\<lparr>vm_phys := ph\<rparr>) v page e" and vw3: "view (s2\<lparr>vm_phys := ph\<rparr>) = view s1"
    using so1 by (simp_all add: sole_trees(2) same_trees_view)
  obtain s' where s': "DeleteFromAvl (s2\<lparr>vm_phys := ph\<rparr>) v e = Inr s'" "vm_wf s'" "same_rest (s2\<lparr>vm_phys := ph\<rparr>) s'"
    "view s' = paint (view (s2\<lparr>vm_phys := ph\<rparr>)) v page None"
    by (rule delete_ok [OF so3])
  have rest: "vm_phys s' = ph" "vm_current s' = vm_current s" "vm_frame s' = vm_frame s" "vm_pte s' = vm_pte s2"
    using s'(3) rest2 by (simp_all add: same_rest_def)
  have vw: "view s' = paint (view s) v page None" using s'(4) vw3 vw1 by simp
  have "tables_ok s'"
    unfolding tables_ok_def vw rest
  proof (intro allI)
    fix w p show "pte_agrees (vm_pte s2 (table_of w p) p) (paint (view s) v page None w p)"
      using absent pte2 [of p "table_of w p"] tab by (auto simp: paint_def tables_ok_def)
  qed
  moreover have "frames_ok (view s') ph" unfolding vw by (rule frames_drop [OF fr old ph(2-4)]) simp
  ultimately have "vm_good s'" using s'(2) rest by (simp add: vm_good_def)
  moreover have "DereferenceEntry s v e = Some (Inr (s', en_in_ram en))"
    unfolding DereferenceEntry_def Let_def s1_def [symmetric] st1 using en ph(1) s'(1)
    by (cases "en_allocated en") (auto simp: s2_def [symmetric])
  ultimately show thesis using that vw ph rest by simp
qed

text \<open>Several pages become unmapped.\<close>

definition erase :: "(nat \<Rightarrow> nat \<Rightarrow> vm_entry option) \<Rightarrow> nat \<Rightarrow> nat set \<Rightarrow> nat \<Rightarrow> nat \<Rightarrow> vm_entry option" where
  "erase views v A w p = (if p \<in> A \<and> table_of w p = table_of v p then None else views w p)"

lemma erase_simps [simp]:
  "erase views v {} = views" "paint (erase views v A) v page None = erase views v (insert page A)"
  by (auto simp: erase_def paint_def fun_eq_iff)

text \<open>Pages that give up their memory without work for the disk.\<close>

definition disposable :: "vm_entry \<Rightarrow> bool" where
  "disposable en \<longleftrightarrow> en_ref_count en = 1 \<and> \<not> (ve_file en \<and> ve_write en \<and> en_in_ram en) \<and> \<not> en_swapfile en"

end
