(* ===== verification/VirtSpace.thy ===== *)
theory VirtSpace
  imports VirtOps
begin

text \<open>
  The operations of the virtual memory manager on ranges of pages, and the properties of virtual.c:
  mapping and unmapping change the pages of the range and no others, frames are given out and taken
  back with the pages they belong to, and a page fault brings in a blank page.
\<close>

subsection \<open>Unmapping a range\<close>

lemma page_of_index: "(virtual + i * PAGE) div PAGE = virtual div PAGE + i"
  by simp

lemma split_same:
  assumes "virtual div PAGE \<le> first_page (vm_store s e)" "virtual' div PAGE \<le> first_page (vm_store s e)"
  shows "SplitLargePageEntryIntoMultiple s v virtual e n = SplitLargePageEntryIntoMultiple s v virtual' e n"
  using assms by (simp add: SplitLargePageEntryIntoMultiple_def split_before_def first_page_def Let_def)

text \<open>The loop hands the address of the first page of the range to the split; that is enough, since
  the pages before the current one are gone.\<close>

lemma split_in_range:
  assumes wf: "vm_wf s" and get: "GetVirtEntry s v (virtual + k * PAGE) = Some e"
    and gone: "\<And>p. virtual div PAGE \<le> p \<Longrightarrow> p < virtual div PAGE + k \<Longrightarrow> view s v p = None"
  shows "SplitLargePageEntryIntoMultiple s v virtual e 1 = SplitLargePageEntryIntoMultiple s v (virtual + k * PAGE) e 1"
proof (cases "k = 0")
  case False
  let ?b = "virtual div PAGE"
  have cov: "covers (vm_store s e) (?b + k)" using wf_entry(2) [OF wf get] unfolding page_of_index .
  have "\<not> covers (vm_store s e) (?b + k - 1)"
  proof
    assume c: "covers (vm_store s e) (?b + k - 1)"
    have "e \<in> local_entries s v \<or> e \<in> global_entries s" using get unfolding wf_get [OF wf] by blast
    then have "GetVirtEntry s v ((?b + k - 1) * PAGE) = Some e" unfolding wf_get [OF wf] using c by simp
    then have "view s v (?b + k - 1) \<noteq> None" by (simp add: view_def)
    then show False using gone [of "?b + k - 1"] False by simp
  qed
  then have "first_page (vm_store s e) = ?b + k" using cov by (auto simp: covers_def)
  then show ?thesis by (intro split_same) simp_all
qed simp

lemma wf_view_table:
  assumes wf: "vm_wf s" and tab: "table_of w p = table_of v p"
  shows "view s w p = view s v p"
proof -
  have page: "p * PAGE div PAGE = p" by simp
  have "GetVirtEntry s w (p * PAGE) = GetVirtEntry s v (p * PAGE)"
  proof (cases "GetVirtEntry s v (p * PAGE)")
    case (Some e)
    then show ?thesis using wf_entry(7) [OF wf Some, of w] tab unfolding page by simp
  next
    case None
    show ?thesis
    proof (cases "GetVirtEntry s w (p * PAGE)")
      case (Some e)
      then show ?thesis using wf_entry(7) [OF wf Some, of v] tab unfolding page by simp
    qed (simp add: None)
  qed
  then show ?thesis by (simp add: view_def)
qed

lemma good_split:
  assumes good: "vm_good s" and s': "vm_wf s'" "view s' = view s" "same_rest s s'"
  shows "vm_good s'"
  using good s' by (simp add: vm_good_def tables_ok_def same_rest_def)

definition frames_in :: "(nat \<Rightarrow> nat \<Rightarrow> vm_entry option) \<Rightarrow> nat \<Rightarrow> nat set \<Rightarrow> nat set" where
  "frames_in views v A = {en_physical en div PAGE | en p. p \<in> A \<and> views v p = Some en \<and> en_allocated en}"

lemma frames_in_empty [simp]: "frames_in views v {} = {}"
  by (simp add: frames_in_def)

lemma frames_in_insert:
  "frames_in views v (insert page A) =
     (case views v page of None \<Rightarrow> {} | Some en \<Rightarrow> if en_allocated en then {en_physical en div PAGE} else {}) \<union> frames_in views v A"
  by (auto simp: frames_in_def split: option.splits)

lemma frames_in_cong: "(\<And>p. p \<in> A \<Longrightarrow> views v p = views' v p) \<Longrightarrow> frames_in views v A = frames_in views' v A"
  unfolding frames_in_def by (intro Collect_cong) metis

lemma erase_erase [simp]: "erase (erase views v A) v B = erase views v (A \<union> B)"
  by (auto simp: erase_def fun_eq_iff)

lemma paint_erase: "paint views v page None = erase views v {page}"
  by (auto simp: erase_def paint_def fun_eq_iff)

lemma unmap_loop_ok:
  assumes "vm_good s" "k \<le> n"
    and "\<And>p. virtual div PAGE \<le> p \<Longrightarrow> p < virtual div PAGE + n \<Longrightarrow> table_of (vm_current s) p = table_of v p"
    and "\<And>p. virtual div PAGE \<le> p \<Longrightarrow> p < virtual div PAGE + k \<Longrightarrow> view s v p = None"
    and "\<And>i. k \<le> i \<Longrightarrow> i < n \<Longrightarrow> case view s v (virtual div PAGE + i) of None \<Rightarrow> skip | Some en \<Rightarrow> disposable en"
  shows "\<exists>s'. unmap_loop s v virtual skip [k..<n] = Some (Inr (s', ESUCCESS)) \<and> vm_good s' \<and>
    view s' = erase (view s) v {virtual div PAGE + k..<virtual div PAGE + n} \<and>
    free_pages (vm_phys s') = free_pages (vm_phys s) \<union> frames_in (view s) v {virtual div PAGE + k..<virtual div PAGE + n} \<and>
    vm_current s' = vm_current s \<and> vm_frame s' = vm_frame s \<and> managed_pages (vm_phys s') = managed_pages (vm_phys s)"
  using assms
proof (induction "n - k" arbitrary: s k)
  case 0
  then show ?case by simp
next
  case (Suc m)
  let ?b = "virtual div PAGE" and ?p = "virtual div PAGE + k"
  have k: "k < n" "m = n - Suc k" "Suc k \<le> n" using Suc.hyps(2) by simp_all
  have upt: "[k..<n] = k # [Suc k..<n]" by (rule upt_conv_Cons [OF k(1)])
  have range: "{?p..<?b + n} = insert ?p {?b + Suc k..<?b + n}" using k(1) by auto
  have wf: "vm_wf s" using Suc.prems(1) by (simp add: vm_good_def)
  show ?case
  proof (cases "GetVirtEntry s v (virtual + k * PAGE)")
    case None
    then have gone: "view s v ?p = None"
      using GetVirtEntry_page [of s v "virtual + k * PAGE"] unfolding page_of_index by (simp add: view_def)
    then have skip: "skip" using Suc.prems(5) [of k] k(1) by simp
    have less: "view s v p = None" if "?b \<le> p" "p < ?b + Suc k" for p
      using that gone Suc.prems(4) [of p] by (cases "p = ?p") auto
    obtain s' where s': "unmap_loop s v virtual skip [Suc k..<n] = Some (Inr (s', ESUCCESS))" "vm_good s'"
      "view s' = erase (view s) v {?b + Suc k..<?b + n}"
      "free_pages (vm_phys s') = free_pages (vm_phys s) \<union> frames_in (view s) v {?b + Suc k..<?b + n}"
      "vm_current s' = vm_current s" "vm_frame s' = vm_frame s" "managed_pages (vm_phys s') = managed_pages (vm_phys s)"
      using Suc.hyps(1) [OF k(2) Suc.prems(1) k(3) Suc.prems(3) less Suc.prems(5)] by auto
    have "erase (view s) v {?p..<?b + n} = erase (view s) v {?b + Suc k..<?b + n}"
    proof (intro ext)
      fix w p
      have "view s w ?p = None" if "table_of w ?p = table_of v ?p" using wf_view_table [OF wf that] gone by simp
      then show "erase (view s) v {?p..<?b + n} w p = erase (view s) v {?b + Suc k..<?b + n} w p"
        unfolding range by (auto simp: erase_def)
    qed
    then show ?thesis using s' None skip gone unfolding upt by (simp add: range frames_in_insert)
  next
    case (Some e)
    note split = split_in_range [OF wf Some Suc.prems(4)]
    obtain s1 where s1: "SplitLargePageEntryIntoMultiple s v (virtual + k * PAGE) e 1 = Inr (s1, 1)" "sole s1 v ?p e"
      "view s1 = view s" "same_rest s s1"
      by (rule sole_split [OF wf Some, unfolded page_of_index])
    define en where "en = vm_store s1 e"
    have en: "view s v ?p = Some en" using soleD(10) [OF s1(2)] s1(3) by (simp add: en_def)
    then have disp: "en_ref_count en = 1" "\<not> (ve_file en \<and> ve_write en \<and> en_in_ram en)" "\<not> en_swapfile en"
      using Suc.prems(5) [of k] k(1) by (auto simp: disposable_def)
    have good1: "vm_good s1" by (rule good_split [OF Suc.prems(1) soleD(1) [OF s1(2)] s1(3,4)])
    have rest1: "vm_current s1 = vm_current s" "vm_frame s1 = vm_frame s" "vm_phys s1 = vm_phys s" using s1(4) by (simp_all add: same_rest_def)
    have cur: "table_of (vm_current s1) ?p = table_of v ?p" using Suc.prems(3) [of ?p] k(1) rest1 by simp
    obtain s2 where s2: "DereferenceEntry s1 v e = Some (Inr (s2, en_in_ram en))" "vm_good s2" "view s2 = paint (view s1) v ?p None"
      "free_pages (vm_phys s2) = (if en_allocated en then insert (en_physical en div PAGE) (free_pages (vm_phys s1)) else free_pages (vm_phys s1))"
      "vm_current s2 = vm_current s1" "vm_frame s2 = vm_frame s1" "managed_pages (vm_phys s2) = managed_pages (vm_phys s1)"
      by (rule DereferenceEntry_ok [OF good1 s1(2) cur en_def [symmetric] disp])
    have vw2: "view s2 = erase (view s) v {?p}" using s2(3) s1(3) by (simp add: paint_erase)
    then have at: "view s2 v p = (if p = ?p then None else view s v p)" for p by (simp add: erase_def)
    have cur2: "table_of (vm_current s2) p = table_of v p" if "?b \<le> p" "p < ?b + n" for p
      using Suc.prems(3) [OF that] s2(5) rest1 by simp
    have less: "view s2 v p = None" if "?b \<le> p" "p < ?b + Suc k" for p
      using that Suc.prems(4) [of p] by (cases "p = ?p") (auto simp: at)
    have rest: "case view s2 v (?b + i) of None \<Rightarrow> skip | Some en \<Rightarrow> disposable en" if "Suc k \<le> i" "i < n" for i
      using that Suc.prems(5) [of i] by (simp add: at)
    obtain s' where s': "unmap_loop s2 v virtual skip [Suc k..<n] = Some (Inr (s', ESUCCESS))" "vm_good s'"
      "view s' = erase (view s2) v {?b + Suc k..<?b + n}"
      "free_pages (vm_phys s') = free_pages (vm_phys s2) \<union> frames_in (view s2) v {?b + Suc k..<?b + n}"
      "vm_current s' = vm_current s2" "vm_frame s' = vm_frame s2" "managed_pages (vm_phys s') = managed_pages (vm_phys s2)"
      using Suc.hyps(1) [OF k(2) s2(2) k(3) cur2 less rest] by auto
    have "frames_in (view s2) v {?b + Suc k..<?b + n} = frames_in (view s) v {?b + Suc k..<?b + n}"
      by (rule frames_in_cong) (simp add: at)
    then have fr: "free_pages (vm_phys s') = free_pages (vm_phys s) \<union> frames_in (view s) v {?p..<?b + n}"
      using s'(4) s2(4) rest1 en unfolding range frames_in_insert by auto
    have "view s' = erase (view s) v {?p..<?b + n}" using s'(3) vw2 unfolding range by simp
    moreover have "unmap_loop s v virtual skip [k..<n] = Some (Inr (s', ESUCCESS))"
      unfolding upt using Some split s1(1) s2(1) s'(1) by simp
    ultimately show ?thesis using s' fr s2 rest1 by auto
  qed
qed

subsection \<open>Inserting a mapping\<close>

definition paint_entry :: "(nat \<Rightarrow> nat \<Rightarrow> vm_entry option) \<Rightarrow> nat \<Rightarrow> vm_entry \<Rightarrow> nat \<Rightarrow> nat \<Rightarrow> vm_entry option" where
  "paint_entry views v en w p = (if covers en p \<and> table_of w p = table_of v p then Some (page_entry en p) else views w p)"

text \<open>Where an entry may lie: local ones below the kernel area, global ones in it.\<close>

definition in_area :: "vm_entry \<Rightarrow> bool" where
  "in_area en \<longleftrightarrow> (\<forall>p. covers en p \<longrightarrow> (ve_global en \<longleftrightarrow> KERNEL_PAGE \<le> p))"

lemma insert_new_ok:
  assumes wf: "vm_wf s" and en: "shape_ok en" "splittable en" "in_area en"
    and free: "\<And>p. covers en p \<Longrightarrow> view s v p = None"
  obtains s' where "InsertIntoAvl (fst (new_entry s en)) v (vm_next s) = Inr s'" "vm_wf s'" "same_rest s s'"
    "view s' = paint_entry (view s) v en" "vm_store s' (vm_next s) = en" "GetVirtEntry s' v (en_virtual en) = Some (vm_next s)"
proof -
  let ?e = "vm_next s" and ?s = "fst (new_entry s en)"
  have inv: "vm_inv s" by (rule vm_wfD(1) [OF wf])
  have fresh: "?e \<notin> local_entries s w" "?e \<notin> global_entries s" for w using vm_invD(3,4) [OF inv] by blast+
  have s: "?s = s\<lparr>vm_store := (vm_store s)(?e := en), vm_next := ?e + 1\<rparr>" by (simp add: new_entry_def)
  have inv': "vm_inv ?s" unfolding s by (rule vm_inv_store [OF inv]) (auto simp: shrinks_refl)
  have st: "vm_store ?s ?e = en" "?e < vm_next ?s" unfolding s by simp_all
  have home: "home ?s v ?e = (if ve_global en then vm_global s else vm_mappings s v)" unfolding s by (simp add: home_def)
  have notin: "?e \<notin> tree_set (home ?s v ?e)" unfolding home using fresh by simp
  have apart: "apart_entries (vm_store ?s ?e) (vm_store ?s x)" if x: "x \<in> tree_set (home ?s v ?e)" for x
    unfolding apart_entries_def
  proof (intro allI notI)
    fix p assume c: "covers (vm_store ?s ?e) p \<and> covers (vm_store ?s x) p"
    have x': "x \<in> local_entries s v \<or> x \<in> global_entries s" using x unfolding home by (simp split: if_splits)
    then have "x \<noteq> ?e" using fresh by blast
    then have "covers (vm_store s x) p" using c unfolding s by simp
    then have "GetVirtEntry s v (p * PAGE) = Some x" unfolding wf_get [OF wf] using x' by simp
    then have "view s v p \<noteq> None" by (simp add: view_def)
    then show False using free [of p] c st(1) by simp
  qed
  obtain s' where s': "InsertIntoAvl ?s v ?e = Inr s'" "vm_inv s'" "vm_store s' = vm_store ?s" "vm_next s' = vm_next ?s" "same_rest ?s s'"
    "\<And>w. local_entries s' w = (if \<not> ve_global (vm_store ?s ?e) \<and> w = v then insert ?e (local_entries ?s w) else local_entries ?s w)"
    "global_entries s' = (if ve_global (vm_store ?s ?e) then insert ?e (global_entries ?s) else global_entries ?s)"
    by (rule InsertIntoAvl_ok [OF inv' _ st(2) notin apart]) (use st(1) en(1) in simp, assumption, rule that)
  have trees: "local_entries ?s w = local_entries s w" "global_entries ?s = global_entries s" for w unfolding s by simp_all
  have loc: "local_entries s' w = (if \<not> ve_global en \<and> w = v then insert ?e (local_entries s w) else local_entries s w)" for w
    using s'(6) [of w] unfolding st(1) trees .
  have glob: "global_entries s' = (if ve_global en then insert ?e (global_entries s) else global_entries s)"
    using s'(7) unfolding st(1) trees .
  have store: "vm_store s' x = (if x = ?e then en else vm_store s x)" for x unfolding s'(3) s by simp
  have mem: "x \<in> local_entries s' w \<Longrightarrow> x = ?e \<and> \<not> ve_global en \<and> w = v \<or> x \<noteq> ?e \<and> x \<in> local_entries s w"
    "x \<in> global_entries s' \<Longrightarrow> x = ?e \<and> ve_global en \<or> x \<noteq> ?e \<and> x \<in> global_entries s" for x w
    using fresh unfolding loc glob by (auto split: if_splits)
  have wf': "vm_wf s'"
    unfolding vm_wf_def
  proof (intro conjI allI ballI impI)
    show "vm_inv s'" by (rule s'(2))
    show "splittable (vm_store s' x)" if "x \<in> local_entries s' w" for x w
      using mem(1) [OF that] en(2) vm_wfD(2) [OF wf, of x w] unfolding store by auto
    show "splittable (vm_store s' x)" if "x \<in> global_entries s'" for x
      using mem(2) [OF that] en(2) vm_wfD(2) [OF wf, of x] unfolding store by auto
    show "local_entries s' u \<inter> local_entries s' w = {}" if "u \<noteq> w" for u w
    proof (rule ccontr)
      assume "local_entries s' u \<inter> local_entries s' w \<noteq> {}"
      then obtain x where "x \<in> local_entries s' u" "x \<in> local_entries s' w" by blast
      then show False using mem(1) [of x u] mem(1) [of x w] vm_wfD(3) [OF wf that, of x] that by blast
    qed
    show "p < KERNEL_PAGE" if "p \<in> Domain (local_map s' w)" for p w
    proof -
      obtain x where x: "x \<in> local_entries s' w" "covers (vm_store s' x) p" using \<open>p \<in> Domain (local_map s' w)\<close> unfolding Domain_page_map by blast
      then show ?thesis using mem(1) [OF x(1)] en(3) vm_wfD(4) [OF wf, of x w p] x(2) unfolding store by (auto simp: in_area_def not_le)
    qed
    show "KERNEL_PAGE \<le> p" if "p \<in> Domain (global_map s')" for p
    proof -
      obtain x where x: "x \<in> global_entries s'" "covers (vm_store s' x) p" using \<open>p \<in> Domain (global_map s')\<close> unfolding Domain_page_map by blast
      then show ?thesis using mem(2) [OF x(1)] en(3) vm_wfD(5) [OF wf, of x p] x(2) unfolding store by (auto simp: in_area_def)
    qed
  qed
  have hit: "ve_global en \<or> w = v \<longleftrightarrow> table_of w p = table_of v p" if "covers en p" for w p
    using that en(3) by (auto simp: in_area_def table_of_def)
  have get: "GetVirtEntry s' w (p * PAGE) = (if covers en p \<and> table_of w p = table_of v p then Some ?e else GetVirtEntry s w (p * PAGE))" for w p
  proof (cases "covers en p \<and> table_of w p = table_of v p")
    case True
    then have "?e \<in> local_entries s' w \<or> ?e \<in> global_entries s'" using hit [of p w] unfolding loc glob by auto
    then have "GetVirtEntry s' w (p * PAGE) = Some ?e" unfolding wf_get [OF wf'] using True by (simp add: store)
    then show ?thesis using True by simp
  next
    case False
    have "GetVirtEntry s' w (p * PAGE) = Some x \<longleftrightarrow> GetVirtEntry s w (p * PAGE) = Some x" for x
    proof (cases "x = ?e")
      case True
      have "?e \<in> local_entries s' w \<or> ?e \<in> global_entries s' \<Longrightarrow> ve_global en \<or> w = v" using mem [of ?e] by blast
      then show ?thesis unfolding wf_get [OF wf'] wf_get [OF wf] True using False fresh hit [of p w] by (simp add: store) blast
    next
      case other: False
      have "x \<in> local_entries s' w \<longleftrightarrow> x \<in> local_entries s w" "x \<in> global_entries s' \<longleftrightarrow> x \<in> global_entries s"
        using other unfolding loc glob by simp_all
      then show ?thesis unfolding wf_get [OF wf'] wf_get [OF wf] using other by (simp add: store)
    qed
    then have "GetVirtEntry s' w (p * PAGE) = GetVirtEntry s w (p * PAGE)" by (metis not_None_eq)
    then show ?thesis unfolding if_not_P [OF False] .
  qed
  have "view s' = paint_entry (view s) v en"
  proof (intro ext)
    fix w p
    have "x \<noteq> ?e" if "GetVirtEntry s w (p * PAGE) = Some x" for x using wf_entry(3) [OF wf that] by simp
    then show "view s' w p = paint_entry (view s) v en w p"
      unfolding view_def get paint_entry_def by (cases "GetVirtEntry s w (p * PAGE)") (auto simp: store)
  qed
  moreover have "GetVirtEntry s' v (en_virtual en) = Some ?e"
  proof -
    have "covers en (first_page en)" using en(1) by (simp add: covers_def shape_ok_def)
    then show ?thesis using get [of v "first_page en"] virtual_first_page [OF en(1)] by simp
  qed
  moreover have "same_rest s s'" using s'(5) unfolding s by (simp add: same_rest_def)
  ultimately show thesis using that [OF s'(1) wf'] by (simp add: store)
qed

subsection \<open>Mapping a range\<close>

definition locked_ram :: "u32 \<Rightarrow> bool" where
  "locked_ram flags \<longleftrightarrow> flag flags VM_LOCK \<and> \<not> flag flags VM_MAP_HARDWARE"

text \<open>The page that a request asks for; a locked page of RAM ends up writable whatever the request
  says.\<close>

definition as_requested :: "u32 \<Rightarrow> nat option \<Rightarrow> nat \<Rightarrow> nat \<Rightarrow> vm_entry \<Rightarrow> bool" where
  "as_requested flags file offset physical en \<longleftrightarrow>
     ve_read en = flag flags VM_READ \<and> ve_write en = (flag flags VM_WRITE \<or> locked_ram flags) \<and> ve_exec en = flag flags VM_EXEC \<and>
     ve_user en = flag flags VM_USER \<and> ve_lock en = flag flags VM_LOCK \<and> ve_file en = flag flags VM_FILE \<and>
     ve_global en = (\<not> flag flags VM_LOCAL) \<and> ve_relocatable en = flag flags VM_RELOCATABLE \<and>
     en_in_ram en = flag flags VM_LOCK \<and> en_allocated en = locked_ram flags \<and> \<not> en_cow en \<and> \<not> en_swapfile en \<and>
     \<not> en_load_in_progress en \<and> en_ref_count en = 1 \<and> en_file_node en = file \<and>
     (flag flags VM_FILE \<longrightarrow> en_file_offset en = offset) \<and> (flag flags VM_MAP_HARDWARE \<longrightarrow> en_physical en = physical)"

definition frame_address_set :: "nat set \<Rightarrow> nat set" where
  "frame_address_set A = (\<lambda>i. i * PAGE) ` A"

text \<open>The pages \<open>A\<close> of an address space, the first of which is \<open>b\<close> if it is the whole range, have
  been mapped as requested; pages of RAM are blank; nothing else has changed.\<close>

definition extended :: "u32 \<Rightarrow> nat option \<Rightarrow> nat \<Rightarrow> nat \<Rightarrow> nat \<Rightarrow> nat \<Rightarrow> vm \<Rightarrow> nat set \<Rightarrow> vm \<Rightarrow> bool" where
  "extended flags file pos physical v b s A s' \<longleftrightarrow>
     vm_good s' \<and> vm_current s' = vm_current s \<and> vm_files s' = vm_files s \<and>
     (\<forall>p\<in>A. \<exists>en. view s' v p = Some en \<and> as_requested flags file (pos + (p - b) * PAGE) (physical + (p - b) * PAGE) en \<and>
        (locked_ram flags \<longrightarrow> vm_frame s' (en_physical en) = zero_page \<and> en_physical en \<in> frame_address_set (free_pages (vm_phys s)))) \<and>
     (\<forall>w p. \<not> (p \<in> A \<and> table_of w p = table_of v p) \<longrightarrow> view s' w p = view s w p) \<and>
     free_pages (vm_phys s') \<subseteq> free_pages (vm_phys s) \<and>
     card (free_pages (vm_phys s)) = card (free_pages (vm_phys s')) + (if locked_ram flags then card A else 0) \<and>
     (\<forall>a. a \<notin> frame_address_set (free_pages (vm_phys s)) \<longrightarrow> vm_frame s' a = vm_frame s a)"

lemma extended_refl: "vm_good s \<Longrightarrow> extended flags file pos physical v b s {} s"
  by (simp add: extended_def)

lemma extendedD:
  assumes "extended flags file pos physical v b s A s'"
  shows "vm_good s'" "vm_current s' = vm_current s" "vm_files s' = vm_files s"
    "p \<in> A \<Longrightarrow> \<exists>en. view s' v p = Some en \<and> as_requested flags file (pos + (p - b) * PAGE) (physical + (p - b) * PAGE) en \<and>
        (locked_ram flags \<longrightarrow> vm_frame s' (en_physical en) = zero_page \<and> en_physical en \<in> frame_address_set (free_pages (vm_phys s)))"
    "\<not> (p \<in> A \<and> table_of w p = table_of v p) \<Longrightarrow> view s' w p = view s w p"
    "free_pages (vm_phys s') \<subseteq> free_pages (vm_phys s)"
    "card (free_pages (vm_phys s)) = card (free_pages (vm_phys s')) + (if locked_ram flags then card A else 0)"
    "a \<notin> frame_address_set (free_pages (vm_phys s)) \<Longrightarrow> vm_frame s' a = vm_frame s a"
  using assms unfolding extended_def by blast+

lemma extended_trans:
  assumes s1: "extended flags file pos physical v b s A s1" and s2: "extended flags file pos physical v b s1 B s2"
    and AB: "A \<inter> B = {}" "finite A" "finite B"
  shows "extended flags file pos physical v b s (A \<union> B) s2"
proof -
  note d1 = extendedD [OF s1] and d2 = extendedD [OF s2]
  have "\<exists>en. view s2 v p = Some en \<and> as_requested flags file (pos + (p - b) * PAGE) (physical + (p - b) * PAGE) en \<and>
      (locked_ram flags \<longrightarrow> vm_frame s2 (en_physical en) = zero_page \<and> en_physical en \<in> frame_address_set (free_pages (vm_phys s)))"
    if "p \<in> A \<union> B" for p
  proof (cases "p \<in> B")
    case False
    then have "p \<in> A" using that by simp
    then obtain en where en: "view s1 v p = Some en" "as_requested flags file (pos + (p - b) * PAGE) (physical + (p - b) * PAGE) en"
      "locked_ram flags \<longrightarrow> vm_frame s1 (en_physical en) = zero_page \<and> en_physical en \<in> frame_address_set (free_pages (vm_phys s))"
      using d1(4) by blast
    have "vm_frame s2 (en_physical en) = zero_page" if lk: "locked_ram flags"
    proof -
      have al: "en_allocated en" using en(2) lk by (simp add: as_requested_def)
      have "frames_ok (view s1) (vm_phys s1)" using d1(1) by (simp add: vm_good_def)
      then have "owns_frame (vm_phys s1) en" using frames_okD(2) en(1) al by blast
      then have "en_physical en \<notin> frame_address_set (free_pages (vm_phys s1))" by (auto simp: owns_frame_def frame_address_set_def)
      then show ?thesis using d2(8) en(3) lk by simp
    qed
    moreover have "view s2 v p = Some en" using d2(5) [of p v] False en(1) by simp
    ultimately show ?thesis using en(2,3) by blast
  next
    case True
    have "frame_address_set (free_pages (vm_phys s1)) \<subseteq> frame_address_set (free_pages (vm_phys s))"
      using d1(6) by (auto simp: frame_address_set_def)
    then show ?thesis using d2(4) [OF True] by blast
  qed
  moreover have "view s2 w p = view s w p" if "\<not> (p \<in> A \<union> B \<and> table_of w p = table_of v p)" for w p
    using that d1(5) [of p w] d2(5) [of p w] by auto
  moreover have "card (free_pages (vm_phys s)) = card (free_pages (vm_phys s2)) + (if locked_ram flags then card (A \<union> B) else 0)"
    using d1(7) d2(7) card_Un_disjoint [OF AB(2,3,1)] by simp
  moreover have "vm_frame s2 a = vm_frame s a" if "a \<notin> frame_address_set (free_pages (vm_phys s))" for a
  proof -
    have "a \<notin> frame_address_set (free_pages (vm_phys s1))" using that d1(6) by (auto simp: frame_address_set_def)
    then show ?thesis using d1(8) [OF that] d2(8) by simp
  qed
  ultimately show ?thesis using d1(2,3,6) d2(1,2,3,6) unfolding extended_def by auto
qed

lemma mapping_entry_fields [simp]:
  "en_virtual (mapping_entry flags ph al rel virtual file pos n) = virtual" "en_num_pages (mapping_entry flags ph al rel virtual file pos n) = n"
  "ve_global (mapping_entry flags ph al rel virtual file pos n) = (\<not> flag flags VM_LOCAL)"
  "en_allocated (mapping_entry flags ph al rel virtual file pos n) = al" "\<not> en_swapfile (mapping_entry flags ph al rel virtual file pos n)"
  "ve_lock (mapping_entry flags ph al rel virtual file pos n) = flag flags VM_LOCK"
  "ve_file (mapping_entry flags ph al rel virtual file pos n) = flag flags VM_FILE"
  by (simp_all add: mapping_entry_def)

lemma mapping_entry_covers:
  "virtual = q * PAGE \<Longrightarrow> covers (mapping_entry flags ph al rel virtual file pos n) p \<longleftrightarrow> q \<le> p \<and> p < q + n"
  by (simp add: covers_def first_page_def)

text \<open>A mapping without a frame of its own: the pages come later, or belong to a device.\<close>

lemma frames_paint_entry:
  assumes fr: "frames_ok views ph" and en: "\<not> en_allocated en"
  shows "frames_ok (paint_entry views v en) ph"
proof -
  have old: "views w p = Some x" if "paint_entry views v en w p = Some x" "en_allocated x" for w p x
    using that en by (auto simp: paint_entry_def page_entry_def split: if_splits)
  show ?thesis
    unfolding frames_ok_def
  proof (intro conjI allI impI)
    show "phys_ok ph" by (rule frames_okD(1) [OF fr])
    show "owns_frame ph x" if "paint_entry views v en w p = Some x" "en_allocated x" for w p x
      using frames_okD(2) [OF fr old [OF that] that(2)] .
    fix w p x w' p' x'
    assume a: "paint_entry views v en w p = Some x" "paint_entry views v en w' p' = Some x'" "en_allocated x" "en_allocated x'"
      "en_physical x = en_physical x'"
    show "p = p'" "table_of w p = table_of w' p'"
      using frames_okD(3) [OF fr old [OF a(1,3)] old [OF a(2,4)] a(3-5)] by blast+
  qed
qed

lemma AddMapping_plain:
  assumes good: "vm_good s" and v: "vm_current s = v" and virt: "virtual = q * PAGE" "0 < n"
    and flags: "file \<noteq> None \<longrightarrow> flag flags VM_FILE" "\<not> locked_ram flags"
      "flag flags VM_MAP_HARDWARE \<Longrightarrow> flag flags VM_LOCK \<and> \<not> flag flags VM_RELOCATABLE \<and> physical \<noteq> 0"
    and free: "\<And>p. q \<le> p \<Longrightarrow> p < q + n \<Longrightarrow> view s v p = None \<and> (flag flags VM_LOCAL \<longleftrightarrow> p < KERNEL_PAGE)"
    and pos: "flag flags VM_FILE \<Longrightarrow> pos = pos0 + (q - b) * PAGE" "flag flags VM_MAP_HARDWARE \<Longrightarrow> physical = physical0 + (q - b) * PAGE" "b \<le> q"
  obtains s' where "AddMapping s v physical virtual flags file pos n = Some (Inr s')"
    "extended flags file pos0 physical0 v b s {q..<q + n} s'"
proof -
  let ?rel = "if flag flags VM_RELOCATABLE then physical else 0" and ?ph = "if flag flags VM_RELOCATABLE then 0 else physical"
  define en where "en = mapping_entry flags ?ph False ?rel virtual file pos n"
  have tab: "tables_ok s" and fr: "frames_ok (view s) (vm_phys s)" and wf: "vm_wf s" using good by (simp_all add: vm_good_def)
  have cov: "covers en p \<longleftrightarrow> q \<le> p \<and> p < q + n" for p unfolding en_def by (rule mapping_entry_covers [OF virt(1)])
  have shape: "shape_ok en" using virt by (simp add: shape_ok_def en_def)
  have spl: "splittable en" by (simp add: splittable_def en_def)
  have area: "in_area en" unfolding in_area_def cov
  proof (intro allI impI)
    fix p assume "q \<le> p \<and> p < q + n"
    then show "ve_global en \<longleftrightarrow> KERNEL_PAGE \<le> p" using free [of p] by (auto simp: en_def)
  qed
  have none: "covers en p \<Longrightarrow> view s v p = None" for p using free [of p] by (simp add: cov)
  obtain s1 where s1: "InsertIntoAvl (fst (new_entry s en)) v (vm_next s) = Inr s1" "vm_wf s1" "same_rest s s1"
    "view s1 = paint_entry (view s) v en" "vm_store s1 (vm_next s) = en" "GetVirtEntry s1 v (en_virtual en) = Some (vm_next s)"
    by (rule insert_new_ok [OF wf shape spl area none])
  define s2 where "s2 = ArchUpdateMapping s1 (vm_next s)"
  have rest: "vm_current s1 = vm_current s" "vm_pte s1 = vm_pte s" "vm_phys s1 = vm_phys s" "vm_frame s1 = vm_frame s" "vm_files s1 = vm_files s"
    using s1(3) by (simp_all add: same_rest_def)
  have vw2: "view s2 = paint_entry (view s) v en"
    unfolding s2_def using same_trees_view [OF ArchUpdateMapping_trees] s1(4) by simp
  have "tables_ok s2" unfolding s2_def
    by (rule ArchUpdateMapping_tables [OF tab, where v = v]) (use shape rest v s1(4,5) in \<open>simp_all add: paint_entry_def\<close>)
  moreover have "frames_ok (view s2) (vm_phys s2)"
    unfolding vw2 using frames_paint_entry [OF fr, of en v] rest by (simp add: en_def s2_def)
  moreover have "vm_wf s2" unfolding s2_def using s1(2) by (simp add: sole_trees(1) [OF ArchUpdateMapping_trees])
  ultimately have good2: "vm_good s2" by (simp add: vm_good_def)
  have same: "vm_current s2 = vm_current s" "vm_files s2 = vm_files s" "vm_phys s2 = vm_phys s" "vm_frame s2 = vm_frame s"
    using rest by (simp_all add: s2_def)
  have pg: "\<exists>x. view s2 v p = Some x \<and> as_requested flags file (pos0 + (p - b) * PAGE) (physical0 + (p - b) * PAGE) x \<and>
        (locked_ram flags \<longrightarrow> vm_frame s2 (en_physical x) = zero_page \<and> en_physical x \<in> frame_address_set (free_pages (vm_phys s)))"
    if "p \<in> {q..<q + n}" for p
  proof (intro exI conjI)
    have p: "(q - b) * PAGE + (p - q) * PAGE = (p - b) * PAGE" using that pos(3) by (simp flip: add_mult_distrib)
    show "view s2 v p = Some (page_entry en p)" unfolding vw2 paint_entry_def cov using that by simp
    show "as_requested flags file (pos0 + (p - b) * PAGE) (physical0 + (p - b) * PAGE) (page_entry en p)"
      using flags pos(1,2) p virt(1)
      by (auto simp: as_requested_def page_entry_def en_def mapping_entry_def first_page_def locked_ram_def)
  qed (use flags(2) in simp)
  have "extended flags file pos0 physical0 v b s {q..<q + n} s2"
    unfolding extended_def using good2 same flags(2) pg by (auto simp: vw2 paint_entry_def cov)
  moreover have "AddMapping s v physical virtual flags file pos n = Some (Inr s2)"
  proof -
    have 1: "\<not> (file \<noteq> None \<and> \<not> flag flags VM_FILE)" using flags(1) by blast
    have 2: "\<not> (flag flags VM_LOCK \<and> ?ph = 0)" using flags(2,3) by (auto simp: locked_ram_def)
    have 3: "\<not> (ve_lock en \<and> \<not> flag flags VM_MAP_HARDWARE \<and> vm_current s2 = v)" using flags(2) by (simp add: locked_ram_def en_def)
    have ne: "new_entry s en = (fst (new_entry s en), vm_next s)" by (simp add: new_entry_def)
    show ?thesis
      unfolding AddMapping_def Let_def if_not_P [OF 1] if_not_P [OF 2] obind_simps prod.case en_def [symmetric]
      by (subst ne) (simp only: prod.case s1(1) kbind_simps s2_def [symmetric] if_not_P [OF 3])
  qed
  ultimately show thesis by (rule that [rotated])
qed

text \<open>A locked page of RAM: a frame is allocated, the page made writable and cleared.\<close>

lemma make_writable: "apply_permissions VM_WRITE 0 en = en\<lparr>ve_write := True\<rparr>"
  by (simp add: apply_permissions_def flag_def)

lemma write_legal: "(VM_WRITE OR 0) AND NOT (VM_READ OR VM_WRITE OR VM_EXEC OR VM_USER) = 0"
  by code_simp

lemma zero_single:
  assumes "en_num_pages en = 1"
  shows "zero_frames s en = s\<lparr>vm_frame := (vm_frame s)(en_physical en := zero_page)\<rparr>"
  using assms by (auto simp: zero_frames_def fun_eq_iff)

lemma AddMapping_ram:
  assumes good: "vm_good s" and v: "vm_current s = v" and virt: "virtual = q * PAGE"
    and flags: "file = None" "\<not> flag flags VM_FILE" "locked_ram flags" "\<not> flag flags VM_RELOCATABLE"
    and free: "view s v q = None" "flag flags VM_LOCAL \<longleftrightarrow> q < KERNEL_PAGE" "free_pages (vm_phys s) \<noteq> {}"
  obtains s' where "AddMapping s v 0 virtual flags file pos 1 = Some (Inr s')" "extended flags file pos0 physical0 v b s {q} s'"
proof -
  have tab: "tables_ok s" and fr: "frames_ok (view s) (vm_phys s)" and wf: "vm_wf s" using good by (simp_all add: vm_good_def)
  obtain ph i where ph: "AllocPhys (vm_phys s) = Some (Inr (ph, of_nat i * ARCH_PAGE_SIZE))" "i \<in> free_pages (vm_phys s)"
    "free_pages ph = free_pages (vm_phys s) - {i}" "phys_ok ph" "MAX_MEMORY_PAGES ph = MAX_MEMORY_PAGES (vm_phys s)"
    "ph_highest_page_index ph = ph_highest_page_index (vm_phys s)"
    by (rule AllocPhys_ok [OF frames_okD(1) [OF fr] free(3)])
  have addr: "unat (of_nat i * ARCH_PAGE_SIZE) = i * PAGE" by (rule frame_address [OF frames_okD(1) [OF fr] ph(2)])
  have mp: "managed_pages ph = managed_pages (vm_phys s)" using ph(5,6) by (simp add: managed_pages_def)
  define s0 where "s0 = s\<lparr>vm_phys := ph\<rparr>"
  define en where "en = mapping_entry flags (i * PAGE) True 0 virtual file pos 1"
  have tr0: "same_trees s s0" by (simp add: same_trees_def s0_def)
  have wf0: "vm_wf s0" and vw0: "view s0 = view s" using wf sole_trees(1) [OF tr0] same_trees_view [OF tr0] by simp_all
  have cov: "covers en p \<longleftrightarrow> p = q" for p unfolding en_def using mapping_entry_covers [OF virt] by auto
  have shape: "shape_ok en" using virt by (simp add: shape_ok_def en_def)
  have spl: "splittable en" by (simp add: splittable_def en_def)
  have area: "in_area en" unfolding in_area_def cov using free(2) by (auto simp: en_def)
  obtain s1 where s1: "InsertIntoAvl (fst (new_entry s0 en)) v (vm_next s0) = Inr s1" "vm_wf s1" "same_rest s0 s1"
    "view s1 = paint_entry (view s0) v en" "vm_store s1 (vm_next s0) = en" "GetVirtEntry s1 v (en_virtual en) = Some (vm_next s0)"
    by (rule insert_new_ok [OF wf0 shape spl area]) (use free(1) vw0 cov in simp, assumption)
  let ?e = "vm_next s0"
  have page: "page_entry en q = en" by (rule page_entry_single [OF shape]) (simp_all add: cov, simp add: en_def)
  have paint: "paint_entry views v en = paint views v q (Some en)" for views
    by (auto simp: paint_entry_def paint_def cov page fun_eq_iff)
  have so1: "sole s1 v q ?e" using s1(2,5,6) by (simp add: sole_def en_def virt)
  have rest: "vm_current s1 = v" "vm_pte s1 = vm_pte s" "vm_phys s1 = ph" "vm_frame s1 = vm_frame s" "vm_files s1 = vm_files s"
    using s1(3) v by (simp_all add: same_rest_def s0_def)
  have vw1: "view s1 = paint (view s) v q (Some en)" using s1(4) by (simp add: vw0 paint)
  have but: "tables_but s1 v q" by (rule tables_but_paint [OF tables_but_ok [OF tab] vw1 rest(2)])
  note sync = sole_sync [OF so1 but, unfolded rest(1), OF refl]
  define s2 where "s2 = ArchUpdateMapping s1 ?e"
  have rest2: "vm_current s2 = v" "vm_phys s2 = ph" "vm_frame s2 = vm_frame s" "vm_files s2 = vm_files s"
    using rest by (simp_all add: s2_def)
  have vw2: "view s2 = paint (view s) v q (Some en)" using sync(3) vw1 by (simp add: s2_def)
  have in_ram: "en_in_ram en" "en_physical en = i * PAGE" using flags(3) by (simp_all add: en_def mapping_entry_def locked_ram_def)
  have "frames_ok (view s2) ph" unfolding vw2 by (rule frames_alloc [OF fr ph(4,3,2) mp in_ram])
  then have good2: "vm_good s2" using sync(1,2) soleD(1) rest2 unfolding vm_good_def s2_def by blast
  have so2: "sole s2 v q ?e" using sync(2) by (simp add: s2_def)
  have at: "view s2 v (virtual div PAGE) = Some en" "GetVirtEntry s2 v virtual = Some ?e" "virtual div PAGE = q"
    using vw2 virt soleD(2) [OF so2] by simp_all
  obtain s3 where s3: "SetVirtPermissionsEx s2 v virtual VM_WRITE 0 = Inr (s3, ESUCCESS)" "vm_good s3"
    "view s3 = paint (view s2) v (virtual div PAGE) (Some (apply_permissions VM_WRITE 0 en))"
    "vm_phys s3 = vm_phys s2" "vm_frame s3 = vm_frame s2" "vm_current s3 = vm_current s2" "vm_files s3 = vm_files s2"
    "sole s3 v (virtual div PAGE) ?e"
    by (rule SetVirtPermissionsEx_ok [OF good2 at(2,1) write_legal]) (use flags(2) rest2 in \<open>simp_all add: en_def\<close>)
  let ?en = "en\<lparr>ve_write := True\<rparr>"
  have vw3: "view s3 = paint (view s) v q (Some ?en)" using s3(3) vw2 at(3) by (simp add: make_writable)
  have st3: "vm_store s3 ?e = ?en" using soleD(10) [OF s3(8)] vw3 at(3) by simp
  have ph3: "en_physical ?en = i * PAGE" "en_num_pages ?en = 1" using in_ram by (simp_all add: en_def)
  define s4 where "s4 = s3\<lparr>vm_frame := (vm_frame s)(i * PAGE := zero_page)\<rparr>"
  have z: "zero_frames s3 ?en = s4" using zero_single [OF ph3(2)] ph3(1) s3(5) rest2(3) by (simp add: s4_def)
  have vw4: "view s4 = paint (view s) v q (Some ?en)"
    using same_trees_view [of s3 s4] vw3 by (simp add: same_trees_def s4_def)
  have wf4: "vm_wf s4" using sole_trees(1) [of s3 s4] s3(2) by (simp add: same_trees_def s4_def vm_good_def)
  have "tables_ok s4" using s3(2) by (simp add: vm_good_def tables_ok_def vw4 vw3) (simp add: s4_def)
  moreover have "frames_ok (view s4) (vm_phys s4)" using s3(2) by (simp add: vm_good_def vw4 vw3) (simp add: s4_def)
  ultimately have good4: "vm_good s4" using wf4 by (simp add: vm_good_def)
  have rest4: "vm_current s4 = vm_current s" "vm_files s4 = vm_files s" "vm_phys s4 = ph" "vm_frame s4 = (vm_frame s)(i * PAGE := zero_page)"
    using s3(4-7) rest2 v by (simp_all add: s4_def)
  have req: "as_requested flags file offset physical ?en" for offset physical
    using flags by (simp add: as_requested_def en_def mapping_entry_def locked_ram_def)
  have "card (free_pages (vm_phys s)) = card (free_pages ph) + 1"
    unfolding ph(3) using card_Suc_Diff1 [OF finite_free_pages ph(2)] by simp
  then have "extended flags file pos0 physical0 v b s {q} s4"
    unfolding extended_def using good4 rest4 req flags(3) ph(2,3) ph3(1) by (auto simp: vw4 paint_def frame_address_set_def)
  moreover have "AddMapping s v 0 virtual flags file pos 1 = Some (Inr s4)"
  proof -
    have 1: "\<not> (file \<noteq> None \<and> \<not> flag flags VM_FILE)" and 2: "flag flags VM_LOCK \<and> (0::nat) = 0"
      using flags by (simp_all add: locked_ram_def)
    have 3: "ve_lock en \<and> \<not> flag flags VM_MAP_HARDWARE \<and> vm_current s2 = v" using flags(3) rest2 by (simp add: locked_ram_def en_def)
    have 4: "\<not> \<not> ve_write (vm_store s4 ?e)" by (simp add: s4_def st3)
    have ne: "new_entry s0 en = (fst (new_entry s0 en), ?e)" by (simp add: new_entry_def)
    show ?thesis
      unfolding AddMapping_def Let_def if_not_P [OF 1] if_not_P [OF flags(4)] if_P [OF 2] ph(1) obind_simps prod.case addr
        s0_def [symmetric] en_def [symmetric]
      by (subst ne) (simp only: prod.case s1(1) kbind_simps s2_def [symmetric] if_P [OF 3] s3(1) st3 z if_not_P [OF 4])
  qed
  ultimately show thesis by (rule that [rotated])
qed

text \<open>The loop over the pages, and what may differ before it without an effect on memory.\<close>

definition same_memory :: "vm \<Rightarrow> vm \<Rightarrow> bool" where
  "same_memory s s' \<longleftrightarrow> same_trees s s' \<and> vm_current s' = vm_current s \<and> vm_files s' = vm_files s \<and> vm_phys s' = vm_phys s \<and>
     vm_frame s' = vm_frame s \<and> vm_pte s' = vm_pte s"

lemma same_memory_good: "same_memory s s' \<Longrightarrow> vm_good s' = vm_good s"
  by (auto simp: same_memory_def vm_good_def tables_ok_def sole_trees(1) same_trees_view)

lemma same_memory_view: "same_memory s s' \<Longrightarrow> view s' = view s"
  by (simp add: same_memory_def same_trees_view)

lemma extended_start:
  "same_memory s s' \<Longrightarrow> extended flags file pos physical v b s' A s'' = extended flags file pos physical v b s A s''"
  by (simp add: extended_def same_memory_view) (simp add: same_memory_def)

definition bump_refs :: "u32 \<Rightarrow> nat option \<Rightarrow> vm \<Rightarrow> vm" where
  "bump_refs flags file s = (if flag flags VM_FILE
     then s\<lparr>vm_file_refs := (vm_file_refs s)(the file := vm_file_refs s (the file) + 1)\<rparr> else s)"

lemma bump_refs_same: "same_memory s (bump_refs flags file s)"
  by (simp add: same_memory_def same_trees_def bump_refs_def)

lemma flag_or: "flag f (a OR b) \<longleftrightarrow> flag f a \<or> flag f b"
  by (auto simp: flag_def bit_eq_iff bit_and_iff bit_or_iff)

lemma map_flags_ok:
  assumes "map_flags_error s physical flags file pos = ESUCCESS"
  shows "flag flags VM_MAP_HARDWARE \<Longrightarrow> flag flags VM_LOCK \<and> \<not> flag flags VM_FILE" "flag flags VM_FILE \<Longrightarrow> \<not> flag flags VM_LOCK"
    "\<not> flag flags VM_FILE \<Longrightarrow> file = None \<and> pos = 0" "flag flags VM_RELOCATABLE \<Longrightarrow> flag flags VM_FILE"
    "physical \<noteq> 0 \<Longrightarrow> flag flags VM_MAP_HARDWARE \<or> flag flags VM_RELOCATABLE"
proof -
  have "\<not> (physical \<noteq> 0 \<and> \<not> flag flags (VM_MAP_HARDWARE OR VM_RELOCATABLE))" "\<not> (flag flags VM_MAP_HARDWARE \<and> \<not> flag flags VM_LOCK)"
    "\<not> (flag flags VM_FILE \<and> flag flags VM_MAP_HARDWARE)" "\<not> (flag flags VM_FILE \<and> flag flags VM_LOCK)"
    "\<not> (\<not> flag flags VM_FILE \<and> (file \<noteq> None \<or> pos \<noteq> 0))" "\<not> (flag flags VM_RELOCATABLE \<and> \<not> flag flags VM_FILE)"
    using assms by (auto simp: map_flags_error_def split: if_splits)
  then show "flag flags VM_MAP_HARDWARE \<Longrightarrow> flag flags VM_LOCK \<and> \<not> flag flags VM_FILE" "flag flags VM_FILE \<Longrightarrow> \<not> flag flags VM_LOCK"
    "\<not> flag flags VM_FILE \<Longrightarrow> file = None \<and> pos = 0" "flag flags VM_RELOCATABLE \<Longrightarrow> flag flags VM_FILE"
    "physical \<noteq> 0 \<Longrightarrow> flag flags VM_MAP_HARDWARE \<or> flag flags VM_RELOCATABLE"
    unfolding flag_or by blast+
qed

lemma map_step:
  assumes good: "vm_good s" and v: "vm_current s = v" and base: "virtual = b * PAGE"
    and fl: "map_flags_error s0 physical flags file pos = ESUCCESS" "flag flags VM_MAP_HARDWARE \<Longrightarrow> physical \<noteq> 0"
    and free: "\<And>p. b + i \<le> p \<Longrightarrow> p < b + i + n \<Longrightarrow> view s v p = None \<and> (flag flags VM_LOCAL \<longleftrightarrow> p < KERNEL_PAGE)"
    and ram: "locked_ram flags \<Longrightarrow> n = 1 \<and> free_pages (vm_phys s) \<noteq> {}" and n: "0 < n"
  obtains s' where "AddMapping s v (if flag flags VM_RELOCATABLE then physical else if physical = 0 then 0 else physical + i * PAGE)
      (virtual + i * PAGE) flags file (pos + i * PAGE) n = Some (Inr s')"
    "extended flags file pos physical v b s {b + i..<b + i + n} s'"
proof (cases "locked_ram flags")
  case True
  note ok = map_flags_ok [OF fl(1)]
  have f: "file = None" "\<not> flag flags VM_FILE" "\<not> flag flags VM_RELOCATABLE" "physical = 0"
    using True ok by (auto simp: locked_ram_def)
  have n1: "n = 1" and fp: "free_pages (vm_phys s) \<noteq> {}" using ram True by simp_all
  have virt: "virtual + i * PAGE = (b + i) * PAGE" using base by simp
  obtain s' where s': "AddMapping s v 0 (virtual + i * PAGE) flags file (pos + i * PAGE) 1 = Some (Inr s')"
    "extended flags file pos physical v b s {b + i} s'"
    by (rule AddMapping_ram [OF good v virt f(1,2) True f(3) _ _ fp]) (use free [of "b + i"] n1 in simp_all)
  moreover have "{b + i..<b + i + n} = {b + i}" using n1 by auto
  ultimately show thesis using that [of s'] f n1 by simp
next
  case False
  note ok = map_flags_ok [OF fl(1)]
  let ?ph = "if flag flags VM_RELOCATABLE then physical else if physical = 0 then 0 else physical + i * PAGE"
  have virt: "virtual + i * PAGE = (b + i) * PAGE" using base by simp
  have hw: "flag flags VM_LOCK \<and> \<not> flag flags VM_RELOCATABLE \<and> ?ph \<noteq> 0" if "flag flags VM_MAP_HARDWARE"
    using that ok fl(2) by auto
  have backed: "file \<noteq> None \<longrightarrow> flag flags VM_FILE" using ok(3) by blast
  show thesis
    by (rule AddMapping_plain [where b = b and q = "b + i" and pos = "pos + i * PAGE" and ?pos0.0 = pos and ?physical0.0 = physical,
        OF good v virt n backed False hw free]) (use hw fl(2) that in auto)
qed

lemma map_loop_ok:
  assumes "vm_good s" "vm_current s = v" "k \<le> n" "virtual = b * PAGE"
    and fl: "map_flags_error s0 physical flags file pos = ESUCCESS" "flag flags VM_MAP_HARDWARE \<Longrightarrow> physical \<noteq> 0"
    and "\<And>p. b + k \<le> p \<Longrightarrow> p < b + n \<Longrightarrow> view s v p = None \<and> (flag flags VM_LOCAL \<longleftrightarrow> p < KERNEL_PAGE)"
    and "locked_ram flags \<Longrightarrow> n - k \<le> card (free_pages (vm_phys s))"
  shows "\<exists>s'. map_loop s v physical virtual flags file pos 1 [k..<n] = Some (Inr s') \<and>
    extended flags file pos physical v b s {b + k..<b + n} s'"
  using assms(1-4,7,8)
proof (induction "n - k" arbitrary: s k)
  case 0
  then show ?case using extended_refl by simp
next
  case (Suc m)
  have k: "k < n" "m = n - Suc k" "Suc k \<le> n" using Suc.hyps(2) by simp_all
  let ?s = "bump_refs flags file s"
  note sm = bump_refs_same [of s flags "file"]
  have good: "vm_good ?s" "vm_current ?s = v" using Suc.prems(1,2) same_memory_good [OF sm] sm by (simp_all add: same_memory_def)
  have phys: "vm_phys ?s = vm_phys s" using sm by (simp add: same_memory_def)
  have ram: "1 = (1::nat) \<and> free_pages (vm_phys ?s) \<noteq> {}" if "locked_ram flags"
    using Suc.prems(6) [OF that] k(1) phys by auto
  have fr: "view ?s v p = None \<and> (flag flags VM_LOCAL \<longleftrightarrow> p < KERNEL_PAGE)" if "b + k \<le> p" "p < b + k + 1" for p
    using Suc.prems(5) [of p] that k(1) same_memory_view [OF sm] by simp
  obtain s1 where s1: "AddMapping ?s v (if flag flags VM_RELOCATABLE then physical else if physical = 0 then 0 else physical + k * PAGE)
      (virtual + k * PAGE) flags file (pos + k * PAGE) 1 = Some (Inr s1)"
    "extended flags file pos physical v b ?s {b + k..<b + k + 1} s1"
    by (rule map_step [OF good Suc.prems(4) fl fr ram zero_less_one])
  have ext: "extended flags file pos physical v b s {b + k} s1" using s1(2) extended_start [OF sm] by simp
  note d = extendedD [OF ext]
  have fr1: "view s1 v p = None \<and> (flag flags VM_LOCAL \<longleftrightarrow> p < KERNEL_PAGE)" if "b + Suc k \<le> p" "p < b + n" for p
    using Suc.prems(5) [of p] that d(5) [of p v] by simp
  have ram1: "n - Suc k \<le> card (free_pages (vm_phys s1))" if "locked_ram flags"
    using Suc.prems(6) [OF that] d(7) that by simp
  have cur1: "vm_current s1 = v" using d(2) Suc.prems(2) by simp
  obtain s' where s': "map_loop s1 v physical virtual flags file pos 1 [Suc k..<n] = Some (Inr s')"
    "extended flags file pos physical v b s1 {b + Suc k..<b + n} s'"
    using Suc.hyps(1) [OF k(2) d(1) cur1 k(3) Suc.prems(4) fr1 ram1] by blast
  have "{b + k..<b + n} = {b + k} \<union> {b + Suc k..<b + n}" using k(1) by auto
  then have "extended flags file pos physical v b s {b + k..<b + n} s'" using extended_trans [OF ext s'(2)] by simp
  moreover have "map_loop s v physical virtual flags file pos 1 [k..<n] = Some (Inr s')"
    unfolding upt_conv_Cons [OF k(1)] map_loop.simps Let_def bump_refs_def [symmetric] s1(1) obind_simps by (rule s'(1))
  ultimately show ?case by blast
qed

text \<open>The address that is used.\<close>

definition chosen_base :: "vm \<Rightarrow> nat \<Rightarrow> nat \<Rightarrow> nat \<Rightarrow> u32 \<Rightarrow> nat" where
  "chosen_base s v virtual pages flags =
     (if virtual = 0 \<or> IsRangeInUse s v virtual pages
      then if flag flags VM_LOCAL then vm_local_brk s else vm_kernel_brk s else virtual)"

lemma MapVirtEx_ok:
  assumes good: "vm_good s" and v: "vm_current s = v" and base: "chosen_base s v virtual pages flags = b * PAGE"
    and fl: "map_flags_error s physical flags file pos = ESUCCESS" "flag flags VM_MAP_HARDWARE \<Longrightarrow> physical \<noteq> 0"
    and fixed: "flag flags VM_FIXED_VIRT \<Longrightarrow> virtual \<noteq> 0 \<Longrightarrow> \<not> IsRangeInUse s v virtual pages"
    and free: "\<And>p. b \<le> p \<Longrightarrow> p < b + pages \<Longrightarrow> view s v p = None \<and> (flag flags VM_LOCAL \<longleftrightarrow> p < KERNEL_PAGE)"
    and ram: "locked_ram flags \<Longrightarrow> pages \<le> card (free_pages (vm_phys s))"
  shows "\<exists>s'. MapVirtEx s v physical virtual pages flags file pos = Some (Inr (s', b * PAGE, ESUCCESS)) \<and>
    extended flags file pos physical v b s {b..<b + pages} s'"
proof -
  define r where "r = (if virtual = 0 \<or> IsRangeInUse s v virtual pages then AllocVirtRange s pages (flag flags VM_LOCAL) else (s, virtual))"
  obtain s1 where r: "r = (s1, b * PAGE)" and sm: "same_memory s s1"
  proof -
    have "snd r = b * PAGE" using base by (auto simp: r_def chosen_base_def AllocVirtRange_def)
    moreover have "same_memory s (fst r)" by (simp add: r_def AllocVirtRange_def same_memory_def same_trees_def)
    ultimately show thesis using that [of "fst r"] by (metis prod.collapse)
  qed
  have good1: "vm_good s1" and v1: "vm_current s1 = v" and ph1: "vm_phys s1 = vm_phys s"
    using good v sm same_memory_good [OF sm] by (simp_all add: same_memory_def)
  have free1: "view s1 v p = None \<and> (flag flags VM_LOCAL \<longleftrightarrow> p < KERNEL_PAGE)" if "b + 0 \<le> p" "p < b + 0 + pages" for p
    using free [of p] that same_memory_view [OF sm] by simp
  define multi where "multi = ((\<not> flag flags VM_LOCK \<or> flag flags VM_MAP_HARDWARE) \<and> pages \<ge> 3)"
  have "\<exists>s'. map_loop s1 v physical (b * PAGE) flags file pos (if multi then pages else 1) [0..<(if multi then 1 else pages)] = Some (Inr s') \<and>
    extended flags file pos physical v b s1 {b..<b + pages} s'"
  proof (cases multi)
    case False
    have fr: "view s1 v p = None \<and> (flag flags VM_LOCAL \<longleftrightarrow> p < KERNEL_PAGE)" if "b + 0 \<le> p" "p < b + pages" for p
      using free1 that by simp
    have rm: "pages - 0 \<le> card (free_pages (vm_phys s1))" if "locked_ram flags" using ram [OF that] ph1 by simp
    show ?thesis using map_loop_ok [OF good1 v1 le0 refl fl fr rm] False by simp
  next
    case True
    then have pos': "0 < pages" and nolock: "\<not> locked_ram flags" by (auto simp: multi_def locked_ram_def)
    let ?s = "bump_refs flags file s1"
    note bm = bump_refs_same [of s1 flags "file"]
    have good2: "vm_good ?s" "vm_current ?s = v" using good1 v1 same_memory_good [OF bm] bm by (simp_all add: same_memory_def)
    have free2: "view ?s v p = None \<and> (flag flags VM_LOCAL \<longleftrightarrow> p < KERNEL_PAGE)" if "b + 0 \<le> p" "p < b + 0 + pages" for p
      using free1 [OF that] same_memory_view [OF bm] by simp
    obtain s' where s': "AddMapping ?s v (if flag flags VM_RELOCATABLE then physical else if physical = 0 then 0 else physical + 0 * PAGE)
        (b * PAGE + 0 * PAGE) flags file (pos + 0 * PAGE) pages = Some (Inr s')"
      "extended flags file pos physical v b ?s {b + 0..<b + 0 + pages} s'"
      by (rule map_step [where i = 0 and b = b, OF good2 refl fl free2 _ pos']) (use nolock in simp_all)
    have "map_loop s1 v physical (b * PAGE) flags file pos pages [0] = Some (Inr s')"
      unfolding map_loop.simps Let_def bump_refs_def [symmetric] s'(1) by simp
    then show ?thesis using True s'(2) extended_start [OF bm] by auto
  qed
  then obtain s' where s': "map_loop s1 v physical (b * PAGE) flags file pos (if multi then pages else 1) [0..<(if multi then 1 else pages)] = Some (Inr s')"
    "extended flags file pos physical v b s1 {b..<b + pages} s'" by blast
  have "\<not> (virtual \<noteq> 0 \<and> IsRangeInUse s v virtual pages \<and> flag flags VM_FIXED_VIRT)" using fixed by blast
  then have "MapVirtEx s v physical virtual pages flags file pos = Some (Inr (s', b * PAGE, ESUCCESS))"
    unfolding MapVirtEx_def Let_def fl(1) r_def [symmetric] r multi_def [symmetric] prod.case s'(1) by simp
  then show ?thesis using s'(2) extended_start [OF sm] by auto
qed

end
