(* ===== verification/VirtProps.thy ===== *)
theory VirtProps
  imports VirtSpace
begin

text \<open>
  The properties of the virtual memory manager, over the lemmas of the other Virt theories, and
  concrete machines on which they apply.
\<close>

subsection \<open>A machine after boot\<close>

text \<open>No mappings, five free frames, page tables empty.\<close>

definition blank_entry :: vm_entry where
  "blank_entry = mapping_entry 0 0 False 0 0 None 0 1"

definition boot_vm :: vm where
  "boot_vm = \<lparr>vm_store = (\<lambda>_. blank_entry), vm_next = 0, vm_mappings = (\<lambda>_. TreeCreate), vm_global = TreeCreate, vm_current = 0,
     vm_pte = (\<lambda>_ _. \<lparr>pt_physical = 0, pt_present = False, pt_write = False, pt_user = False\<rparr>),
     vm_phys = small_machine, vm_swap = \<lparr>sw_swapfile_bitmap = [0], sw_number_on_swapfile = 0, sw_bits_in_bitmap = 8\<rparr>,
     vm_frame = (\<lambda>_ _. 255), vm_files = (\<lambda>_. \<lparr>vf_mappable = True, vf_can_read = True, vf_can_write = False\<rparr>),
     vm_file_refs = (\<lambda>_. 0), vm_local_brk = 0x20000000, vm_kernel_brk = 0xC8000000, vm_deferred = [],
     vm_previous_swaps = replicate 32 None, vm_swap_num = 0, vm_rand = 0\<rparr>"

definition unmapped :: "vm \<Rightarrow> bool" where
  "unmapped s \<longleftrightarrow> (\<forall>v. tree_inv (vm_store s) (vm_mappings s v) \<and> local_entries s v = {}) \<and>
     tree_inv (vm_store s) (vm_global s) \<and> global_entries s = {} \<and> (\<forall>t p. \<not> pt_present (vm_pte s t p))"

lemma unmapped_good:
  assumes un: "unmapped s" and ph: "phys_ok (vm_phys s)"
  shows "vm_good s" "view s v p = None"
proof -
  have e: "local_entries s v = {}" "global_entries s = {}" for v using un by (simp_all add: unmapped_def)
  have wf: "vm_wf s" using un by (simp add: unmapped_def vm_wf_def vm_inv_def page_map_def)
  have vw: "view s v p = None" for v p
    using wf_get [OF wf, of v "p * PAGE"] e by (cases "GetVirtEntry s v (p * PAGE)") (auto simp: view_def)
  then show "view s v p = None" .
  have "tables_ok s" using un by (simp add: tables_ok_def vw unmapped_def)
  moreover have "frames_ok (view s) (vm_phys s)" using ph by (simp add: frames_ok_def vw)
  ultimately show "vm_good s" using wf by (simp add: vm_good_def)
qed

lemma boot_unmapped: "unmapped boot_vm" "phys_ok (vm_phys boot_vm)"
  using small_machine_ok by (simp_all add: unmapped_def boot_vm_def tree_inv_def tree_set_def TreeCreate_def)

subsection \<open>Requests\<close>

text \<open>A request to map that can be met: its flags are legal, the range that will be used starts at a
  page boundary, is free and lies in the right half of the address space, and there is enough memory.\<close>

definition map_request_ok :: "vm \<Rightarrow> nat \<Rightarrow> nat \<Rightarrow> nat \<Rightarrow> u32 \<Rightarrow> nat option \<Rightarrow> nat \<Rightarrow> nat \<Rightarrow> bool" where
  "map_request_ok s physical virtual pages flags file pos b \<longleftrightarrow>
     map_flags_error s physical flags file pos = ESUCCESS \<and> (flag flags VM_MAP_HARDWARE \<longrightarrow> physical \<noteq> 0) \<and>
     (flag flags VM_FIXED_VIRT \<longrightarrow> virtual \<noteq> 0 \<longrightarrow> \<not> IsRangeInUse s (vm_current s) virtual pages) \<and>
     chosen_base s (vm_current s) virtual pages flags = b * PAGE \<and>
     (\<forall>p\<in>{b..<b + pages}. view s (vm_current s) p = None \<and> (flag flags VM_LOCAL \<longleftrightarrow> p < KERNEL_PAGE)) \<and>
     (locked_ram flags \<longrightarrow> pages \<le> card (free_pages (vm_phys s)))"

lemma map_request:
  assumes good: "vm_good s" and req: "map_request_ok s physical virtual pages flags file pos b"
  shows "\<exists>s'. MapVirtEx s (vm_current s) physical virtual pages flags file pos = Some (Inr (s', b * PAGE, ESUCCESS)) \<and>
    extended flags file pos physical (vm_current s) b s {b..<b + pages} s'"
proof (rule MapVirtEx_ok [OF good refl])
  show "chosen_base s (vm_current s) virtual pages flags = b * PAGE" "map_flags_error s physical flags file pos = ESUCCESS"
    using req by (simp_all add: map_request_ok_def)
  show "physical \<noteq> 0" if "flag flags VM_MAP_HARDWARE" using req that by (simp add: map_request_ok_def)
  show "\<not> IsRangeInUse s (vm_current s) virtual pages" if "flag flags VM_FIXED_VIRT" "virtual \<noteq> 0"
    using req that by (simp add: map_request_ok_def)
  show "view s (vm_current s) p = None \<and> (flag flags VM_LOCAL \<longleftrightarrow> p < KERNEL_PAGE)" if "b \<le> p" "p < b + pages" for p
  proof -
    have "p \<in> {b..<b + pages}" using that by simp
    then show ?thesis using req unfolding map_request_ok_def by blast
  qed
  show "pages \<le> card (free_pages (vm_phys s))" if "locked_ram flags" using req that by (simp add: map_request_ok_def)
qed

definition unmap_request_ok :: "vm \<Rightarrow> nat \<Rightarrow> nat \<Rightarrow> bool \<Rightarrow> bool" where
  "unmap_request_ok s virtual pages skip \<longleftrightarrow>
     (\<forall>p\<in>{virtual div PAGE..<virtual div PAGE + pages}.
        case view s (vm_current s) p of None \<Rightarrow> skip | Some en \<Rightarrow> disposable en)"

lemma unmap_request:
  assumes good: "vm_good s" and req: "unmap_request_ok s virtual pages skip"
  shows "\<exists>s'. UnmapVirtEx s (vm_current s) virtual pages skip = Some (Inr (s', ESUCCESS)) \<and> vm_good s' \<and>
    view s' = erase (view s) (vm_current s) {virtual div PAGE..<virtual div PAGE + pages} \<and>
    free_pages (vm_phys s') = free_pages (vm_phys s) \<union> frames_in (view s) (vm_current s) {virtual div PAGE..<virtual div PAGE + pages} \<and>
    vm_current s' = vm_current s \<and> vm_frame s' = vm_frame s"
proof -
  have "case view s (vm_current s) (virtual div PAGE + i) of None \<Rightarrow> skip | Some en \<Rightarrow> disposable en" if "0 \<le> i" "i < pages" for i
    using req that by (simp add: unmap_request_ok_def)
  then show ?thesis
    using unmap_loop_ok [OF good le0, where n = pages and virtual = virtual and v = "vm_current s" and skip = skip]
    by (auto simp: UnmapVirtEx_def)
qed

subsection \<open>Page faults\<close>

text \<open>In a system that neither swaps nor forks, an entry is never on the swap file or copied on
  write, and a locked page is in memory.\<close>

definition entry_sane :: "vm_entry \<Rightarrow> bool" where
  "entry_sane en \<longleftrightarrow> \<not> en_swapfile en \<and> \<not> en_cow en \<and> (ve_lock en \<longrightarrow> en_in_ram en)"

definition sane_views :: "vm \<Rightarrow> bool" where
  "sane_views s \<longleftrightarrow> (\<forall>w p en. view s w p = Some en \<longrightarrow> entry_sane en)"

lemma sane_paint: "sane_views s \<Longrightarrow> view s' = paint (view s) v p x \<Longrightarrow> (\<And>en. x = Some en \<Longrightarrow> entry_sane en) \<Longrightarrow> sane_views s'"
  by (auto simp: sane_views_def paint_def split: if_splits)

lemma view_entry:
  assumes wf: "vm_wf s"
  shows "view s v (virtual div PAGE) = None \<longleftrightarrow> GetVirtEntry s v virtual = None"
    "GetVirtEntry s v virtual = Some e \<Longrightarrow> view s v (virtual div PAGE) = Some (page_entry (vm_store s e) (virtual div PAGE))"
  by (simp_all add: view_def GetVirtEntry_page)

lemma FromFile_ok:
  assumes good: "vm_good s" and get: "GetVirtEntry s (vm_current s) virtual = Some e"
    and en: "view s (vm_current s) (virtual div PAGE) = Some en" "\<not> en_in_ram en"
  obtains s' where "BringIntoMemoryFromFile s e virtual = Inr s'" "vm_good s'"
    "view s' = paint (view s) (vm_current s) (virtual div PAGE) (Some (en\<lparr>en_load_in_progress := True\<rparr>))"
    "vm_current s' = vm_current s" "vm_phys s' = vm_phys s"
proof -
  let ?v = "vm_current s" and ?p = "virtual div PAGE" and ?f = "\<lambda>en. en\<lparr>en_load_in_progress := True\<rparr>"
  have wf: "vm_wf s" and tab: "tables_ok s" and fr: "frames_ok (view s) (vm_phys s)" using good by (simp_all add: vm_good_def)
  obtain s1 where s1: "SplitLargePageEntryIntoMultiple s ?v virtual e 1 = Inr (s1, 1)" "sole s1 ?v ?p e"
    "view s1 = view s" "same_rest s s1" "vm_store s1 e = page_entry (vm_store s e) ?p"
    by (rule sole_split [OF wf get])
  have st: "vm_store s1 e = en" using soleD(10) [OF s1(2)] en s1(3) by simp
  have rest: "vm_pte s1 = vm_pte s" "vm_phys s1 = vm_phys s" "vm_current s1 = ?v" using s1(4) by (simp_all add: same_rest_def)
  have f: "in_place ?f" by (simp add: in_place_def)
  have "tables_but s1 ?v ?p" using tables_but_ok [OF tab] by (simp add: tables_but_def s1(3) rest)
  note ed = sole_edit [OF s1(2) f this, unfolded rest(3), OF refl, unfolded s1(3)]
  define s2 where "s2 = ArchUpdateMapping (upd_entry e ?f s1) e"
  note ed' = ed [folded s2_def, unfolded st]
  define s3 where "s3 = DeferDiskRead s2 (en_virtual (vm_store s2 e)) (en_file_node (vm_store s2 e)) (en_file_offset (vm_store s2 e)) False"
  have tr: "same_trees s2 s3" "vm_pte s3 = vm_pte s2" "vm_phys s3 = vm_phys s2" "vm_current s3 = vm_current s2"
    by (simp_all add: s3_def DeferDiskRead_def same_trees_def)
  have vw: "view s3 = paint (view s) ?v ?p (Some (?f en))" using same_trees_view [OF tr(1)] ed'(2) by simp
  have rest2: "vm_phys s2 = vm_phys s" "vm_current s2 = ?v" by (simp_all add: s2_def rest)
  have "frames_ok (view s3) (vm_phys s)" unfolding vw
  proof (rule frames_repaint [OF fr en(1)])
    show "en_allocated en \<and> en_in_ram (?f en) \<and> en_physical (?f en) = en_physical en" if "en_allocated (?f en)"
      using that frames_okD(2) [OF fr en(1)] en(2) by (simp add: owns_frame_def)
  qed
  moreover have "tables_ok s3" using ed'(3) same_trees_view [OF tr(1)] tr(2) by (simp add: tables_ok_def)
  moreover have "vm_wf s3" using soleD(1) [OF ed'(1)] sole_trees(1) [OF tr(1)] by simp
  ultimately have "vm_good s3" using tr(3) rest2 by (simp add: vm_good_def)
  moreover have "BringIntoMemoryFromFile s e virtual = Inr s3"
    unfolding BringIntoMemoryFromFile_def s1(1) Let_def s3_def s2_def by simp
  ultimately show thesis using that vw tr rest2 by simp
qed

lemma fault_entry:
  assumes wf: "vm_wf s" and get: "GetVirtEntry s v virtual = Some e" and en: "view s v (virtual div PAGE) = Some en"
  shows "en_load_in_progress (vm_store s e) = en_load_in_progress en" "en_in_ram (vm_store s e) = en_in_ram en"
    "en_swapfile (vm_store s e) = en_swapfile en" "ve_file (vm_store s e) = ve_file en" "ve_lock (vm_store s e) = ve_lock en"
    "en_cow (vm_store s e) = en_cow en" "ve_read (vm_store s e) = ve_read en" "ve_write (vm_store s e) = ve_write en"
    "ve_exec (vm_store s e) = ve_exec en"
proof -
  have "en = page_entry (vm_store s e) (virtual div PAGE)" using view_entry(2) [OF wf get] en by simp
  then show "en_load_in_progress (vm_store s e) = en_load_in_progress en" "en_in_ram (vm_store s e) = en_in_ram en"
    "en_swapfile (vm_store s e) = en_swapfile en" "ve_file (vm_store s e) = ve_file en" "ve_lock (vm_store s e) = ve_lock en"
    "en_cow (vm_store s e) = en_cow en" "ve_read (vm_store s e) = ve_read en" "ve_write (vm_store s e) = ve_write en"
    "ve_exec (vm_store s e) = ve_exec en"
    by (simp_all add: page_entry_def)
qed

text \<open>The rights that a fault asks for.\<close>

definition permitted :: "u32 \<Rightarrow> vm_entry \<Rightarrow> bool" where
  "permitted fault_type en \<longleftrightarrow> (flag fault_type VM_READ \<longrightarrow> ve_read en) \<and> (flag fault_type VM_WRITE \<longrightarrow> ve_write en) \<and>
     (flag fault_type VM_EXEC \<longrightarrow> ve_exec en)"

lemma fault_blank:
  assumes good: "vm_good s" and en: "view s (vm_current s) (virtual div PAGE) = Some en" "entry_sane en"
      "\<not> en_in_ram en" "\<not> ve_file en" "\<not> en_load_in_progress en" "permitted fault_type en"
    and free: "free_pages (vm_phys s) \<noteq> {}"
  shows "\<exists>s' i. HandleVirtFault s False virtual fault_type = Some (Inr (s', Fault_Handled)) \<and> vm_good s' \<and>
    i \<in> free_pages (vm_phys s) \<and> free_pages (vm_phys s') = free_pages (vm_phys s) - {i} \<and>
    view s' = paint (view s) (vm_current s) (virtual div PAGE) (Some (with_frame i en)) \<and>
    vm_frame s' = (vm_frame s)(i * PAGE := zero_page) \<and> vm_current s' = vm_current s"
proof -
  have wf: "vm_wf s" using good by (simp add: vm_good_def)
  obtain e where get: "GetVirtEntry s (vm_current s) virtual = Some e" using view_entry(1) [OF wf, of "vm_current s" virtual] en(1) by auto
  note fe = fault_entry [OF wf get en(1)]
  have sane: "\<not> en_swapfile en" "\<not> en_cow en" "\<not> ve_lock en" using en(2,3) by (auto simp: entry_sane_def)
  have perm: "flag fault_type VM_READ \<longrightarrow> ve_read en" "flag fault_type VM_WRITE \<longrightarrow> ve_write en" "flag fault_type VM_EXEC \<longrightarrow> ve_exec en"
    using en(6) by (simp_all add: permitted_def)
  obtain s' i where "BringInBlankPage s (vm_current s) e virtual fault_type = Some (Inr (s', False))" "vm_good s'"
    "i \<in> free_pages (vm_phys s)" "free_pages (vm_phys s') = free_pages (vm_phys s) - {i}"
    "view s' = paint (view s) (vm_current s) (virtual div PAGE) (Some (with_frame i en))"
    "vm_frame s' = (vm_frame s)(i * PAGE := zero_page)" "vm_current s' = vm_current s"
    by (rule BringInBlankPage_ok [OF good get en(1) sane(1) perm free])
  then show ?thesis using get fe sane en(3-5) by (auto simp: HandleVirtFault_def BringIntoMemory_def Let_def)
qed

lemma fault_total:
  assumes good: "vm_good s" and sane: "sane_views s" and free: "free_pages (vm_phys s) \<noteq> {}"
  shows "\<exists>s' out. HandleVirtFault s False virtual fault_type = Some (Inr (s', out)) \<and> vm_good s' \<and> sane_views s'"
proof -
  have wf: "vm_wf s" using good by (simp add: vm_good_def)
  show ?thesis
  proof (cases "GetVirtEntry s (vm_current s) virtual")
    case None
    then show ?thesis using good sane by (simp add: HandleVirtFault_def)
  next
    case get: (Some e)
    define en where "en = page_entry (vm_store s e) (virtual div PAGE)"
    have vw: "view s (vm_current s) (virtual div PAGE) = Some en" unfolding en_def by (rule view_entry(2) [OF wf get])
    note fe = fault_entry [OF wf get vw]
    have es: "entry_sane en" using sane vw by (simp add: sane_views_def)
    then have sn: "\<not> en_swapfile en" "\<not> en_cow en" "ve_lock en \<Longrightarrow> en_in_ram en" by (simp_all add: entry_sane_def)
    consider (busy) "en_load_in_progress en" | (ram) "\<not> en_load_in_progress en" "en_in_ram en"
      | (backed) "\<not> en_load_in_progress en" "\<not> en_in_ram en" "ve_file en"
      | (denied) "\<not> en_load_in_progress en" "\<not> en_in_ram en" "\<not> ve_file en" "\<not> permitted fault_type en"
      | (blank) "\<not> en_load_in_progress en" "\<not> en_in_ram en" "\<not> ve_file en" "permitted fault_type en"
      by blast
    then show ?thesis
    proof cases
      case busy
      then show ?thesis using get fe good sane by (simp add: HandleVirtFault_def Let_def)
    next
      case ram
      then show ?thesis using get fe sn good sane by (simp add: HandleVirtFault_def BringIntoMemory_def Let_def)
    next
      case backed
      obtain s' where s': "BringIntoMemoryFromFile s e virtual = Inr s'" "vm_good s'"
        "view s' = paint (view s) (vm_current s) (virtual div PAGE) (Some (en\<lparr>en_load_in_progress := True\<rparr>))"
        by (rule FromFile_ok [OF good get vw backed(2)])
      have "sane_views s'" by (rule sane_paint [OF sane s'(3)]) (use es in \<open>auto simp: entry_sane_def\<close>)
      moreover have "\<not> ve_lock en" using sn(3) backed(2) by blast
      ultimately show ?thesis using get fe sn(1,2) s' backed by (simp add: HandleVirtFault_def BringIntoMemory_def Let_def)
    next
      case denied
      then have "BringInBlankPage s (vm_current s) e virtual fault_type = Some (Inr (s, True))"
        using fe by (auto simp: BringInBlankPage_def permitted_def Let_def)
      moreover have "\<not> ve_lock en" using sn(3) denied(2) by blast
      ultimately show ?thesis using get fe sn(1,2) denied good sane by (simp add: HandleVirtFault_def BringIntoMemory_def Let_def)
    next
      case blank
      obtain s' i where s': "HandleVirtFault s False virtual fault_type = Some (Inr (s', Fault_Handled))" "vm_good s'"
        "view s' = paint (view s) (vm_current s) (virtual div PAGE) (Some (with_frame i en))"
        using fault_blank [OF good vw es blank(2,3,1,4) free] by blast
      have "sane_views s'" by (rule sane_paint [OF sane s'(3)]) (use es in \<open>auto simp: entry_sane_def with_frame_def\<close>)
      then show ?thesis using s' by blast
    qed
  qed
qed

subsection \<open>Runs of the memory manager\<close>

text \<open>The operations in the order they are called: a machine starts without mappings, address spaces
  are switched, ranges are mapped and unmapped, rights are changed and page faults are handled.\<close>

inductive vm_run :: "vm \<Rightarrow> bool" where
  boot: "unmapped s \<Longrightarrow> phys_ok (vm_phys s) \<Longrightarrow> vm_run s"
| switch: "vm_run s \<Longrightarrow> vm_run (SetVas s v)"
| map: "vm_run s \<Longrightarrow> map_request_ok s physical virtual pages flags file pos b \<Longrightarrow>
    MapVirtEx s (vm_current s) physical virtual pages flags file pos = Some (Inr (s', addr, err)) \<Longrightarrow> vm_run s'"
| refuse: "vm_run s \<Longrightarrow> map_flags_error s physical flags file pos \<noteq> ESUCCESS \<Longrightarrow>
    MapVirtEx s (vm_current s) physical virtual pages flags file pos = Some (Inr (s', addr, err)) \<Longrightarrow> vm_run s'"
| unmap: "vm_run s \<Longrightarrow> unmap_request_ok s virtual pages skip \<Longrightarrow>
    UnmapVirtEx s (vm_current s) virtual pages skip = Some (Inr (s', err)) \<Longrightarrow> vm_run s'"
| protect: "vm_run s \<Longrightarrow> SetVirtPermissions s virtual setp clear = Inr (s', err) \<Longrightarrow> vm_run s'"
| fault: "vm_run s \<Longrightarrow> free_pages (vm_phys s) \<noteq> {} \<Longrightarrow>
    HandleVirtFault s False virtual fault_type = Some (Inr (s', out)) \<Longrightarrow> vm_run s'"

lemma protect_ok:
  assumes good: "vm_good s" and sane: "sane_views s" and call: "SetVirtPermissions s virtual setp clear = Inr (s', err)"
  shows "vm_good s' \<and> sane_views s'"
proof -
  have wf: "vm_wf s" using good by (simp add: vm_good_def)
  have call': "SetVirtPermissionsEx s (vm_current s) virtual setp clear = Inr (s', err)" using call by (simp add: SetVirtPermissions_def)
  show ?thesis
  proof (cases "s' = s")
    case False
    have legal: "(setp OR clear) AND NOT (VM_READ OR VM_WRITE OR VM_EXEC OR VM_USER) = 0"
      using call' False by (auto simp: SetVirtPermissionsEx_def split: if_splits)
    obtain e where get: "GetVirtEntry s (vm_current s) virtual = Some e"
      using call' False by (cases "GetVirtEntry s (vm_current s) virtual") (auto simp: SetVirtPermissionsEx_def split: if_splits)
    define en where "en = page_entry (vm_store s e) (virtual div PAGE)"
    have vw: "view s (vm_current s) (virtual div PAGE) = Some en" unfolding en_def by (rule view_entry(2) [OF wf get])
    have same: "ve_file (vm_store s e) = ve_file en" "en_file_node (vm_store s e) = en_file_node en"
      "ve_relocatable (vm_store s e) = ve_relocatable en" by (simp_all add: en_def page_entry_def)
    have access: "\<not> (ve_file en \<and> \<not> vf_can_write (vm_files s (the (en_file_node en))) \<and> flag setp VM_WRITE \<and> \<not> ve_relocatable en)"
      using call' False get unfolding SetVirtPermissionsEx_def Let_def same [symmetric] by (auto split: if_splits)
    obtain s'' where s'': "SetVirtPermissionsEx s (vm_current s) virtual setp clear = Inr (s'', ESUCCESS)" "vm_good s''"
      "view s'' = paint (view s) (vm_current s) (virtual div PAGE) (Some (apply_permissions setp clear en))"
      by (rule SetVirtPermissionsEx_ok [OF good get vw legal access refl])
    have "entry_sane en" using sane vw by (simp add: sane_views_def)
    then have "sane_views s''" by (intro sane_paint [OF sane s''(3)]) (auto simp: entry_sane_def apply_permissions_def)
    moreover have "s'' = s'" using s''(1) call' by simp
    ultimately show ?thesis using s''(2) by simp
  qed (use good sane in simp)
qed

lemma requested_sane: "as_requested flags file offset physical en \<Longrightarrow> entry_sane en"
  by (simp add: as_requested_def entry_sane_def)

lemma extended_sane:
  assumes wf: "vm_wf s'" and sane: "sane_views s" and ext: "extended flags file pos physical v b s A s'"
  shows "sane_views s'"
  unfolding sane_views_def
proof (intro allI impI)
  fix w p en assume en: "view s' w p = Some en"
  show "entry_sane en"
  proof (cases "p \<in> A \<and> table_of w p = table_of v p")
    case True
    then have "view s' v p = Some en" using wf_view_table [OF wf, of w p v] en by simp
    then show ?thesis using extendedD(4) [OF ext, of p] True requested_sane by fastforce
  next
    case False
    then show ?thesis using extendedD(5) [OF ext False] en sane by (simp add: sane_views_def)
  qed
qed

lemma run_invariant: "vm_run s \<Longrightarrow> vm_good s \<and> sane_views s"
proof (induction rule: vm_run.induct)
  case (boot s)
  then show ?case using unmapped_good by (simp add: sane_views_def)
next
  case (switch s v)
  have tr: "same_trees s (SetVas s v)" by (simp add: same_trees_def SetVas_def)
  have vw: "view (SetVas s v) = view s" by (rule same_trees_view [OF tr])
  have "vm_good (SetVas s v)" using switch.IH by (simp add: vm_good_def tables_ok_def sole_trees(1) [OF tr] vw) (simp add: SetVas_def)
  then show ?case using switch.IH by (simp add: sane_views_def vw)
next
  case (map s physical virtual pages flags "file" pos b s' addr err)
  obtain s'' where s'': "MapVirtEx s (vm_current s) physical virtual pages flags file pos = Some (Inr (s'', b * PAGE, ESUCCESS))"
    "extended flags file pos physical (vm_current s) b s {b..<b + pages} s''"
    using map_request [OF conjunct1 [OF map.IH] map.hyps(2)] by blast
  have eq: "s'' = s'" using s''(1) map.hyps(3) by simp
  have "vm_good s'" using extendedD(1) [OF s''(2)] eq by simp
  moreover have "sane_views s'" using extended_sane [OF _ conjunct2 [OF map.IH] s''(2)] calculation eq by (simp add: vm_good_def)
  ultimately show ?case by blast
next
  case (refuse s physical flags "file" pos virtual pages s' addr err)
  then show ?case by (simp add: MapVirtEx_def Let_def)
next
  case (unmap s virtual pages skip s' err)
  obtain s'' where s'': "UnmapVirtEx s (vm_current s) virtual pages skip = Some (Inr (s'', ESUCCESS))" "vm_good s''"
    "view s'' = erase (view s) (vm_current s) {virtual div PAGE..<virtual div PAGE + pages}"
    using unmap_request [OF conjunct1 [OF unmap.IH] unmap.hyps(2)] by blast
  have "sane_views s''" using conjunct2 [OF unmap.IH] unfolding sane_views_def s''(3) by (auto simp: erase_def split: if_splits)
  moreover have "s'' = s'" using s''(1) unmap.hyps(3) by simp
  ultimately show ?case using s''(2) by simp
next
  case (protect s virtual setp clear s' err)
  then show ?case using protect_ok by blast
next
  case (fault s virtual fault_type s' out)
  then show ?case using fault_total [of s virtual fault_type] by auto
qed

subsection \<open>Properties\<close>

text \<open>Demonstration requests: two locked pages, and three pages on demand, of a user program.\<close>

definition demo_flags :: u32 where
  "demo_flags = VM_READ OR VM_LOCK OR VM_USER OR VM_LOCAL"

definition lazy_flags :: u32 where
  "lazy_flags = VM_READ OR VM_WRITE OR VM_USER OR VM_LOCAL"

lemma demo_flags_simps:
  "flag demo_flags VM_LOCAL" "flag demo_flags VM_LOCK" "\<not> flag demo_flags VM_MAP_HARDWARE" "\<not> flag demo_flags VM_FIXED_VIRT"
  "flag lazy_flags VM_LOCAL" "\<not> flag lazy_flags VM_LOCK" "\<not> flag lazy_flags VM_MAP_HARDWARE" "\<not> flag lazy_flags VM_FIXED_VIRT"
  "flag lazy_flags VM_WRITE" "flag lazy_flags VM_READ"
  "map_flags_error s 0 demo_flags None 0 = ESUCCESS" "map_flags_error s 0 lazy_flags None 0 = ESUCCESS"
  by (simp_all add: flag_def map_flags_error_def demo_flags_def lazy_flags_def)

lemma boot_free_range: "\<not> IsRangeInUse boot_vm v virtual n"
proof -
  have "\<not> range_in_use boot_vm TreeCreate virtual n" for virtual
    by (induction n arbitrary: virtual) (simp_all add: TreeContains_def TreeCreate_def TreeSetComparator_def)
  then show ?thesis by (simp add: IsRangeInUse_def boot_vm_def)
qed

lemma boot_requests:
  "map_request_ok boot_vm 0 0x400000 2 demo_flags None 0 0x400" "map_request_ok boot_vm 0 0x400000 3 lazy_flags None 0 0x400"
  using boot_free_range unmapped_good(2) [OF boot_unmapped]
  by (simp_all add: map_request_ok_def demo_flags_simps chosen_base_def locked_ram_def) (simp add: boot_vm_def small_machine_free)

lemma boot_run: "vm_run boot_vm"
  by (rule vm_run.boot [OF boot_unmapped])





text \<open>C32.  Unmapping a range of pages that need no disk access removes exactly these pages and gives
  back exactly their frames, although every iteration splits entries at the start of the range.\<close>

theorem UnmapVirtEx_unmaps_range:
  assumes "vm_run s" "unmap_request_ok s virtual pages skip"
  shows "\<exists>s'. UnmapVirtEx s (vm_current s) virtual pages skip = Some (Inr (s', ESUCCESS)) \<and>
    (\<forall>w p. view s' w p = (if p \<in> {virtual div PAGE..<virtual div PAGE + pages} \<and> table_of w p = table_of (vm_current s) p
                          then None else view s w p)) \<and>
    free_pages (vm_phys s') = free_pages (vm_phys s) \<union> frames_in (view s) (vm_current s) {virtual div PAGE..<virtual div PAGE + pages}"
  using unmap_request [OF conjunct1 [OF run_invariant [OF assms(1)]] assms(2)] by (auto simp: erase_def)

lemma requested_disposable:
  assumes "map_flags_error s physical flags file pos = ESUCCESS" "as_requested flags file offset addr en"
  shows "disposable en"
  using assms map_flags_ok(2) [OF assms(1)] by (auto simp: disposable_def as_requested_def)

lemma extended_unmap:
  assumes "map_request_ok s physical virtual pages flags file pos b"
    and "extended flags file pos physical (vm_current s) b s {b..<b + pages} s'"
  shows "unmap_request_ok s' (b * PAGE) pages skip"
proof -
  have "case view s' (vm_current s) p of None \<Rightarrow> skip | Some en \<Rightarrow> disposable en" if "p \<in> {b..<b + pages}" for p
    using extendedD(4) [OF assms(2) that] requested_disposable [of s physical flags "file" pos] assms(1)
    by (auto simp: map_request_ok_def)
  then show ?thesis using extendedD(2) [OF assms(2)] by (simp add: unmap_request_ok_def)
qed

theorem UnmapVirtEx_unmaps_range_witness:
  "\<exists>s s'. MapVirtEx boot_vm 0 0 0x400000 3 lazy_flags None 0 = Some (Inr (s, 0x400000, ESUCCESS)) \<and>
     UnmapVirtEx s 0 0x400000 3 False = Some (Inr (s', ESUCCESS)) \<and> view s' 0 0x401 = None"
proof -
  obtain s where s: "MapVirtEx boot_vm (vm_current boot_vm) 0 0x400000 3 lazy_flags None 0 = Some (Inr (s, 0x400 * PAGE, ESUCCESS))"
    "extended lazy_flags None 0 0 (vm_current boot_vm) 0x400 boot_vm {0x400..<0x400 + 3} s"
    using map_request [OF conjunct1 [OF run_invariant [OF boot_run]] boot_requests(2)] by blast
  have run: "vm_run s" by (rule vm_run.map [OF boot_run boot_requests(2) s(1)])
  have "vm_current s = 0" using extendedD(2) [OF s(2)] by (simp add: boot_vm_def)
  then show ?thesis using s(1) UnmapVirtEx_unmaps_range [OF run extended_unmap [OF boot_requests(2) s(2), of False]]
    by (auto simp: boot_vm_def)
qed














subsection \<open>Fork\<close>

text \<open>A fork marks every entry as copy on write, also entries that cover many untouched pages; a write
  to such a page fails the assertion that the entry has one page.\<close>

lemma AvlGet_single: "cmp e x = 0 \<Longrightarrow> AvlGet cmp (TNode TNull e TNull) x = Some e"
  by simp

lemma GetVirtEntry_single:
  assumes "t_root (vm_mappings s v) = TNode TNull e TNull" "covers (vm_store s e) (virtual div PAGE)" "e < vm_next s"
  shows "GetVirtEntry s v virtual = Some e"
proof -
  have "VirtAvlComparator (dummy_at s (virtual div PAGE * PAGE)) e (vm_next s) = 0"
    using assms(2,3) by (auto simp: VirtAvlComparator_def dummy_at_def covers_def first_page_def Let_def)
  then show ?thesis using assms(1) by (simp add: GetVirtEntry_def TreeGet_def TreeSetComparator_def Let_def)
qed

text \<open>C38.  After a fork of a program with one untouched mapping of several pages, the first write to that
  mapping stops the kernel.\<close>

theorem fork_write_panics:
  assumes tree: "t_root (vm_mappings s (vm_current s)) = TNode TNull e TNull" "vm_mappings s child = TreeCreate" "child \<noteq> vm_current s"
    and en: "\<not> ve_lock (vm_store s e)" "\<not> en_share_on_fork (vm_store s e)" "\<not> en_swapfile (vm_store s e)" "\<not> en_load_in_progress (vm_store s e)"
      "en_num_pages (vm_store s e) \<noteq> 1" "e < vm_next s" "covers (vm_store s e) (virtual div PAGE)"
  shows "\<exists>s'. CopyVas s child = Inr s' \<and> HandleVirtFault s' False virtual VM_WRITE = Some (Inl PANIC_ASSERTION_FAILURE)"
proof -
  let ?f = "\<lambda>en :: vm_entry. en\<lparr>en_cow := True, en_ref_count := en_ref_count en + 1\<rparr>"
  obtain s' where s': "CopyVas s child = Inr s'" "vm_store s' e = ?f (vm_store s e)" "vm_current s' = vm_current s"
    "vm_mappings s' (vm_current s) = vm_mappings s (vm_current s)" "vm_next s' = vm_next s"
  proof -
    define s0 where "s0 = s\<lparr>vm_store := (vm_store s)(e := ?f (vm_store s e))\<rparr>"
    obtain t where t: "TreeInsert (tree_at (vm_store s0) TreeCreate) e = Inr t" by (simp add: TreeInsert_def TreeCreate_def TreeSetComparator_def)
    define s1 where "s1 = ArchUpdateMapping (s0\<lparr>vm_mappings := (vm_mappings s)(child := t)\<rparr>) e"
    define s2 where "s2 = SetVas (ArchUpdateMapping (SetVas s1 child) e) (vm_current s)"
    have m: "vm_mappings (ArchUpdateMapping s e) = vm_mappings s" for s e by (subst ArchUpdateMapping_rest) simp
    have cur: "vm_current s1 = vm_current s" by (simp add: s1_def s0_def)
    have "CopyVas s child = Inr s2"
      unfolding CopyVas_def tree(1) using en(1,2) tree(2) t cur
      by (simp add: Let_def s0_def [symmetric] s1_def [symmetric] s2_def del: fun_upd_apply) (simp add: s0_def s1_def)
    moreover have "vm_store s2 e = ?f (vm_store s e)" "vm_current s2 = vm_current s" "vm_next s2 = vm_next s"
      "vm_mappings s2 (vm_current s) = vm_mappings s (vm_current s)"
      using tree(3) by (simp_all add: s2_def s1_def s0_def SetVas_def m)
    ultimately show thesis using that by blast
  qed
  have "covers (vm_store s' e) (virtual div PAGE)" using en(7) by (simp add: s'(2) covers_def first_page_def)
  then have "GetVirtEntry s' (vm_current s') virtual = Some e"
    by (intro GetVirtEntry_single) (use tree(1) s'(3-5) en(6) in simp_all)
  then have "HandleVirtFault s' False virtual VM_WRITE = Some (Inl PANIC_ASSERTION_FAILURE)"
    using en by (simp add: HandleVirtFault_def BringIntoMemory_def Let_def s'(2) flag_def)
  then show ?thesis using s'(1) by blast
qed

definition lazy_vm :: vm where
  "lazy_vm = boot_vm\<lparr>vm_store := (\<lambda>_. mapping_entry lazy_flags 0 False 0 0x400000 None 0 3), vm_next := 1,
     vm_mappings := (\<lambda>v. if v = 0 then TreeCreate\<lparr>t_root := TNode TNull 0 TNull, t_size := 1\<rparr> else TreeCreate)\<rparr>"

theorem fork_write_panics_witness:
  "\<exists>s'. CopyVas lazy_vm 1 = Inr s' \<and> HandleVirtFault s' False 0x401000 VM_WRITE = Some (Inl PANIC_ASSERTION_FAILURE)"
  by (rule fork_write_panics [where e = 0])
    (simp_all add: lazy_vm_def boot_vm_def covers_def first_page_def, simp_all add: mapping_entry_def lazy_flags_def flag_def)








end
