(* ===== verification/Spec2Isabelle.thy ===== *)
theory Spec2Isabelle
  imports LinkedList AvlTree Hashmap Irql KernelSteps MailboxProtocol TimeConv LibcSort LibcString VirtProps
begin

text \<open>
  A verification of the Merlon operating system: the machine-independent kernel (src/kernel/) and
  the parts of the C library (src/libc/common, src/libc/hosted, src/common) that the kernel or its
  programs compute with.  The model is the 32-bit x86 debug build: \<^verbatim>\<open>size_t\<close> has 32 bits and
  assertions are on.

  The parts of the program and how they fit together.  Threads (kernel/thread/) are linked into
  intrusive lists; the scheduler takes the next one from the ready list.  Semaphores, message boxes
  and mailboxes (kernel/sync/), the timer and the signals make threads ready again.  Interrupt
  levels (kernel/irq/) delay calls through a priority queue.  Drivers and the kernel's tables rest
  on the containers of kernel/adt/.  Pages come from the physical allocator and the swap slots
  (kernel/mem/), and data passes between the kernel and user memory through transfers
  (kernel/vfs/transfer.c), which mailboxes and pipes use.

  How the model is built.
  \<^item> A C struct is a record with the fields the code uses, an enumeration a datatype, a pointer
    a number into an explicit store or the position in a list, and the null pointer \<open>None\<close>.
  \<^item> A panic or a failed assertion is a value \<open>Inl code\<close> of the type \<open>'a kres\<close> (theory Prelude).
    Code that may run for ever or block has type \<open>'a option\<close>, with \<open>None\<close> for not returning; each
    claim that such code returns is proved as an equation with \<open>Some\<close>.
  \<^item> A section of code under the scheduler lock or a spinlock is one atomic step.  An operation
    that blocks is split at the point where it gives up the processor.
  \<^item> Logging has no effect on the state and is left out.

  The theories.
  \<^item> Prelude: result types, error numbers, pointer chains and the lemmas on lists and words that
    the components share.
  \<^item> LinkedList (adt/linkedlist.c, adt/stack.c) and ThreadList (thread/threadlist.c): lists of
    linked nodes at the level of pointers.  They implement sequences; prepending to a list of two
    nodes loses one.
  \<^item> PriorityQueue (adt/heap.c): the array heap implements a priority queue on multisets.
  \<^item> AvlTree (adt/tree.c): the tree stays balanced and sorted, operations act on the set of
    objects, and its height is logarithmic; with equal keys a deletion goes wrong.  The locale
    \<open>tree_comparator\<close> states what a comparison function must satisfy.
  \<^item> Hashmap (adt/hashmap.c): a hash map implements a map, whatever the collisions.
  \<^item> Irql (irq/irql.c, irq/irq.c): lowering the interrupt level runs the deferred calls in order.
  \<^item> Scheduler (thread/thread.c, thread/cleaner.c, sync/semaphore.c, sync/message.c), Signal
    (thread/signal.c) and Timer (thread/timer.c): the operations on threads.  KernelSteps puts them
    into one transition system, in which any interleaving keeps the invariant \<open>sched_inv\<close>: every
    thread is in exactly the lists its state says.
  \<^item> UserTransfer (vfs/transfer.c, permission checks of mem/virtual.c): byte memory, transfers and
    their round trips.
  \<^item> Mailbox (sync/mailbox.c, dev/pipe.c) and MailboxProtocol: a mailbox is a bounded queue of
    bytes, for one caller and under every interleaving of calls, and readers and writers do not
    deadlock.
  \<^item> PhysMem (mem/physical.c, mem/swapfile.c): page and swap slot allocators, both of them
    interpretations of the locale \<open>page_allocator\<close>.
  \<^item> TimeConv (libc/common/timeconv.c, libc/hosted/time/time.c): calendar conversions are inverse.
  \<^item> LibcSort (libc/common/stdlib/search_sort.c): merge sort and binary search.
  \<^item> LibcString (libc/common/string.c, common/cmn_string.h, ctype.c, atoi.c, strtol.c): string
    functions over byte memory.

  Bounds and fuel.  No definition uses fuel: loops are structural recursions, functions with a
  measure, or partial functions in the option type.  Counters that the code keeps below a fixed
  bound (list sizes, page numbers, queue lengths) are natural numbers or integers; where the
  width matters (addresses, lengths of transfers, indices of the binary search, string hashes,
  physical addresses) the model has words or reduces modulo the width.

  Not modelled.  The architecture layer (kernel/arch/: page tables, interrupt entry, context
  switch), the drivers (src/drivers/, among them the third-party ACPICA and FAT sources), the boot
  loader (src/boot/) and the video and serial consoles (kernel/util/) drive hardware: what they
  compute is visible only in device registers.  The applications, the system call stubs and
  stdio pass arguments on and format text.  The test sources of the system root are data.
\<close>

end
